(* ===== verification/Prelude.thy ===== *)
theory Prelude
  imports
    "HOL-Library.Word"
    "HOL-Library.Multiset"
    "HOL-Library.List_Lexorder"
    "HOL-Library.Product_Lexorder"
    "HOL-Library.Char_ord"
begin

text \<open>
  Shared ground of the development: the machine integers and byte strings of the Rust
  sources, the \<^verbatim>\<open>Result\<close> type with the behaviour of the \<^verbatim>\<open>?\<close> operator, the little-endian
  encodings (\<^verbatim>\<open>u64::to_le_bytes\<close>, \<^verbatim>\<open>u64::from_le_bytes\<close>), the saturating and checked
  arithmetic of the standard library, and the generic lemmas on sorted lists and loops over
  fallible iterators that the component theories share.
\<close>

section \<open>Machine types\<close>

type_synonym u8 = "8 word"
type_synonym u16 = "16 word"
type_synonym u32 = "32 word"
type_synonym u64 = "64 word"
type_synonym i32 = "32 word"
type_synonym i64 = "64 word"
type_synonym bytes = "u8 list"

text \<open>\<^verbatim>\<open>Result<a, e>\<close> is a sum, the error on the left.\<close>

type_synonym ('e, 'a) result = "'e + 'a"

named_theorems result_simps \<open>the ? operator and the adaptors of Result\<close>
named_theorems le_simps \<open>little-endian encodings\<close>
named_theorems key_simps \<open>composite keys and their order\<close>

section \<open>Results\<close>

text \<open>The \<^verbatim>\<open>?\<close> operator.\<close>

definition bind_r :: "('e, 'a) result \<Rightarrow> ('a \<Rightarrow> ('e, 'b) result) \<Rightarrow> ('e, 'b) result" where
  "bind_r r f = (case r of Inl e \<Rightarrow> Inl e | Inr a \<Rightarrow> f a)"

definition map_err :: "('e \<Rightarrow> 'f) \<Rightarrow> ('e, 'a) result \<Rightarrow> ('f, 'a) result" where
  "map_err h r = (case r of Inl e \<Rightarrow> Inl (h e) | Inr a \<Rightarrow> Inr a)"

definition map_ok :: "('a \<Rightarrow> 'b) \<Rightarrow> ('e, 'a) result \<Rightarrow> ('e, 'b) result" where
  "map_ok f r = (case r of Inl e \<Rightarrow> Inl e | Inr a \<Rightarrow> Inr (f a))"

definition ok_or :: "'e \<Rightarrow> 'a option \<Rightarrow> ('e, 'a) result" where
  "ok_or e x = (case x of None \<Rightarrow> Inl e | Some a \<Rightarrow> Inr a)"

lemma bind_r_simps [simp, result_simps]:
  "bind_r (Inl e) f = Inl e"
  "bind_r (Inr a) f = f a"
  by (simp_all add: bind_r_def)

lemma map_err_simps [simp, result_simps]:
  "map_err h (Inl e) = Inl (h e)"
  "map_err h (Inr a) = Inr a"
  by (simp_all add: map_err_def)

lemma map_ok_simps [simp, result_simps]:
  "map_ok f (Inl e) = Inl e"
  "map_ok f (Inr a) = Inr (f a)"
  by (simp_all add: map_ok_def)

lemma ok_or_simps [simp, result_simps]:
  "ok_or e None = Inl e"
  "ok_or e (Some a) = Inr a"
  by (simp_all add: ok_or_def)

lemma bind_r_eq_Inr: "bind_r r f = Inr b \<longleftrightarrow> (\<exists>a. r = Inr a \<and> f a = Inr b)"
  by (cases r) auto

lemma bind_r_eq_Inl: "bind_r r f = Inl e \<longleftrightarrow> r = Inl e \<or> (\<exists>a. r = Inr a \<and> f a = Inl e)"
  by (cases r) auto

lemma map_err_eq_Inr: "map_err h r = Inr a \<longleftrightarrow> r = Inr a"
  by (cases r) auto

lemma map_err_eq_Inl: "map_err h r = Inl f \<longleftrightarrow> (\<exists>e. r = Inl e \<and> f = h e)"
  by (cases r) auto

lemma map_ok_eq_Inr: "map_ok f r = Inr b \<longleftrightarrow> (\<exists>a. r = Inr a \<and> b = f a)"
  by (cases r) auto

lemma map_ok_eq_Inl: "map_ok f r = Inl e \<longleftrightarrow> r = Inl e"
  by (cases r) auto

lemma ok_or_eq_Inr: "ok_or e x = Inr a \<longleftrightarrow> x = Some a"
  by (cases x) auto

lemmas result_eqs = bind_r_eq_Inr bind_r_eq_Inl map_err_eq_Inr map_err_eq_Inl map_ok_eq_Inr map_ok_eq_Inl ok_or_eq_Inr

text \<open>
  A loop \<^verbatim>\<open>for item in iter { let x = item?; .. }\<close> over a fallible iterator: the first failing
  item ends the loop with its error.
\<close>

fun collect_r :: "('e, 'a) result list \<Rightarrow> ('e, 'a list) result" where
  "collect_r [] = Inr []"
| "collect_r (Inl e # xs) = Inl e"
| "collect_r (Inr a # xs) = map_ok (Cons a) (collect_r xs)"

lemma collect_r_map_Inr [simp]: "collect_r (map Inr xs) = Inr xs"
  by (induction xs) auto

section \<open>Saturating and checked arithmetic\<close>

definition usize_MAX :: nat where
  "usize_MAX = 2 ^ 64 - 1"

definition u64_MAX :: u64 where
  "u64_MAX = - 1"

definition usize_saturating_add :: "nat \<Rightarrow> nat \<Rightarrow> nat" where
  "usize_saturating_add a b = min usize_MAX (a + b)"

definition u64_checked_add :: "u64 \<Rightarrow> u64 \<Rightarrow> u64 option" where
  "u64_checked_add a b = (if unat a + unat b < 2 ^ 64 then Some (a + b) else None)"

definition u64_saturating_sub :: "u64 \<Rightarrow> u64 \<Rightarrow> u64" where
  "u64_saturating_sub a b = (if a < b then 0 else a - b)"

lemma unat_less_u8: "unat (x::u8) < 256"
  using unsigned_less [of x, where ?'a = nat] by simp

lemma unat_less_u32: "unat (x::u32) < 2 ^ 32"
  using unsigned_less [of x, where ?'a = nat] by simp

lemma unat_less_u64: "unat (x::u64) < 2 ^ 64"
  using unsigned_less [of x, where ?'a = nat] by simp

lemma unat_of_nat_small: "n < 2 ^ LENGTH('a) \<Longrightarrow> unat (word_of_nat n :: 'a::len word) = n"
  by (simp add: unsigned_of_nat take_bit_nat_eq_self)

lemma unat_u64_MAX: "unat u64_MAX = 2 ^ 64 - 1"
  by (simp add: u64_MAX_def unsigned_minus_1_eq_mask mask_eq_exp_minus_1)

lemma u64_le_MAX [simp]: "(x::u64) \<le> u64_MAX"
  by (simp add: u64_MAX_def)

lemma u64_pos_of_less: "(a::u64) < b \<Longrightarrow> 0 < b"
  by (rule order.strict_trans1 [OF word_zero_le])

lemma u64_checked_add_one:
  "u64_checked_add x 1 = (if x = u64_MAX then None else Some (x + 1))"
proof (cases "x = u64_MAX")
  case True
  then show ?thesis
    by (simp add: u64_checked_add_def unat_u64_MAX)
next
  case False
  then have "unat x \<noteq> unat u64_MAX"
    by (simp add: word_unat_eq_iff)
  moreover have "unat x < 2 ^ 64"
    by (rule unat_less_u64)
  ultimately show ?thesis
    using False by (simp add: u64_checked_add_def unat_u64_MAX)
qed

lemma unat_plus_one_u64:
  assumes "x \<noteq> u64_MAX"
  shows "unat (x + 1) = unat (x::u64) + 1"
proof -
  have "unat x \<noteq> unat u64_MAX"
    using assms by (simp add: word_unat_eq_iff)
  moreover have "unat x < 2 ^ 64"
    by (rule unat_less_u64)
  ultimately show ?thesis
    by (simp add: unat_u64_MAX unat_word_ariths)
qed

section \<open>Little-endian encodings\<close>

text \<open>
  \<^verbatim>\<open>from_le_bytes\<close> and \<^verbatim>\<open>to_le_bytes\<close>, through the natural number the bytes spell.
\<close>

fun le_nat :: "bytes \<Rightarrow> nat" where
  "le_nat [] = 0"
| "le_nat (b # bs) = unat b + 256 * le_nat bs"

fun nat_le :: "nat \<Rightarrow> nat \<Rightarrow> bytes" where
  "nat_le 0 x = []"
| "nat_le (Suc n) x = word_of_nat (x mod 256) # nat_le n (x div 256)"

definition u64_from_le :: "bytes \<Rightarrow> u64" where
  "u64_from_le bs = word_of_nat (le_nat bs)"

definition u64_to_le :: "u64 \<Rightarrow> bytes" where
  "u64_to_le w = nat_le 8 (unat w)"

definition u32_from_le :: "bytes \<Rightarrow> u32" where
  "u32_from_le bs = word_of_nat (le_nat bs)"

definition u32_to_le :: "u32 \<Rightarrow> bytes" where
  "u32_to_le w = nat_le 4 (unat w)"

text \<open>Evaluation at a numeral width.\<close>

lemma nat_le_eval: "nat_le (numeral k) x = word_of_nat (x mod 256) # nat_le (pred_numeral k) (x div 256)"
  by (simp only: numeral_eq_Suc [of k] nat_le.simps)

lemma length_nat_le [simp]: "length (nat_le n x) = n"
  by (induction n arbitrary: x) auto

lemma length_u64_to_le [simp, le_simps]: "length (u64_to_le w) = 8"
  by (simp add: u64_to_le_def)

lemma length_u32_to_le [simp, le_simps]: "length (u32_to_le w) = 4"
  by (simp add: u32_to_le_def)

lemma le_nat_bound: "le_nat bs < 256 ^ length bs"
proof (induction bs)
  case (Cons b bs)
  have "unat b < 256"
    by (rule unat_less_u8)
  with Cons show ?case
    by simp
qed simp

lemma unat_u8_of_nat [simp]: "x < 256 \<Longrightarrow> unat (word_of_nat x :: u8) = x"
  by (simp add: unat_of_nat_small)

lemma le_nat_nat_le: "x < 256 ^ n \<Longrightarrow> le_nat (nat_le n x) = x"
proof (induction n arbitrary: x)
  case (Suc n)
  then have "x div 256 < 256 ^ n"
    by (simp add: less_mult_imp_div_less mult.commute)
  then show ?case
    using Suc.IH by simp
qed simp

lemma nat_le_inject: "a < 256 ^ n \<Longrightarrow> b < 256 ^ n \<Longrightarrow> nat_le n a = nat_le n b \<longleftrightarrow> a = b"
  by (metis le_nat_nat_le)

lemma nat_le_le_nat: "nat_le (length bs) (le_nat bs) = bs"
proof (induction bs)
  case (Cons b bs)
  have "unat b < 256"
    by (rule unat_less_u8)
  then have "(unat b + 256 * le_nat bs) mod 256 = unat b"
    "(unat b + 256 * le_nat bs) div 256 = le_nat bs"
    by simp_all
  with Cons show ?case
    by simp
qed simp

lemma le_nat_inject: "length a = length b \<Longrightarrow> le_nat a = le_nat b \<longleftrightarrow> a = b"
  by (metis nat_le_le_nat)

lemma unat_u64_from_le:
  assumes "length bs = 8"
  shows "unat (u64_from_le bs) = le_nat bs"
  using le_nat_bound [of bs] assms by (simp add: u64_from_le_def unat_of_nat_small)

lemma unat_u32_from_le:
  assumes "length bs = 4"
  shows "unat (u32_from_le bs) = le_nat bs"
  using le_nat_bound [of bs] assms by (simp add: u32_from_le_def unat_of_nat_small)

lemma u64_le_roundtrip [simp, le_simps]: "u64_from_le (u64_to_le w) = w"
  using unat_less_u64 [of w] by (simp add: u64_from_le_def u64_to_le_def le_nat_nat_le)

lemma u64_from_le_roundtrip [le_simps]: "length bs = 8 \<Longrightarrow> u64_to_le (u64_from_le bs) = bs"
  using nat_le_le_nat [of bs] by (simp add: u64_to_le_def unat_u64_from_le)

lemma u32_le_roundtrip [simp, le_simps]: "u32_from_le (u32_to_le w) = w"
  using unat_less_u32 [of w] by (simp add: u32_from_le_def u32_to_le_def le_nat_nat_le)

lemma u64_from_le_inject:
  "length a = 8 \<Longrightarrow> length b = 8 \<Longrightarrow> u64_from_le a = u64_from_le b \<longleftrightarrow> a = b"
  by (metis u64_from_le_roundtrip)

lemma u64_to_le_inject [simp]: "u64_to_le v = u64_to_le w \<longleftrightarrow> v = w"
  by (metis u64_le_roundtrip)

section \<open>Strings as bytes\<close>

text \<open>\<^verbatim>\<open>str::as_bytes\<close>: a Rust string is the list of its UTF-8 bytes, one \<^typ>\<open>char\<close> each.\<close>

definition as_bytes :: "string \<Rightarrow> bytes" where
  "as_bytes s = map (\<lambda>c. of_char c) s"

definition string_of_bytes :: "bytes \<Rightarrow> string" where
  "string_of_bytes bs = map (\<lambda>b. char_of (unat b)) bs"

lemma length_as_bytes [simp]: "length (as_bytes s) = length s"
  by (simp add: as_bytes_def)

lemma unat_of_char: "unat (of_char c :: u8) = of_char c"
proof -
  have "(of_char c :: u8) = word_of_nat (of_char c)"
    by (simp add: of_nat_of_char)
  moreover have "(of_char c :: nat) < 256"
    by (metis of_char_mod_256 mod_less_divisor zero_less_numeral)
  ultimately show ?thesis
    by simp
qed

lemma of_char_u8_inject [simp]: "(of_char c :: u8) = of_char d \<longleftrightarrow> c = d"
proof
  assume "(of_char c :: u8) = of_char d"
  then have "unat (of_char c :: u8) = unat (of_char d :: u8)"
    by simp
  then have "(of_char c :: nat) = of_char d"
    by (simp add: unat_of_char)
  then show "c = d"
    by simp
qed simp

lemma as_bytes_inject [simp]: "as_bytes s = as_bytes t \<longleftrightarrow> s = t"
  unfolding as_bytes_def by (subst inj_map_eq_map) (auto intro: injI)

lemma as_bytes_string_of_bytes [simp]: "as_bytes (string_of_bytes bs) = bs"
proof -
  have "(of_char (char_of (unat b) :: char) :: u8) = b" for b
  proof -
    have "unat (of_char (char_of (unat b) :: char) :: u8) = of_char (char_of (unat b) :: char)"
      by (rule unat_of_char)
    also have "\<dots> = unat b"
      using unat_less_u8 [of b] by simp
    finally show ?thesis
      by (simp add: word_unat_eq_iff)
  qed
  then show ?thesis
    by (simp add: as_bytes_def string_of_bytes_def comp_def)
qed

lemma as_bytes_append [simp]: "as_bytes (s @ t) = as_bytes s @ as_bytes t"
  by (simp add: as_bytes_def)

section \<open>Lists\<close>

text \<open>\<^verbatim>\<open>slice::starts_with\<close>.\<close>

definition starts_with :: "'a list \<Rightarrow> 'a list \<Rightarrow> bool" where
  "starts_with xs p \<longleftrightarrow> take (length p) xs = p"

lemma starts_with_append [simp]: "starts_with (p @ s) p"
  by (simp add: starts_with_def)

lemma starts_withE: "starts_with xs p \<Longrightarrow> \<exists>s. xs = p @ s"
  unfolding starts_with_def by (metis append_take_drop_id)

lemma sorted_wrt_filter_split:
  assumes "sorted_wrt R xs" "\<And>x y. R x y \<Longrightarrow> P y \<Longrightarrow> P x"
  shows "xs = filter P xs @ filter (\<lambda>x. \<not> P x) xs"
  using assms(1)
proof (induction xs)
  case (Cons x xs)
  show ?case
  proof (cases "P x")
    case True
    with Cons show ?thesis by simp
  next
    case False
    with Cons.prems assms(2) have "\<forall>y\<in>set xs. \<not> P y"
      by auto
    with False show ?thesis
      by (simp add: filter_empty_conv)
  qed
qed simp

lemma sorted_remdups_adj_strict: "sorted xs \<Longrightarrow> sorted_wrt (<) (remdups_adj (xs :: 'a::linorder list))"
  by (induction xs rule: remdups_adj.induct) (auto simp: order_le_less)

lemma takeWhile_eq_filter_sorted:
  assumes "sorted_wrt R xs" "\<And>x y. R x y \<Longrightarrow> P y \<Longrightarrow> P x"
  shows "takeWhile P xs = filter P xs"
  using assms(1)
proof (induction xs)
  case (Cons x xs)
  then show ?case
    using assms(2) by (auto simp: empty_filter_conv)
qed simp

lemma sorted_wrt_unique:
  assumes "sorted_wrt R xs" "sorted_wrt R ys" "set xs = set ys"
    and "\<And>x. \<not> R x x" "\<And>x y. R x y \<Longrightarrow> \<not> R y x"
  shows "xs = ys"
  using assms(1-3)
proof (induction xs arbitrary: ys)
  case (Cons x xs)
  then obtain y ys' where ys: "ys = y # ys'"
    by (cases ys) auto
  have "x = y"
  proof (rule ccontr)
    assume "x \<noteq> y"
    with Cons.prems ys have "x \<in> set ys'" "y \<in> set xs"
      by auto
    with Cons.prems ys have "R x y" "R y x"
      by auto
    with assms(5) show False
      by blast
  qed
  moreover have "x \<notin> set xs" "y \<notin> set ys'"
    using Cons.prems ys assms(4) by auto
  ultimately have "set xs = set ys'"
    using Cons.prems(3) ys by auto
  with Cons ys \<open>x = y\<close> show ?case
    by simp
qed simp

end
