(* ===== verification/Types.thy ===== *)
theory Types
  imports Prelude
begin

text \<open>\<^verbatim>\<open>lmdb/types.rs\<close>: the records the reader works with.\<close>

type_synonym LevId = u64

record MetaRecord =
  db_version :: u32
  endianness :: u32
  negentropy_mod_counter :: u64

record NostrEvent =
  ev_id :: string
  ev_pubkey :: string
  ev_created_at :: u64
  ev_kind :: u64
  ev_tags :: "string list list"
  ev_content :: string
  ev_sig :: string

record DecodedEvent =
  dec_event :: NostrEvent
  dec_raw_json :: bytes

end
