(* ===== verification/Comparators.thy ===== *)
theory Comparators
  imports Prelude
begin

text \<open>
  The golpe key comparators of \<^verbatim>\<open>reference/golpe_comparators.cpp\<close> and the \<^verbatim>\<open>heed::Comparator\<close>
  implementations of \<^verbatim>\<open>lmdb/comparators.rs\<close> that call them.  A C++ comparator returns the
  sign of the comparison, or aborts the process on a malformed key (\<^const>\<open>None\<close>).  The theory
  shows that on well-formed keys each comparator is a strict total order, the lexicographic
  order of the key's fields (string prefix as bytes, then the 64-bit integers as numbers).
\<close>

section \<open>The C++ comparators\<close>

datatype ordering = Less | Equal | Greater

text \<open>\<^verbatim>\<open>memcmp\<close> on \<open>n\<close> bytes, with the sign as its value.\<close>

fun memcmp :: "nat \<Rightarrow> bytes \<Rightarrow> bytes \<Rightarrow> int" where
  "memcmp (Suc n) (a # as) (b # bs) =
     (if a < b then - 1 else if b < a then 1 else memcmp n as bs)"
| "memcmp _ _ _ = 0"

definition mdb_cmp_memn_inline :: "bytes \<Rightarrow> bytes \<Rightarrow> int" where
  "mdb_cmp_memn_inline a b =
     (let len_a = length a; len_b = length b;
          len = (if len_a < len_b then len_a else len_b);
          diff = memcmp len a b
      in if diff \<noteq> 0 then diff
         else if len_a < len_b then - 1
         else if len_a > len_b then 1 else 0)"

text \<open>\<^verbatim>\<open>memcpy(&x, p + off, 8)\<close> into a \<^verbatim>\<open>uint64_t\<close> on a little-endian machine.\<close>

definition memcpy_u64 :: "bytes \<Rightarrow> nat \<Rightarrow> u64" where
  "memcpy_u64 p off = u64_from_le (take 8 (drop off p))"

definition lmdb_comparator_StringUint64 :: "bytes \<Rightarrow> bytes \<Rightarrow> int option" where
  "lmdb_comparator_StringUint64 a b =
     (if length a < 8 \<or> length b < 8 then None
      else let a2 = take (length a - 8) a; b2 = take (length b - 8) b;
               stringCompare = mdb_cmp_memn_inline a2 b2
           in if stringCompare \<noteq> 0 then Some stringCompare
              else let ai = memcpy_u64 a (length a - 8); bi = memcpy_u64 b (length b - 8)
                   in if ai < bi then Some (- 1) else if ai > bi then Some 1 else Some 0)"

definition lmdb_comparator_Uint64Uint64 :: "bytes \<Rightarrow> bytes \<Rightarrow> int option" where
  "lmdb_comparator_Uint64Uint64 a b =
     (if length a \<noteq> 16 \<or> length b \<noteq> 16 then None
      else let ai = memcpy_u64 a 0; bi = memcpy_u64 b 0
           in if ai < bi then Some (- 1) else if ai > bi then Some 1
              else let ai = memcpy_u64 a 8; bi = memcpy_u64 b 8
                   in if ai < bi then Some (- 1) else if ai > bi then Some 1 else Some 0)"

definition lmdb_comparator_StringUint64Uint64 :: "bytes \<Rightarrow> bytes \<Rightarrow> int option" where
  "lmdb_comparator_StringUint64Uint64 a b =
     (if length a < 16 \<or> length b < 16 then None
      else let a2 = take (length a - 16) a; b2 = take (length b - 16) b;
               stringCompare = mdb_cmp_memn_inline a2 b2
           in if stringCompare \<noteq> 0 then Some stringCompare
              else let ai = memcpy_u64 a (length a - 16); bi = memcpy_u64 b (length b - 16)
                   in if ai < bi then Some (- 1) else if ai > bi then Some 1
                      else let ai = memcpy_u64 a (length a - 8); bi = memcpy_u64 b (length b - 8)
                           in if ai < bi then Some (- 1) else if ai > bi then Some 1 else Some 0)"

section \<open>The heed comparators\<close>

text \<open>\<^verbatim>\<open>r.cmp(&0)\<close>.\<close>

definition cmp_zero :: "int \<Rightarrow> ordering" where
  "cmp_zero r = (if r < 0 then Less else if r = 0 then Equal else Greater)"

definition StringUint64Cmp_compare :: "bytes \<Rightarrow> bytes \<Rightarrow> ordering option" where
  "StringUint64Cmp_compare a b = map_option cmp_zero (lmdb_comparator_StringUint64 a b)"

definition Uint64Uint64Cmp_compare :: "bytes \<Rightarrow> bytes \<Rightarrow> ordering option" where
  "Uint64Uint64Cmp_compare a b = map_option cmp_zero (lmdb_comparator_Uint64Uint64 a b)"

definition StringUint64Uint64Cmp_compare :: "bytes \<Rightarrow> bytes \<Rightarrow> ordering option" where
  "StringUint64Uint64Cmp_compare a b = map_option cmp_zero (lmdb_comparator_StringUint64Uint64 a b)"

text \<open>
  The comparator a sub-database is opened with: the type parameter of
  \<^verbatim>\<open>heed::Database<Bytes, Bytes, C>\<close>.
\<close>

datatype comparator =
  StringUint64Cmp | Uint64Uint64Cmp | StringUint64Uint64Cmp | IntegerComparator | DefaultComparator

section \<open>The order a comparator promises\<close>

text \<open>
  The fields of a composite key: everything before the trailing \<^verbatim>\<open>created_at\<close> (a byte string and
  a number, either possibly absent), and \<^verbatim>\<open>created_at\<close>.
\<close>

definition key_ts :: "bytes \<Rightarrow> nat" where
  "key_ts k = le_nat (drop (length k - 8) k)"

fun key_group :: "comparator \<Rightarrow> bytes \<Rightarrow> bytes \<times> nat" where
  "key_group StringUint64Cmp k = (take (length k - 8) k, 0)"
| "key_group Uint64Uint64Cmp k = ([], le_nat (take 8 k))"
| "key_group StringUint64Uint64Cmp k =
     (take (length k - 16) k, le_nat (take 8 (drop (length k - 16) k)))"
| "key_group IntegerComparator k = ([], 0)"
| "key_group DefaultComparator k = (k, 0)"

fun valid_key :: "comparator \<Rightarrow> bytes \<Rightarrow> bool" where
  "valid_key StringUint64Cmp k \<longleftrightarrow> 8 \<le> length k"
| "valid_key Uint64Uint64Cmp k \<longleftrightarrow> length k = 16"
| "valid_key StringUint64Uint64Cmp k \<longleftrightarrow> 16 \<le> length k"
| "valid_key IntegerComparator k \<longleftrightarrow> length k = 8"
| "valid_key DefaultComparator k \<longleftrightarrow> True"

definition key_rank :: "comparator \<Rightarrow> bytes \<Rightarrow> (bytes \<times> nat) \<times> nat" where
  "key_rank c k = (key_group c k, key_ts k)"

text \<open>The interface: a comparator is the strict total order of a rank on its well-formed keys.\<close>

locale key_comparator =
  fixes cmp :: "bytes \<Rightarrow> bytes \<Rightarrow> ordering option"
    and valid :: "bytes \<Rightarrow> bool"
    and rank :: "bytes \<Rightarrow> (bytes \<times> nat) \<times> nat"
  assumes compare_rank: "valid a \<Longrightarrow> valid b \<Longrightarrow>
      cmp a b = Some (if rank a < rank b then Less else if rank a = rank b then Equal else Greater)"
    and compare_abort: "\<not> (valid a \<and> valid b) \<Longrightarrow> cmp a b = None"
    and rank_inject: "valid a \<Longrightarrow> valid b \<Longrightarrow> rank a = rank b \<Longrightarrow> a = b"
begin

lemma defined_iff: "cmp a b \<noteq> None \<longleftrightarrow> valid a \<and> valid b"
  using compare_rank [of a b] compare_abort [of a b] by (cases "valid a \<and> valid b") auto

lemma equal_iff: "cmp a b = Some Equal \<longleftrightarrow> valid a \<and> valid b \<and> a = b"
  using compare_rank [of a b] compare_abort [of a b] rank_inject [of a b]
  by (cases "valid a \<and> valid b") (auto split: if_splits)

lemma swap: "cmp a b = Some Less \<longleftrightarrow> cmp b a = Some Greater"
  using compare_rank [of a b] compare_abort [of a b] compare_rank [of b a] compare_abort [of b a]
  by (cases "valid a \<and> valid b") (auto split: if_splits)

lemma less_trans: "cmp a b = Some Less \<Longrightarrow> cmp b c = Some Less \<Longrightarrow> cmp a c = Some Less"
  using defined_iff [of a b] defined_iff [of b c] compare_rank [of a b] compare_rank [of b c]
    compare_rank [of a c]
  by (auto split: if_splits)

end

section \<open>The comparators implement that order\<close>

lemma memcmp_lex:
  "memcmp (min (length a) (length b)) a b =
     (if take (min (length a) (length b)) a < take (min (length a) (length b)) b then - 1
      else if take (min (length a) (length b)) b < take (min (length a) (length b)) a then 1 else 0)"
proof (induction a arbitrary: b)
  case (Cons x a)
  then show ?case
    by (cases b) auto
qed simp

lemma mdb_cmp_memn_inline_eq:
  "mdb_cmp_memn_inline a b = (if a < b then - 1 else if a = b then 0 else 1)"
proof (induction a arbitrary: b)
  case Nil
  then show ?case
    by (cases b) (simp_all add: mdb_cmp_memn_inline_def)
next
  case (Cons x a)
  show ?case
  proof (cases b)
    case (Cons y b')
    have "mdb_cmp_memn_inline (x # a) (y # b') =
      (if x < y then - 1 else if y < x then 1 else mdb_cmp_memn_inline a b')"
      by (simp add: mdb_cmp_memn_inline_def Let_def)
    then show ?thesis
      using Cons Cons.IH [of b'] by auto
  qed (simp add: mdb_cmp_memn_inline_def)
qed

lemma memcpy_u64_less:
  "off + 8 \<le> length a \<Longrightarrow> off' + 8 \<le> length b \<Longrightarrow>
   memcpy_u64 a off < memcpy_u64 b off' \<longleftrightarrow> le_nat (take 8 (drop off a)) < le_nat (take 8 (drop off' b))"
  by (simp add: memcpy_u64_def word_less_nat_alt unat_u64_from_le)

lemma key_split_at:
  assumes "take (length a - n) a = take (length b - n) b"
    and "drop (length a - n) a = drop (length b - n) b"
  shows "a = b"
  using assms by (metis append_take_drop_id)

lemma key_ts_inject:
  assumes "8 \<le> length a" "8 \<le> length b" "key_ts a = key_ts b"
  shows "drop (length a - 8) a = drop (length b - 8) b"
  using assms by (simp add: key_ts_def le_nat_inject)

lemma key_rank_inject:
  assumes "valid_key c a" "valid_key c b" "key_rank c a = key_rank c b"
  shows "a = b"
proof (cases c)
  case StringUint64Cmp
  then have "take (length a - 8) a = take (length b - 8) b"
    and "drop (length a - 8) a = drop (length b - 8) b"
    using assms key_ts_inject [of a b] by (simp_all add: key_rank_def)
  then show ?thesis
    by (rule key_split_at)
next
  case Uint64Uint64Cmp
  then have len: "length a = 16" "length b = 16"
    and nats: "le_nat (take 8 a) = le_nat (take 8 b)" "key_ts a = key_ts b"
    using assms by (simp_all add: key_rank_def)
  from len nats have "take 8 a = take 8 b" "drop 8 a = drop 8 b"
    using key_ts_inject [of a b] by (simp_all add: le_nat_inject)
  then show ?thesis
    by (metis append_take_drop_id)
next
  case StringUint64Uint64Cmp
  then have len: "16 \<le> length a" "16 \<le> length b"
    and pre: "take (length a - 16) a = take (length b - 16) b"
    and nat: "le_nat (take 8 (drop (length a - 16) a)) = le_nat (take 8 (drop (length b - 16) b))"
    and ts: "key_ts a = key_ts b"
    using assms by (simp_all add: key_rank_def)
  from nat len have mid: "take 8 (drop (length a - 16) a) = take 8 (drop (length b - 16) b)"
    by (simp add: le_nat_inject)
  have "length a - 8 = 8 + (length a - 16)" "length b - 8 = 8 + (length b - 16)"
    using len by simp_all
  then have "drop 8 (drop (length a - 16) a) = drop 8 (drop (length b - 16) b)"
    using key_ts_inject [OF _ _ ts] len by simp
  with mid have "drop (length a - 16) a = drop (length b - 16) b"
    by (metis append_take_drop_id)
  with pre show ?thesis
    by (rule key_split_at)
next
  case IntegerComparator
  then show ?thesis
    using assms key_ts_inject [of a b] by (simp add: key_rank_def)
qed (use assms in \<open>simp add: key_rank_def\<close>)

lemmas compare_defs =
  StringUint64Cmp_compare_def Uint64Uint64Cmp_compare_def StringUint64Uint64Cmp_compare_def
  lmdb_comparator_StringUint64_def lmdb_comparator_Uint64Uint64_def
  lmdb_comparator_StringUint64Uint64_def

interpretation su: key_comparator
  StringUint64Cmp_compare "valid_key StringUint64Cmp" "key_rank StringUint64Cmp"
proof unfold_locales
  fix a b
  assume "valid_key StringUint64Cmp a" "valid_key StringUint64Cmp b"
  then show "StringUint64Cmp_compare a b = Some (if key_rank StringUint64Cmp a < key_rank StringUint64Cmp b
      then Less else if key_rank StringUint64Cmp a = key_rank StringUint64Cmp b then Equal else Greater)"
    by (auto simp: compare_defs Let_def mdb_cmp_memn_inline_eq memcpy_u64_less key_rank_def key_ts_def
        cmp_zero_def)
next
  fix a b
  assume "\<not> (valid_key StringUint64Cmp a \<and> valid_key StringUint64Cmp b)"
  then show "StringUint64Cmp_compare a b = None"
    by (auto simp: compare_defs)
qed (rule key_rank_inject)

interpretation uu: key_comparator
  Uint64Uint64Cmp_compare "valid_key Uint64Uint64Cmp" "key_rank Uint64Uint64Cmp"
proof unfold_locales
  fix a b
  assume "valid_key Uint64Uint64Cmp a" "valid_key Uint64Uint64Cmp b"
  then show "Uint64Uint64Cmp_compare a b = Some (if key_rank Uint64Uint64Cmp a < key_rank Uint64Uint64Cmp b
      then Less else if key_rank Uint64Uint64Cmp a = key_rank Uint64Uint64Cmp b then Equal else Greater)"
    by (auto simp: compare_defs Let_def memcpy_u64_less key_rank_def key_ts_def cmp_zero_def)
next
  fix a b
  assume "\<not> (valid_key Uint64Uint64Cmp a \<and> valid_key Uint64Uint64Cmp b)"
  then show "Uint64Uint64Cmp_compare a b = None"
    by (auto simp: compare_defs)
qed (rule key_rank_inject)

interpretation suu: key_comparator
  StringUint64Uint64Cmp_compare "valid_key StringUint64Uint64Cmp" "key_rank StringUint64Uint64Cmp"
proof unfold_locales
  fix a b
  assume "valid_key StringUint64Uint64Cmp a" "valid_key StringUint64Uint64Cmp b"
  then show "StringUint64Uint64Cmp_compare a b =
      Some (if key_rank StringUint64Uint64Cmp a < key_rank StringUint64Uint64Cmp b
        then Less else if key_rank StringUint64Uint64Cmp a = key_rank StringUint64Uint64Cmp b
        then Equal else Greater)"
    by (auto simp: compare_defs Let_def mdb_cmp_memn_inline_eq memcpy_u64_less key_rank_def key_ts_def
        cmp_zero_def)
next
  fix a b
  assume "\<not> (valid_key StringUint64Uint64Cmp a \<and> valid_key StringUint64Uint64Cmp b)"
  then show "StringUint64Uint64Cmp_compare a b = None"
    by (auto simp: compare_defs)
qed (rule key_rank_inject)

end
