(* ===== verification/Heed.thy ===== *)
theory Heed
  imports Comparators
begin

text \<open>
  The interface of the \<^verbatim>\<open>heed\<close> crate (LMDB), which the program calls and does not contain.
  An environment and an opened sub-database are records of the calls the program makes on
  them; every definition that reads LMDB takes the environment as a parameter.  The locale
  \<open>lmdb_index\<close> states the documented behaviour of a DUPSORT sub-database, and the in-memory
  database \<open>mem_db\<close>, filled from any list of records, satisfies it.

  All read transactions that one operation opens see the same snapshot: concurrent writes of
  strfry between two short transactions of the same query are outside the model.
\<close>

section \<open>Environment and sub-databases\<close>

text \<open>A \<^verbatim>\<open>heed::Error\<close>: the program only formats it.\<close>

datatype heed_error = HeedError string

text \<open>\<^verbatim>\<open>std::ops::Bound<&[u8]>\<close>.\<close>

datatype key_bound = Included bytes | Excluded bytes | Unbounded

text \<open>
  The iteration mode of a cursor: what heed does by default, and
  \<^verbatim>\<open>.move_through_duplicate_values()\<close>.
\<close>

datatype iter_mode = DefaultMode | ThroughDuplicates

type_synonym entry = "bytes \<times> bytes"
type_synonym items = "(heed_error, entry) result list"

record heed_db =
  db_iter :: "(heed_error, items) result"
  db_range :: "iter_mode \<Rightarrow> key_bound \<Rightarrow> key_bound \<Rightarrow> (heed_error, items) result"
  db_rev_range :: "iter_mode \<Rightarrow> key_bound \<Rightarrow> key_bound \<Rightarrow> (heed_error, items) result"
  db_get :: "bytes \<Rightarrow> (heed_error, bytes option) result"
  db_last :: "(heed_error, entry option) result"
  db_len :: "(heed_error, u64) result"

record heed_env =
  env_read_txn :: "(heed_error, unit) result"
  env_open :: "comparator \<Rightarrow> string \<Rightarrow> (heed_error, heed_db option) result"

section \<open>The documented behaviour of an index\<close>

text \<open>
  The records of a DUPSORT + INTEGERDUP index in cursor order: keys by the comparator, the
  duplicates of a key by their 8-byte integer value.
\<close>

definition entry_rank :: "comparator \<Rightarrow> entry \<Rightarrow> ((bytes \<times> nat) \<times> nat) \<times> nat" where
  "entry_rank c e = (key_rank c (fst e), le_nat (snd e))"

definition valid_entry :: "comparator \<Rightarrow> entry \<Rightarrow> bool" where
  "valid_entry c e \<longleftrightarrow> valid_key c (fst e) \<and> length (snd e) = 8"

text \<open>
  Range cursors with \<^verbatim>\<open>.move_through_duplicate_values()\<close>.  The bound of a reverse walk behaves
  as \<^verbatim>\<open>lmdb/scan.rs\<close> documents it: an excluded key starts below it, an included key is
  positioned on its smallest duplicate and then steps to the previous key.  A default-mode cursor
  starts on the same first record, and a plain iteration follows the key order; whether the default
  mode visits the further duplicates of a key is left open.
\<close>

locale lmdb_index =
  fixes c :: comparator and db :: heed_db and es :: "entry list"
  assumes entries_valid: "e \<in> set es \<Longrightarrow> valid_entry c e"
    and entries_sorted: "sorted_wrt (\<lambda>e f. entry_rank c e < entry_rank c f) es"
    and range_included: "valid_key c k \<Longrightarrow> db_range db ThroughDuplicates (Included k) Unbounded =
      Inr (map Inr (filter (\<lambda>e. key_rank c k \<le> key_rank c (fst e)) es))"
    and range_excluded: "valid_key c k \<Longrightarrow> db_range db ThroughDuplicates (Excluded k) Unbounded =
      Inr (map Inr (filter (\<lambda>e. key_rank c k < key_rank c (fst e)) es))"
    and rev_range_excluded: "valid_key c k \<Longrightarrow> db_rev_range db ThroughDuplicates Unbounded (Excluded k) =
      Inr (map Inr (rev (filter (\<lambda>e. key_rank c (fst e) < key_rank c k) es)))"
    and rev_range_included: "valid_key c k \<Longrightarrow> db_rev_range db ThroughDuplicates Unbounded (Included k) =
      Inr (map Inr (take 1 (filter (\<lambda>e. fst e = k) es) @
        rev (filter (\<lambda>e. key_rank c (fst e) < key_rank c k) es)))"
    and seek_first: "valid_key c k \<Longrightarrow> \<exists>xs. db_range db DefaultMode (Included k) Unbounded = Inr xs \<and>
      take 1 xs = map Inr (take 1 (filter (\<lambda>e. key_rank c k \<le> key_rank c (fst e)) es))"
    and iter_sorted: "\<exists>xs. db_iter db = Inr (map Inr xs) \<and> set xs \<subseteq> set es \<and>
      sorted_wrt (\<lambda>e f. key_rank c (fst e) \<le> key_rank c (fst f)) xs"
begin

lemma keys_sorted: "sorted_wrt (\<lambda>e f. key_rank c (fst e) \<le> key_rank c (fst f)) es"
  using entries_sorted by (rule sorted_wrt_mono_rel [rotated]) (auto simp: entry_rank_def)

lemma key_valid: "e \<in> set es \<Longrightarrow> valid_key c (fst e)"
  using entries_valid by (simp add: valid_entry_def)

lemma value_length: "e \<in> set es \<Longrightarrow> length (snd e) = 8"
  using entries_valid by (simp add: valid_entry_def)

lemma rank_eq_iff:
  "e \<in> set es \<Longrightarrow> valid_key c k \<Longrightarrow> key_rank c (fst e) = key_rank c k \<longleftrightarrow> fst e = k"
  using key_rank_inject [of c "fst e" k] key_valid by auto

lemma distinct_entries: "distinct es"
  using entries_sorted by (induction es) auto

end

section \<open>A reference database\<close>

text \<open>The database that holds the well-formed records of a list: insertion keeps them sorted.\<close>

definition mem_entries :: "comparator \<Rightarrow> entry list \<Rightarrow> entry list" where
  "mem_entries c kvs = sort_key (entry_rank c) (remdups (filter (valid_entry c) kvs))"

fun above :: "comparator \<Rightarrow> key_bound \<Rightarrow> entry \<Rightarrow> bool" where
  "above c (Included k) e \<longleftrightarrow> key_rank c k \<le> key_rank c (fst e)"
| "above c (Excluded k) e \<longleftrightarrow> key_rank c k < key_rank c (fst e)"
| "above c Unbounded e \<longleftrightarrow> True"

fun below :: "comparator \<Rightarrow> key_bound \<Rightarrow> entry \<Rightarrow> bool" where
  "below c (Included k) e \<longleftrightarrow> key_rank c (fst e) \<le> key_rank c k"
| "below c (Excluded k) e \<longleftrightarrow> key_rank c (fst e) < key_rank c k"
| "below c Unbounded e \<longleftrightarrow> True"

text \<open>Where a reverse walk starts: the duplicates of an included bound beyond the first are skipped.\<close>

fun rev_start :: "comparator \<Rightarrow> key_bound \<Rightarrow> entry list \<Rightarrow> entry list" where
  "rev_start c (Included k) es =
     take 1 (filter (\<lambda>e. fst e = k) es) @ rev (filter (below c (Excluded k)) es)"
| "rev_start c b es = rev (filter (below c b) es)"

definition mem_db :: "comparator \<Rightarrow> entry list \<Rightarrow> heed_db" where
  "mem_db c es = \<lparr>
     db_iter = Inr (map Inr es),
     db_range = (\<lambda>_ lo hi. Inr (map Inr (filter (\<lambda>e. above c lo e \<and> below c hi e) es))),
     db_rev_range = (\<lambda>_ lo hi. Inr (map Inr (filter (above c lo) (rev_start c hi es)))),
     db_get = (\<lambda>k. Inr (map_option snd (find (\<lambda>e. fst e = k) es))),
     db_last = Inr (if es = [] then None else Some (last es)),
     db_len = Inr (word_of_nat (length es)) \<rparr>"

lemma entry_rank_inject:
  "valid_entry c e \<Longrightarrow> valid_entry c f \<Longrightarrow> entry_rank c e = entry_rank c f \<Longrightarrow> e = f"
  using key_rank_inject [of c "fst e" "fst f"]
  by (simp add: entry_rank_def valid_entry_def le_nat_inject prod_eq_iff)

lemma set_mem_entries [simp]: "set (mem_entries c kvs) = {e \<in> set kvs. valid_entry c e}"
  by (auto simp: mem_entries_def)

lemma mem_entries_sorted:
  "sorted_wrt (\<lambda>e f. entry_rank c e < entry_rank c f) (mem_entries c kvs)"
proof -
  let ?es = "mem_entries c kvs"
  have "inj_on (entry_rank c) (set ?es)"
    by (rule inj_onI) (rule entry_rank_inject [of c], simp_all)
  then have "distinct (map (entry_rank c) ?es)"
    by (simp add: distinct_map mem_entries_def)
  moreover have "sorted (map (entry_rank c) ?es)"
    by (simp add: mem_entries_def)
  ultimately have "sorted_wrt (<) (map (entry_rank c) ?es)"
    by (simp add: strict_sorted_iff)
  then show ?thesis
    by (simp add: sorted_wrt_map)
qed

interpretation mem: lmdb_index c "mem_db c (mem_entries c kvs)" "mem_entries c kvs" for c kvs
proof unfold_locales
  have "sorted_wrt (\<lambda>e f. key_rank c (fst e) \<le> key_rank c (fst f)) (mem_entries c kvs)"
    using mem_entries_sorted by (rule sorted_wrt_mono_rel [rotated]) (auto simp: entry_rank_def)
  then show "\<exists>xs. db_iter (mem_db c (mem_entries c kvs)) = Inr (map Inr xs) \<and> set xs \<subseteq> set (mem_entries c kvs) \<and>
      sorted_wrt (\<lambda>e f. key_rank c (fst e) \<le> key_rank c (fst f)) xs"
    by (intro exI [of _ "mem_entries c kvs"]) (simp add: mem_db_def)
qed (auto simp: mem_entries_sorted mem_db_def take_map intro!: filter_cong)

end
