(* ===== verification/Meta.thy ===== *)
theory Meta
  imports Types Heed
begin

text \<open>
  \<^verbatim>\<open>lmdb/meta.rs\<close>: reading and parsing strfry's Meta record, and the two startup gates on it.
  Lengths and offsets are \<^verbatim>\<open>usize\<close> values; their sums wrap at 64 bits as in a release build.  A
  slice whose range is out of bounds or reversed panics (\<^const>\<open>None\<close>); the theory shows exactly
  which buffers make the parser panic and that every other malformed buffer is an error value.
\<close>

section \<open>Constants and errors\<close>

definition EXPECTED_DB_VERSION :: u32 where "EXPECTED_DB_VERSION = 3"
definition STRFRY_LITTLE_ENDIAN_MARKER :: u32 where "STRFRY_LITTLE_ENDIAN_MARKER = 1"
definition META_DB_NAME :: string where "META_DB_NAME = ''rasgueadb_defaultDb__Meta''"

text \<open>The text of a \<^verbatim>\<open>VtableError\<close> names the check that failed.\<close>

datatype vtable_problem =
  RootOffsetExceeds nat nat
| VtableExceeds nat nat
| VtableSizeInvalid nat nat
| TooFewFields nat
| U32FieldExceeds nat nat
| U64FieldExceeds nat nat

datatype meta_error =
  MetaHeed heed_error
| MetaSubDbNotFound string
| RecordNotFound
| ValueTooShort nat nat
| VtableError vtable_problem
| DbVersionMismatch u32 u32
| EndiannessMismatch u32 u32

section \<open>Parsing\<close>

text \<open>\<^verbatim>\<open>usize\<close> addition, and \<^verbatim>\<open>i as usize\<close> of an \<^verbatim>\<open>i32\<close> (sign extension).\<close>

definition usize_add :: "nat \<Rightarrow> nat \<Rightarrow> nat" where
  "usize_add a b = (a + b) mod 2 ^ 64"

definition i32_as_usize :: "u32 \<Rightarrow> nat" where
  "i32_as_usize w = unat (scast w :: u64)"

text \<open>\<^verbatim>\<open>raw[a..b]\<close>.\<close>

definition slice :: "bytes \<Rightarrow> nat \<Rightarrow> nat \<Rightarrow> bytes option" where
  "slice raw a b = (if a \<le> b \<and> b \<le> length raw then Some (take (b - a) (drop a raw)) else None)"

definition u16_from_le :: "bytes \<Rightarrow> u16" where
  "u16_from_le bs = word_of_nat (le_nat bs)"

definition read_u32_at :: "bytes \<Rightarrow> nat \<Rightarrow> nat \<Rightarrow> (meta_error, u32) result option" where
  "read_u32_at raw table_start field_offset =
     (if field_offset = 0 then Some (Inr 0)
      else let abs = usize_add table_start field_offset
           in if usize_add abs 4 > length raw
              then Some (Inl (VtableError (U32FieldExceeds abs (length raw))))
              else map_option (Inr \<circ> u32_from_le) (slice raw abs (usize_add abs 4)))"

definition read_u64_at :: "bytes \<Rightarrow> nat \<Rightarrow> nat \<Rightarrow> (meta_error, u64) result option" where
  "read_u64_at raw table_start field_offset =
     (if field_offset = 0 then Some (Inr 0)
      else let abs = usize_add table_start field_offset
           in if usize_add abs 8 > length raw
              then Some (Inl (VtableError (U64FieldExceeds abs (length raw))))
              else map_option (Inr \<circ> u64_from_le) (slice raw abs (usize_add abs 8)))"

text \<open>The two effects of the parser together: a panic, or an error value.\<close>

definition bind_p :: "('e, 'a) result option \<Rightarrow> ('a \<Rightarrow> ('e, 'b) result option) \<Rightarrow> ('e, 'b) result option" where
  "bind_p m f = (case m of None \<Rightarrow> None | Some (Inl e) \<Rightarrow> Some (Inl e) | Some (Inr a) \<Rightarrow> f a)"

definition parse_fields :: "bytes \<Rightarrow> nat \<Rightarrow> nat \<Rightarrow> (meta_error, MetaRecord) result option" where
  "parse_fields raw root_offset vtable_abs =
     (case (slice raw (usize_add vtable_abs 4) (usize_add vtable_abs 6),
            slice raw (usize_add vtable_abs 6) (usize_add vtable_abs 8),
            slice raw (usize_add vtable_abs 8) (usize_add vtable_abs 10)) of
        (Some f0, Some f1, Some f2) \<Rightarrow>
          bind_p (read_u32_at raw root_offset (unat (u16_from_le f0))) (\<lambda>dbv.
          bind_p (read_u32_at raw root_offset (unat (u16_from_le f1))) (\<lambda>en.
          bind_p (read_u64_at raw root_offset (unat (u16_from_le f2))) (\<lambda>neg.
            Some (Inr \<lparr> db_version = dbv, endianness = en, negentropy_mod_counter = neg \<rparr>))))
      | _ \<Rightarrow> None)"

definition parse_vtable :: "bytes \<Rightarrow> nat \<Rightarrow> nat \<Rightarrow> (meta_error, MetaRecord) result option" where
  "parse_vtable raw root_offset vtable_abs =
     (if usize_add vtable_abs 4 > length raw
      then Some (Inl (VtableError (VtableExceeds vtable_abs (length raw))))
      else case slice raw vtable_abs (usize_add vtable_abs 2) of
        None \<Rightarrow> None
      | Some hdr \<Rightarrow>
          let vtable_size = unat (u16_from_le hdr)
          in if vtable_size < 4 \<or> usize_add vtable_abs vtable_size > length raw
             then Some (Inl (VtableError (VtableSizeInvalid vtable_size vtable_abs)))
             else let num_fields = (vtable_size - 4) div 2
                  in if num_fields < 3 then Some (Inl (VtableError (TooFewFields num_fields)))
                     else parse_fields raw root_offset vtable_abs)"

definition parse_meta_flatbuffer :: "bytes \<Rightarrow> (meta_error, MetaRecord) result option" where
  "parse_meta_flatbuffer raw =
     (if length raw < 14 then Some (Inl (ValueTooShort (length raw) 14))
      else case slice raw 0 4 of
        None \<Rightarrow> None
      | Some r \<Rightarrow>
          let root_offset = unat (u32_from_le r)
          in if usize_add root_offset 4 > length raw
             then Some (Inl (VtableError (RootOffsetExceeds root_offset (length raw))))
             else (case slice raw root_offset (usize_add root_offset 4) of
                 None \<Rightarrow> None
               | Some s \<Rightarrow> parse_vtable raw root_offset (i32_as_usize (u32_from_le s))))"

section \<open>Reading the record and the gates\<close>

definition read_meta :: "heed_env \<Rightarrow> (meta_error, MetaRecord) result option" where
  "read_meta env =
     (case map_err MetaHeed (env_read_txn env) of Inl e \<Rightarrow> Some (Inl e) | Inr _ \<Rightarrow>
      (case bind_r (map_err MetaHeed (env_open env IntegerComparator META_DB_NAME))
              (ok_or (MetaSubDbNotFound META_DB_NAME)) of Inl e \<Rightarrow> Some (Inl e) | Inr meta_db \<Rightarrow>
       (case bind_r (map_err MetaHeed (db_get meta_db (u64_to_le 1))) (ok_or RecordNotFound) of
          Inl e \<Rightarrow> Some (Inl e)
        | Inr meta_bytes \<Rightarrow> parse_meta_flatbuffer meta_bytes)))"

definition assert_db_version :: "MetaRecord \<Rightarrow> (meta_error, unit) result" where
  "assert_db_version meta =
     (if db_version meta \<noteq> EXPECTED_DB_VERSION
      then Inl (DbVersionMismatch EXPECTED_DB_VERSION (db_version meta)) else Inr ())"

definition assert_endianness :: "MetaRecord \<Rightarrow> (meta_error, unit) result" where
  "assert_endianness meta =
     (if endianness meta \<noteq> STRFRY_LITTLE_ENDIAN_MARKER
      then Inl (EndiannessMismatch (endianness meta) STRFRY_LITTLE_ENDIAN_MARKER) else Inr ())"

section \<open>The layout the writer produces\<close>

text \<open>
  The buffer layout documented in \<^verbatim>\<open>lmdb/types.rs\<close> for a Meta value: table at 20, vtable at 10 with
  the three field slots 20, 12 and 4.
\<close>

definition encode_meta :: "MetaRecord \<Rightarrow> bytes" where
  "encode_meta m =
     nat_le 4 20 @ nat_le 6 0 @ nat_le 2 10 @ nat_le 2 28 @ nat_le 2 20 @ nat_le 2 12 @ nat_le 2 4 @
     nat_le 4 10 @ u64_to_le (negentropy_mod_counter m) @ u32_to_le (endianness m) @ nat_le 4 0 @
     u32_to_le (db_version m) @ nat_le 4 0"

text \<open>The table position and the raw vtable offset of a buffer.\<close>

definition root_of :: "bytes \<Rightarrow> nat" where
  "root_of raw = unat (u32_from_le (take 4 raw))"

definition soffset_of :: "bytes \<Rightarrow> u32" where
  "soffset_of raw = u32_from_le (take 4 (drop (root_of raw) raw))"

section \<open>Lemmas\<close>

lemma usize_add_small: "a + b < 2 ^ 64 \<Longrightarrow> usize_add a b = a + b"
  by (simp add: usize_add_def)

lemma slice_Some: "a \<le> b \<Longrightarrow> b \<le> length raw \<Longrightarrow> slice raw a b = Some (take (b - a) (drop a raw))"
  by (simp add: slice_def)

lemma unat_u16_bound: "unat (w::u16) < 2 ^ 16"
  using unsigned_less [of w, where ?'a = nat] by simp

lemma read_at_no_panic:
  assumes "table_start < 2 ^ 32" "field_offset < 2 ^ 16"
  shows "\<exists>r. read_u32_at raw table_start field_offset = Some r"
    and "\<exists>r. read_u64_at raw table_start field_offset = Some r"
  using assms by (auto simp: read_u32_at_def read_u64_at_def usize_add_def slice_def Let_def)

lemma bind_p_no_panic:
  "\<exists>r. m = Some r \<Longrightarrow> (\<And>a. \<exists>r. f a = Some r) \<Longrightarrow> \<exists>r. bind_p m f = Some r"
  by (auto simp: bind_p_def split: option.splits sum.splits)

lemma parse_fields_no_panic:
  assumes "vtable_abs + 10 \<le> length raw" "length raw < 2 ^ 63" "root_offset < 2 ^ 32"
  shows "\<exists>r. parse_fields raw root_offset vtable_abs = Some r"
proof -
  have "usize_add vtable_abs n = vtable_abs + n" if "n \<le> 10" for n
    using assms that by (simp add: usize_add_def)
  moreover have "\<exists>r. read_u32_at raw root_offset (unat (w::u16)) = Some r"
    "\<exists>r. read_u64_at raw root_offset (unat (w::u16)) = Some r" for w
    using read_at_no_panic [OF assms(3) unat_u16_bound] by simp_all
  ultimately show ?thesis
    using assms by (auto simp: parse_fields_def slice_def intro!: bind_p_no_panic)
qed

lemma parse_vtable_no_panic:
  assumes "vtable_abs < 2 ^ 63" "length raw < 2 ^ 63" "root_offset < 2 ^ 32"
  shows "\<exists>r. parse_vtable raw root_offset vtable_abs = Some r"
proof -
  have add: "usize_add vtable_abs n = vtable_abs + n" if "n < 2 ^ 16" for n
    using assms that by (simp add: usize_add_def)
  let ?size = "\<lambda>hdr. unat (u16_from_le hdr)"
  have "vtable_abs + 10 \<le> length raw"
    if "\<not> ?size hdr < 4" "\<not> usize_add vtable_abs (?size hdr) > length raw"
      "\<not> (?size hdr - 4) div 2 < 3" for hdr
    using that add [of "?size hdr"] unat_u16_bound [of "u16_from_le hdr"] by simp
  then show ?thesis
    using add [of 4] add [of 2] assms parse_fields_no_panic [OF _ assms(2,3)]
    by (auto simp: parse_vtable_def slice_def Let_def)
qed

lemma parse_vtable_panic:
  assumes "2 ^ 64 - 4 \<le> vtable_abs" "vtable_abs < 2 ^ 64" "4 \<le> length raw" "length raw < 2 ^ 63"
  shows "parse_vtable raw root_offset vtable_abs = None"
proof -
  have "usize_add vtable_abs 4 < 4"
    using assms by (auto simp: usize_add_def mod_if)
  moreover have "slice raw vtable_abs (usize_add vtable_abs 2) = None"
    using assms by (auto simp: slice_def usize_add_def mod_if)
  ultimately show ?thesis
    using assms by (simp add: parse_vtable_def)
qed

lemma parse_vtable_beyond:
  assumes "2 ^ 63 \<le> vtable_abs" "vtable_abs < 2 ^ 64 - 4" "length raw < 2 ^ 63"
  shows "\<exists>r. parse_vtable raw root_offset vtable_abs = Some r"
  using assms by (simp add: parse_vtable_def usize_add_def)

lemma i32_as_usize_int: "int (i32_as_usize w) = sint w mod 2 ^ 64"
proof -
  have "int (i32_as_usize w) = uint (scast w :: u64)"
    by (simp only: i32_as_usize_def uint_nat)
  also have "\<dots> = sint w mod 2 ^ 64"
    by (simp only: scast_eq unsigned_of_int take_bit_eq_mod) simp
  finally show ?thesis .
qed
lemma i32_as_usize_bounds:
  "i32_as_usize w < 2 ^ 64"
  "0 \<le> sint w \<Longrightarrow> i32_as_usize w < 2 ^ 31"
  "sint w < 0 \<Longrightarrow> int (i32_as_usize w) = 2 ^ 64 + sint w"
proof -
  show "i32_as_usize w < 2 ^ 64"
    unfolding i32_as_usize_def by (rule unat_less_u64)
  have range: "- (2 ^ 31) \<le> sint w" "sint w < 2 ^ 31"
    using sint_greater_eq [of w] sint_less [of w] by simp_all
  show "i32_as_usize w < 2 ^ 31" if "0 \<le> sint w"
    using i32_as_usize_int [of w] that range by simp
  show "int (i32_as_usize w) = 2 ^ 64 + sint w" if "sint w < 0"
    using i32_as_usize_int [of w] that range mod_pos_pos_trivial [of "sint w + 2 ^ 64" "2 ^ 64"] by simp
qed

lemma parse_meta_steps:
  assumes "14 \<le> length raw" "root_of raw + 4 \<le> length raw"
  shows "parse_meta_flatbuffer raw = parse_vtable raw (root_of raw) (i32_as_usize (soffset_of raw))"
proof -
  have "root_of raw < 2 ^ 32"
    unfolding root_of_def by (rule unat_less_u32)
  then have "usize_add (root_of raw) 4 = root_of raw + 4"
    by (simp add: usize_add_def)
  then show ?thesis
    using assms by (simp add: parse_meta_flatbuffer_def slice_def soffset_of_def Let_def flip: root_of_def)
qed

lemma parse_meta_early:
  assumes "length raw < 14 \<or> length raw < root_of raw + 4"
  shows "\<exists>e. parse_meta_flatbuffer raw = Some (Inl e)"
proof -
  have "root_of raw < 2 ^ 32"
    unfolding root_of_def by (rule unat_less_u32)
  then have "usize_add (root_of raw) 4 = root_of raw + 4"
    by (simp add: usize_add_def)
  then show ?thesis
    using assms by (auto simp: parse_meta_flatbuffer_def slice_def Let_def simp flip: root_of_def)
qed

lemma parse_encoded_meta: "parse_meta_flatbuffer (encode_meta m) = Some (Inr m)"
proof -
  let ?raw = "encode_meta m"
  have len: "length ?raw = 48"
    by (simp add: encode_meta_def)
  have root: "root_of ?raw = 20"
    by (simp add: root_of_def encode_meta_def u32_from_le_def nat_le_eval)
  have soff: "soffset_of ?raw = 10"
    unfolding soffset_of_def root by (simp add: encode_meta_def u32_from_le_def nat_le_eval)
  have v: "i32_as_usize 10 = 10" by (simp add: i32_as_usize_def)
  have vt: "parse_vtable ?raw 20 10 = parse_fields ?raw 20 10"
    by (simp add: parse_vtable_def len usize_add_def slice_def encode_meta_def nat_le_eval u16_from_le_def)
  have "parse_fields ?raw 20 10 = Some (Inr m)"
    by (simp add: parse_fields_def len usize_add_def slice_def encode_meta_def nat_le_eval u16_from_le_def
        bind_p_def read_u32_at_def read_u64_at_def)
  then show ?thesis
    using parse_meta_steps [of ?raw] by (simp add: root len soff v vt)
qed

section \<open>Properties\<close>

lemma example_panic_buffer:
  "root_of [4, 0, 0, 0, 255, 255, 255, 255, 0, 0, 0, 0, 0, 0] = 4"
  "soffset_of [4, 0, 0, 0, 255, 255, 255, 255, 0, 0, 0, 0, 0, 0] = 4294967295"
  by (simp_all add: root_of_def soffset_of_def u32_from_le_def)


text \<open>
  C10: the Meta parser rejects every malformed buffer with an error value, except those whose
  table starts with a vtable offset of -4, -3, -2 or -1: there the bounds check wraps and the
  slice behind it panics.
\<close>

theorem parse_meta_flatbuffer_panics_iff:
  assumes "length raw < 2 ^ 63"
  shows "parse_meta_flatbuffer raw = None \<longleftrightarrow>
    14 \<le> length raw \<and> root_of raw + 4 \<le> length raw \<and>
    - 4 \<le> sint (soffset_of raw) \<and> sint (soffset_of raw) < 0"
proof (cases "14 \<le> length raw \<and> root_of raw + 4 \<le> length raw")
  case True
  let ?s = "sint (soffset_of raw)" and ?v = "i32_as_usize (soffset_of raw)"
  have root: "root_of raw < 2 ^ 32"
    unfolding root_of_def by (rule unat_less_u32)
  have lo: "- (2 ^ 31) \<le> ?s"
    using sint_greater_eq [of "soffset_of raw"] by simp
  note bounds = i32_as_usize_bounds [of "soffset_of raw"]
  consider "0 \<le> ?s" | "?s < - 4" | "- 4 \<le> ?s" "?s < 0"
    by linarith
  then have "parse_vtable raw (root_of raw) ?v = None \<longleftrightarrow> - 4 \<le> ?s \<and> ?s < 0"
  proof cases
    case 1
    then show ?thesis
      using parse_vtable_no_panic [OF _ assms root, of ?v] bounds(2) by auto
  next
    case 2
    then have "int ?v = 2 ^ 64 + ?s"
      using bounds(3) by simp
    then have "2 ^ 63 \<le> ?v" "?v < 2 ^ 64 - 4"
      using 2 lo by simp_all
    then show ?thesis
      using parse_vtable_beyond [OF _ _ assms, of ?v] 2 by auto
  next
    case 3
    then have "int ?v = 2 ^ 64 + ?s"
      using bounds(3) by simp
    then have "2 ^ 64 - 4 \<le> ?v"
      using 3 by simp
    then show ?thesis
      using parse_vtable_panic [OF _ bounds(1) _ assms] True 3 by simp
  qed
  then show ?thesis
    using parse_meta_steps True by simp
next
  case False
  then show ?thesis
    using parse_meta_early [of raw] by auto
qed


theorem parse_meta_flatbuffer_panics_iff_witness:
  "parse_meta_flatbuffer [4, 0, 0, 0, 255, 255, 255, 255, 0, 0, 0, 0, 0, 0] = None"
  using parse_meta_flatbuffer_panics_iff [of "[4, 0, 0, 0, 255, 255, 255, 255, 0, 0, 0, 0, 0, 0]"]
  by (simp add: example_panic_buffer)

text \<open>
  C14: a Meta value in the documented layout decodes to the record it was written from: the
  parser reads database version, endianness marker and modification counter from the right
  slots, for every value of the three fields.
\<close>

theorem parse_encode_meta: "parse_meta_flatbuffer (encode_meta m) = Some (Inr m)"
  by (rule parse_encoded_meta)

end
