(* ===== verification/Indexes.thy ===== *)
theory Indexes
  imports Heed
begin

text \<open>
  \<^verbatim>\<open>lmdb/indexes.rs\<close>: the six \<^verbatim>\<open>Event__*\<close> indexes, the helpers that open each with its
  comparator, and the levId scans over a whole index.  The predicate \<open>serves_index\<close> names what
  the components above rely on: the environment opens an index, with the comparator the code
  registers for it, on a sub-database that behaves as \<open>lmdb_index\<close> states.
\<close>

section \<open>Names and errors\<close>

definition ALL_EVENT_INDEXES :: "string list" where
  "ALL_EVENT_INDEXES =
     [''Event__id'', ''Event__pubkey'', ''Event__created_at'', ''Event__kind'',
      ''Event__pubkeyKind'', ''Event__tag'']"

definition RASGUEADB_PREFIX :: string where
  "RASGUEADB_PREFIX = ''rasgueadb_defaultDb__''"

definition full_db_name :: "string \<Rightarrow> string" where
  "full_db_name short_name = RASGUEADB_PREFIX @ short_name"

datatype index_error =
  Heed heed_error
| SubDbNotFound string
| MalformedKey string nat nat

section \<open>Opening an index\<close>

text \<open>The common body of the four helpers: open under the full name, \<^verbatim>\<open>Ok(None)\<close> is an error.\<close>

definition open_index :: "heed_env \<Rightarrow> comparator \<Rightarrow> string \<Rightarrow> (index_error, heed_db) result" where
  "open_index env cmp short_name =
     (let full = full_db_name short_name
      in bind_r (map_err Heed (env_open env cmp full)) (ok_or (SubDbNotFound full)))"

definition open_index_string_uint64 :: "heed_env \<Rightarrow> string \<Rightarrow> (index_error, heed_db) result" where
  "open_index_string_uint64 env short_name = open_index env StringUint64Cmp short_name"

definition open_index_uint64_uint64 :: "heed_env \<Rightarrow> string \<Rightarrow> (index_error, heed_db) result" where
  "open_index_uint64_uint64 env short_name = open_index env Uint64Uint64Cmp short_name"

definition open_index_string_uint64_uint64 :: "heed_env \<Rightarrow> string \<Rightarrow> (index_error, heed_db) result" where
  "open_index_string_uint64_uint64 env short_name = open_index env StringUint64Uint64Cmp short_name"

definition open_index_created_at :: "heed_env \<Rightarrow> (index_error, heed_db) result" where
  "open_index_created_at env = open_index env IntegerComparator ''Event__created_at''"

text \<open>
  The \<^verbatim>\<open>match short_name\<close> that every scan function repeats: it opens the index with its
  comparator, runs the same continuation on it in each arm, and rejects any other name.
\<close>

definition with_event_index ::
  "heed_env \<Rightarrow> string \<Rightarrow> (heed_db \<Rightarrow> (index_error, 'a) result) \<Rightarrow> (index_error, 'a) result" where
  "with_event_index env short_name f =
     (if short_name = ''Event__id'' \<or> short_name = ''Event__pubkey'' \<or> short_name = ''Event__tag''
      then bind_r (open_index_string_uint64 env short_name) f
      else if short_name = ''Event__kind''
      then bind_r (open_index_uint64_uint64 env short_name) f
      else if short_name = ''Event__pubkeyKind''
      then bind_r (open_index_string_uint64_uint64 env short_name) f
      else if short_name = ''Event__created_at''
      then bind_r (open_index_created_at env) f
      else Inl (SubDbNotFound short_name))"

section \<open>levId scans\<close>

text \<open>\<^verbatim>\<open>u64::from_le_bytes(value[0..8])\<close>.\<close>

definition value_lev_id :: "bytes \<Rightarrow> u64" where
  "value_lev_id value = u64_from_le (take 8 value)"

fun lev_ids_loop :: "items \<Rightarrow> (index_error, u64 list) result" where
  "lev_ids_loop [] = Inr []"
| "lev_ids_loop (Inl e # items) = Inl (Heed e)"
| "lev_ids_loop (Inr (key, value) # items) =
     (if length value < 8 then lev_ids_loop items
      else map_ok (Cons (value_lev_id value)) (lev_ids_loop items))"

definition collect_lev_ids_dup :: "heed_db \<Rightarrow> (index_error, u64 list) result" where
  "collect_lev_ids_dup db = bind_r (map_err Heed (db_iter db)) lev_ids_loop"

definition scan_lev_ids_for_index :: "heed_env \<Rightarrow> string \<Rightarrow> (index_error, u64 list) result" where
  "scan_lev_ids_for_index env short_name =
     bind_r (map_err Heed (env_read_txn env))
       (\<lambda>_. with_event_index env short_name collect_lev_ids_dup)"

definition seek_range_first_lev_id :: "heed_db \<Rightarrow> bytes \<Rightarrow> (index_error, u64 option) result" where
  "seek_range_first_lev_id db lower_bound_key =
     bind_r (map_err Heed (db_range db DefaultMode (Included lower_bound_key) Unbounded))
       (\<lambda>items. case items of
          [] \<Rightarrow> Inr None
        | item # _ \<Rightarrow> bind_r (map_err Heed item)
            (\<lambda>(key, value). if length value < 8 then Inr None else Inr (Some (value_lev_id value))))"

text \<open>\<^verbatim>\<open>seek_first_ge_lev_id\<close> has no arm for \<^verbatim>\<open>Event__created_at\<close>.\<close>

definition seek_first_ge_lev_id :: "heed_env \<Rightarrow> string \<Rightarrow> bytes \<Rightarrow> (index_error, u64 option) result" where
  "seek_first_ge_lev_id env short_name lower_bound_key =
     bind_r (map_err Heed (env_read_txn env)) (\<lambda>_.
       if short_name = ''Event__id'' \<or> short_name = ''Event__pubkey'' \<or> short_name = ''Event__tag''
       then bind_r (open_index_string_uint64 env short_name)
              (\<lambda>db. seek_range_first_lev_id db lower_bound_key)
       else if short_name = ''Event__kind''
       then bind_r (open_index_uint64_uint64 env short_name)
              (\<lambda>db. seek_range_first_lev_id db lower_bound_key)
       else if short_name = ''Event__pubkeyKind''
       then bind_r (open_index_string_uint64_uint64 env short_name)
              (\<lambda>db. seek_range_first_lev_id db lower_bound_key)
       else Inl (SubDbNotFound short_name))"

section \<open>What an environment serves\<close>

text \<open>The comparator the code registers for an index, \<^const>\<open>None\<close> for an unknown name.\<close>

definition index_comparator :: "string \<Rightarrow> comparator option" where
  "index_comparator short_name =
     (if short_name = ''Event__id'' \<or> short_name = ''Event__pubkey'' \<or> short_name = ''Event__tag''
      then Some StringUint64Cmp
      else if short_name = ''Event__kind'' then Some Uint64Uint64Cmp
      else if short_name = ''Event__pubkeyKind'' then Some StringUint64Uint64Cmp
      else if short_name = ''Event__created_at'' then Some IntegerComparator
      else None)"

definition serves_index :: "heed_env \<Rightarrow> string \<Rightarrow> comparator \<Rightarrow> entry list \<Rightarrow> bool" where
  "serves_index env short_name c es \<longleftrightarrow>
     env_read_txn env = Inr () \<and> index_comparator short_name = Some c \<and>
     (\<exists>db. env_open env c (full_db_name short_name) = Inr (Some db) \<and> lmdb_index c db es)"

lemma index_comparator_defined:
  "index_comparator short_name \<noteq> None \<longleftrightarrow> short_name \<in> set ALL_EVENT_INDEXES"
  by (auto simp: index_comparator_def ALL_EVENT_INDEXES_def)

lemmas open_index_defs =
  open_index_string_uint64_def open_index_uint64_uint64_def open_index_string_uint64_uint64_def
  open_index_created_at_def open_index_def

lemma with_event_index_open:
  "index_comparator short_name = Some c \<Longrightarrow>
   with_event_index env short_name f = bind_r (open_index env c short_name) f"
  by (auto simp: index_comparator_def with_event_index_def open_index_string_uint64_def
      open_index_uint64_uint64_def open_index_string_uint64_uint64_def open_index_created_at_def
      split: if_splits)

lemma with_event_index_unknown:
  "short_name \<notin> set ALL_EVENT_INDEXES \<Longrightarrow>
   with_event_index env short_name f = Inl (SubDbNotFound short_name)"
  by (simp add: with_event_index_def ALL_EVENT_INDEXES_def)

lemma with_event_index_missing:
  "index_comparator short_name = Some c \<Longrightarrow> env_open env c (full_db_name short_name) = Inr None \<Longrightarrow>
   with_event_index env short_name f = Inl (SubDbNotFound (full_db_name short_name))"
  by (simp add: with_event_index_open open_index_def Let_def)

lemma serves_indexE:
  assumes "serves_index env short_name c es"
  obtains db where "env_read_txn env = Inr ()" "lmdb_index c db es"
    "\<forall>f :: heed_db \<Rightarrow> (index_error, 'a) result. with_event_index env short_name f = f db"
  using assms by (auto simp: serves_index_def with_event_index_open open_index_def Let_def)

text \<open>
  Opening an index never falls back to another comparator: it uses the one the code registers
  for that name, whatever the environment holds.
\<close>

lemma with_event_index_cong:
  assumes "index_comparator short_name = Some c"
    and "env_open env c (full_db_name short_name) = env_open env' c (full_db_name short_name)"
  shows "with_event_index env short_name f = with_event_index env' short_name f"
  using assms by (simp add: with_event_index_open open_index_def Let_def)

lemma lev_ids_loop_valid:
  "\<forall>e\<in>set es. length (snd e) = 8 \<Longrightarrow>
   lev_ids_loop (map Inr es) = Inr (map (value_lev_id \<circ> snd) es)"
  by (induction es) auto

text \<open>A one-index environment, for evaluation.\<close>

definition mem_env :: "(string \<times> comparator \<times> entry list) list \<Rightarrow> heed_env" where
  "mem_env dbs = \<lparr> env_read_txn = Inr (),
     env_open = (\<lambda>c name. Inr (case find (\<lambda>(n, c', es). full_db_name n = name \<and> c' = c) dbs of
        None \<Rightarrow> None | Some (n, c', es) \<Rightarrow> Some (mem_db c (mem_entries c es)))) \<rparr>"

text \<open>Five records of \<^verbatim>\<open>Event__kind\<close>, with a duplicate group and keys that \<^verbatim>\<open>memcmp\<close> would misorder.\<close>

definition example_key :: "nat \<Rightarrow> nat \<Rightarrow> bytes" where
  "example_key kind ts = nat_le 8 kind @ nat_le 8 ts"

definition example_kinds :: "entry list" where
  "example_kinds =
     [(example_key 1 10, nat_le 8 7), (example_key 1 10, nat_le 8 300), (example_key 256 10, nat_le 8 2),
      (example_key 255 5, nat_le 8 1), (example_key 1 9, nat_le 8 4)]"

definition example_env :: heed_env where
  "example_env = mem_env [(''Event__kind'', Uint64Uint64Cmp, example_kinds)]"

text \<open>An environment with one more sub-database, whose values are not 8-byte integers.\<close>

definition with_store :: "string \<Rightarrow> entry list \<Rightarrow> heed_env \<Rightarrow> heed_env" where
  "with_store name kvs env =
     env\<lparr> env_open := (\<lambda>c n. if n = name then Inr (Some (mem_db c kvs)) else env_open env c n) \<rparr>"

lemma with_store_serves:
  "serves_index env short_name c es \<Longrightarrow> full_db_name short_name \<noteq> name \<Longrightarrow>
   serves_index (with_store name kvs env) short_name c es"
  by (simp add: serves_index_def with_store_def)

lemma mem_env_serves:
  assumes "find (\<lambda>(n, c', es). full_db_name n = full_db_name short_name \<and> c' = c) dbs =
      Some (short_name, c, kvs)"
    and "index_comparator short_name = Some c"
  shows "serves_index (mem_env dbs) short_name c (mem_entries c kvs)"
  using assms mem.lmdb_index_axioms [of c kvs] by (simp add: serves_index_def mem_env_def)

lemma example_env_serves:
  "serves_index example_env ''Event__kind'' Uint64Uint64Cmp (mem_entries Uint64Uint64Cmp example_kinds)"
  unfolding example_env_def by (rule mem_env_serves) (simp_all add: index_comparator_def)

end
