(* ===== verification/Payload.thy ===== *)
theory Payload
  imports Types Heed
begin

text \<open>
  \<^verbatim>\<open>lmdb/payload.rs\<close>: looking up and decoding EventPayload values.  The JSON parser
  (\<^verbatim>\<open>serde_json\<close>) and the decompressor (\<^verbatim>\<open>zstd\<close>) are parameters, the record \<open>codec\<close>; a prepared
  dictionary is a value of the type parameter \<open>'dd\<close>.  The dictionary cache is a map that the
  decoding functions take and return.  The lemmas show that the cache is transparent, that a
  decoded event is the parse of the raw JSON kept beside it, and that the batched lookup equals
  the lookups one by one.
\<close>

section \<open>Constants, errors, external functions\<close>

definition EVENT_PAYLOAD_DB_NAME :: string where
  "EVENT_PAYLOAD_DB_NAME = ''rasgueadb_defaultDb__EventPayload''"

definition COMPRESSION_DICTIONARY_DB_NAME :: string where
  "COMPRESSION_DICTIONARY_DB_NAME = ''rasgueadb_defaultDb__CompressionDictionary''"

definition PAYLOAD_TAG_RAW_JSON :: u8 where "PAYLOAD_TAG_RAW_JSON = 0"
definition PAYLOAD_TAG_ZSTD_DICT :: u8 where "PAYLOAD_TAG_ZSTD_DICT = 1"

definition MAX_EVENT_DECOMPRESSED_SIZE :: nat where
  "MAX_EVENT_DECOMPRESSED_SIZE = 4 * 1024 * 1024"

datatype payload_error =
  PayloadHeed heed_error
| PayloadSubDbNotFound string
| LevIdNotFound u64
| UnknownTypeTag u8
| TruncatedZstdPayload nat
| DictNotFound u32
| ZstdError string
| DecompressedTooLarge nat
| JsonDecode string

text \<open>
  \<^verbatim>\<open>serde_json::from_slice::<NostrEvent>\<close>, \<^verbatim>\<open>DecoderDictionary::copy\<close>,
  \<^verbatim>\<open>Decompressor::with_prepared_dictionary\<close> and \<^verbatim>\<open>decompress\<close> of a frame under a size limit.
\<close>

record 'dd codec =
  json_from_slice :: "bytes \<Rightarrow> (string, NostrEvent) result"
  dict_copy :: "bytes \<Rightarrow> 'dd"
  with_prepared_dictionary :: "'dd \<Rightarrow> (string, unit) result"
  decompress :: "'dd \<Rightarrow> bytes \<Rightarrow> nat \<Rightarrow> (string, bytes) result"

section \<open>Sub-databases\<close>

definition open_event_payload_db :: "heed_env \<Rightarrow> (payload_error, heed_db) result" where
  "open_event_payload_db env =
     bind_r (map_err PayloadHeed (env_open env IntegerComparator EVENT_PAYLOAD_DB_NAME))
       (ok_or (PayloadSubDbNotFound EVENT_PAYLOAD_DB_NAME))"

definition open_compression_dictionary_db :: "heed_env \<Rightarrow> (payload_error, heed_db) result" where
  "open_compression_dictionary_db env =
     bind_r (map_err PayloadHeed (env_open env IntegerComparator COMPRESSION_DICTIONARY_DB_NAME))
       (ok_or (PayloadSubDbNotFound COMPRESSION_DICTIONARY_DB_NAME))"

definition get_event_payload :: "heed_env \<Rightarrow> LevId \<Rightarrow> (payload_error, bytes) result" where
  "get_event_payload env lev_id =
     bind_r (map_err PayloadHeed (env_read_txn env)) (\<lambda>_.
     bind_r (open_event_payload_db env) (\<lambda>db.
     bind_r (map_err PayloadHeed (db_get db (u64_to_le lev_id)))
       (ok_or (LevIdNotFound lev_id))))"

fun batch_get_loop :: "heed_db \<Rightarrow> LevId list \<Rightarrow> (payload_error, (LevId \<times> bytes) list) result" where
  "batch_get_loop db [] = Inr []"
| "batch_get_loop db (lev_id # lev_ids) =
     bind_r (bind_r (map_err PayloadHeed (db_get db (u64_to_le lev_id))) (ok_or (LevIdNotFound lev_id)))
       (\<lambda>raw. map_ok (Cons (lev_id, raw)) (batch_get_loop db lev_ids))"

definition batch_get_event_payloads ::
  "heed_env \<Rightarrow> LevId list \<Rightarrow> (payload_error, (LevId \<times> bytes) list) result" where
  "batch_get_event_payloads env lev_ids =
     (if lev_ids = [] then Inr []
      else bind_r (map_err PayloadHeed (env_read_txn env)) (\<lambda>_.
           bind_r (open_event_payload_db env) (\<lambda>db. batch_get_loop db lev_ids)))"

section \<open>The dictionary cache\<close>

type_synonym 'dd dict_cache = "u32 \<rightharpoonup> 'dd"

definition load_dictionary :: "'dd codec \<Rightarrow> heed_env \<Rightarrow> u32 \<Rightarrow> (payload_error, 'dd) result" where
  "load_dictionary cd env dict_id =
     bind_r (map_err PayloadHeed (env_read_txn env)) (\<lambda>_.
     bind_r (open_compression_dictionary_db env) (\<lambda>dict_db.
     bind_r (bind_r (map_err PayloadHeed (db_get dict_db (u32_to_le dict_id))) (ok_or (DictNotFound dict_id)))
       (\<lambda>raw. Inr (dict_copy cd raw))))"

text \<open>
  \<^verbatim>\<open>DictCache::get_or_load\<close>: a hit returns the cached dictionary, a miss loads one, inserts it
  unless the key was filled meanwhile, and returns the loaded one.
\<close>

definition get_or_load ::
  "'dd codec \<Rightarrow> heed_env \<Rightarrow> u32 \<Rightarrow> 'dd dict_cache \<Rightarrow> (payload_error, 'dd) result \<times> 'dd dict_cache" where
  "get_or_load cd env dict_id cache =
     (case cache dict_id of
        Some dd \<Rightarrow> (Inr dd, cache)
      | None \<Rightarrow>
          (case load_dictionary cd env dict_id of
             Inl e \<Rightarrow> (Inl e, cache)
           | Inr dd \<Rightarrow>
               (Inr dd, case cache dict_id of None \<Rightarrow> cache(dict_id \<mapsto> dd) | Some _ \<Rightarrow> cache)))"

section \<open>Decoding\<close>

definition decode_json :: "'dd codec \<Rightarrow> bytes \<Rightarrow> (payload_error, DecodedEvent) result" where
  "decode_json cd json_bytes =
     bind_r (map_err JsonDecode (json_from_slice cd json_bytes))
       (\<lambda>event. Inr \<lparr> dec_event = event, dec_raw_json = json_bytes \<rparr>)"

definition decode_event_payload_with_cache_and_limit ::
  "'dd codec \<Rightarrow> heed_env \<Rightarrow> bytes \<Rightarrow> nat \<Rightarrow> 'dd dict_cache
   \<Rightarrow> (payload_error, DecodedEvent) result \<times> 'dd dict_cache" where
  "decode_event_payload_with_cache_and_limit cd env raw max_decompressed cache =
     (case raw of
        [] \<Rightarrow> (Inl (UnknownTypeTag 0), cache)
      | tag # rest \<Rightarrow>
          if tag = PAYLOAD_TAG_RAW_JSON then (decode_json cd rest, cache)
          else if tag = PAYLOAD_TAG_ZSTD_DICT then
            if length raw < 5 then (Inl (TruncatedZstdPayload (length raw)), cache)
            else let dict_id = u32_from_le (take 4 (drop 1 raw));
                     zstd_frame = drop 5 raw
                 in case get_or_load cd env dict_id cache of
                      (Inl e, cache') \<Rightarrow> (Inl e, cache')
                    | (Inr dd, cache') \<Rightarrow>
                        (bind_r (map_err ZstdError (with_prepared_dictionary cd dd)) (\<lambda>_.
                         bind_r (map_err ZstdError (decompress cd dd zstd_frame max_decompressed))
                           (decode_json cd)), cache')
          else (Inl (UnknownTypeTag tag), cache))"

definition decode_event_payload_with_cache ::
  "'dd codec \<Rightarrow> heed_env \<Rightarrow> bytes \<Rightarrow> 'dd dict_cache
   \<Rightarrow> (payload_error, DecodedEvent) result \<times> 'dd dict_cache" where
  "decode_event_payload_with_cache cd env raw cache =
     decode_event_payload_with_cache_and_limit cd env raw MAX_EVENT_DECOMPRESSED_SIZE cache"

text \<open>The cache-free decoder rejects the compressed tag.\<close>

definition decode_event_payload :: "'dd codec \<Rightarrow> bytes \<Rightarrow> (payload_error, DecodedEvent) result" where
  "decode_event_payload cd raw =
     (case raw of
        [] \<Rightarrow> Inl (UnknownTypeTag 0)
      | tag # rest \<Rightarrow>
          if tag = PAYLOAD_TAG_RAW_JSON then decode_json cd rest
          else if tag = PAYLOAD_TAG_ZSTD_DICT then Inl (UnknownTypeTag tag)
          else Inl (UnknownTypeTag tag))"

definition decode_payload_skip_on_error ::
  "'dd codec \<Rightarrow> bytes \<Rightarrow> nat \<Rightarrow> DecodedEvent option \<times> nat" where
  "decode_payload_skip_on_error cd raw skip_count =
     (case decode_event_payload cd raw of
        Inr decoded \<Rightarrow> (Some decoded, skip_count)
      | Inl e \<Rightarrow> (None, skip_count + 1))"

section \<open>Lemmas\<close>

text \<open>Every cached dictionary is the one a fresh load would give.\<close>

definition cache_coherent :: "'dd codec \<Rightarrow> heed_env \<Rightarrow> 'dd dict_cache \<Rightarrow> bool" where
  "cache_coherent cd env cache \<longleftrightarrow>
     (\<forall>dict_id dd. cache dict_id = Some dd \<longrightarrow> load_dictionary cd env dict_id = Inr dd)"

lemma cache_coherent_empty [simp]: "cache_coherent cd env Map.empty"
  by (simp add: cache_coherent_def)

lemma get_or_load_coherent:
  assumes "cache_coherent cd env cache"
  shows "fst (get_or_load cd env dict_id cache) = load_dictionary cd env dict_id"
    and "cache_coherent cd env (snd (get_or_load cd env dict_id cache))"
  using assms by (auto simp: get_or_load_def cache_coherent_def split: option.splits sum.splits)

lemma decode_with_cache_coherent:
  assumes "cache_coherent cd env cache"
  shows "fst (decode_event_payload_with_cache_and_limit cd env raw limit cache) =
      fst (decode_event_payload_with_cache_and_limit cd env raw limit Map.empty)"
    and "cache_coherent cd env (snd (decode_event_payload_with_cache_and_limit cd env raw limit cache))"
  using assms get_or_load_coherent [OF assms] get_or_load_coherent [of cd env Map.empty]
  by (auto simp: decode_event_payload_with_cache_and_limit_def Let_def
      split: list.splits prod.splits sum.splits) (metis fst_conv sum.simps(4) Inl_inject Inr_inject snd_conv)+

lemma decode_json_Inr:
  "decode_json cd bs = Inr d \<longleftrightarrow> json_from_slice cd bs = Inr (dec_event d) \<and> dec_raw_json d = bs"
  by (cases d) (auto simp: decode_json_def result_eqs)

lemma batch_get_loop_each:
  assumes "env_read_txn env = Inr ()" "open_event_payload_db env = Inr db"
  shows "batch_get_loop db lev_ids =
    collect_r (map (\<lambda>lev_id. map_ok (Pair lev_id) (get_event_payload env lev_id)) lev_ids)"
proof (induction lev_ids)
  case (Cons lev_id lev_ids)
  then show ?case
    using assms by (cases "get_event_payload env lev_id")
      (auto simp: get_event_payload_def)
qed simp

end
