(* ===== verification/QueryFilter.thy ===== *)
theory QueryFilter
  imports Types Indexes Payload
begin

text \<open>
  \<^verbatim>\<open>query/filter.rs\<close>: the query filter, the pagination cursor and the error type of the query
  layer.  The base64 engine is a parameter.
\<close>

section \<open>Filters, cursors, errors\<close>

record TagFilter =
  tag_name :: string
  tag_values :: "string list"

record NostrFilter =
  f_ids :: "string list option"
  f_authors :: "string list option"
  f_kinds :: "u64 list option"
  f_tags :: "TagFilter list option"
  f_since :: "u64 option"
  f_until :: "u64 option"
  f_limit :: nat

record PageCursor =
  cur_created_at :: u64
  cur_lev_id :: u64

text \<open>Why a cursor does not decode: the base64 engine's message, or the number of bytes.\<close>

datatype cursor_reason = Base64Error string | ExpectedSixteenBytes nat

datatype query_error =
  Lmdb index_error
| Payload payload_error
| CursorDecode cursor_reason

text \<open>The \<^verbatim>\<open>STANDARD\<close> engine of the \<^verbatim>\<open>base64\<close> crate.\<close>

record base64 =
  b64_encode :: "bytes \<Rightarrow> string"
  b64_decode :: "string \<Rightarrow> (string, bytes) result"

section \<open>Cursor encoding\<close>

definition PageCursor_encode :: "base64 \<Rightarrow> PageCursor \<Rightarrow> string" where
  "PageCursor_encode b64 c = b64_encode b64 (u64_to_le (cur_created_at c) @ u64_to_le (cur_lev_id c))"

definition PageCursor_decode :: "base64 \<Rightarrow> string \<Rightarrow> (query_error, PageCursor) result" where
  "PageCursor_decode b64 s =
     bind_r (map_err (CursorDecode \<circ> Base64Error) (b64_decode b64 s)) (\<lambda>bytes.
       if length bytes \<noteq> 16 then Inl (CursorDecode (ExpectedSixteenBytes (length bytes)))
       else Inr \<lparr> cur_created_at = u64_from_le (take 8 bytes),
                  cur_lev_id = u64_from_le (take 8 (drop 8 bytes)) \<rparr>)"

text \<open>What the code relies on: decoding inverts encoding.\<close>

definition b64_inverse :: "base64 \<Rightarrow> bool" where
  "b64_inverse b64 \<longleftrightarrow> (\<forall>bs. b64_decode b64 (b64_encode b64 bs) = Inr bs)"

text \<open>An engine that writes each byte as the character of the same code.\<close>

definition plain_engine :: base64 where
  "plain_engine = \<lparr> b64_encode = map (\<lambda>b. char_of (unat b)), b64_decode = (\<lambda>s. Inr (as_bytes s)) \<rparr>"

lemma of_char_char_of_u8: "(of_char (char_of (unat b)) :: u8) = b"
proof -
  have "unat (of_char (char_of (unat b)) :: u8) = unat b"
    using unat_less_u8 [of b] by (simp add: unat_of_char)
  then show ?thesis
    by (simp only: word_unat_eq_iff)
qed

lemma plain_engine_inverse: "b64_inverse plain_engine"
  by (simp add: b64_inverse_def plain_engine_def as_bytes_def of_char_char_of_u8 map_idI)

lemma PageCursor_decode_error:
  assumes "PageCursor_decode b64 s = Inl e"
  shows "\<exists>r. e = CursorDecode r"
  using assms by (cases "b64_decode b64 s") (auto simp: PageCursor_decode_def split: if_splits)

lemma PageCursor_decode_Inr:
  "PageCursor_decode b64 s = Inr c \<longleftrightarrow>
   b64_decode b64 s = Inr (u64_to_le (cur_created_at c) @ u64_to_le (cur_lev_id c))"
proof (cases "b64_decode b64 s")
  case (Inr bs)
  have "bs = u64_to_le (u64_from_le (take 8 bs)) @ u64_to_le (u64_from_le (take 8 (drop 8 bs)))"
    if "length bs = 16"
    using that by (simp add: u64_from_le_roundtrip)
  then show ?thesis
    using Inr by (cases c) (auto simp: PageCursor_decode_def)
qed (simp add: PageCursor_decode_def)

section \<open>Properties\<close>

text \<open>
  C13: a cursor survives the round trip through its opaque encoding, and whatever decodes is
  the encoding's unique preimage up to base64; anything that is not exactly 16 bytes is rejected
  as a cursor error.
\<close>

theorem cursor_roundtrip:
  assumes "b64_inverse b64"
  shows "PageCursor_decode b64 (PageCursor_encode b64 c) = Inr c \<and>
    (PageCursor_decode b64 s = Inr c \<longleftrightarrow>
      b64_decode b64 s = Inr (u64_to_le (cur_created_at c) @ u64_to_le (cur_lev_id c)))"
  using assms by (simp add: PageCursor_decode_Inr PageCursor_encode_def b64_inverse_def)

theorem cursor_roundtrip_witness:
  "PageCursor_decode plain_engine
     (PageCursor_encode plain_engine \<lparr> cur_created_at = 1700000000, cur_lev_id = 42 \<rparr>) =
   Inr \<lparr> cur_created_at = 1700000000, cur_lev_id = 42 \<rparr>"
  by (rule cursor_roundtrip [OF plain_engine_inverse, THEN conjunct1])

end
