(* ===== verification/Scan.thy ===== *)
theory Scan
  imports Indexes
begin

text \<open>
  \<^verbatim>\<open>lmdb/scan.rs\<close>: bounded, windowed and one-window scans of an \<^verbatim>\<open>Event__*\<close> index, forward and
  reverse.  The loops over cursor items are recursive functions, the open-ended loop of
  \<^verbatim>\<open>scan_index_windowed\<close> is a partial function whose result is \<^const>\<open>None\<close> when it does not end.
  The lemmas show that a window ends on a key boundary, that the windowed scan ends and returns
  every record of its range exactly once and in order, and that the reverse upper bound
  reaches the largest duplicate of the start key.
\<close>

section \<open>The scan primitives\<close>

definition DEFAULT_WINDOW_SIZE :: nat where
  "DEFAULT_WINDOW_SIZE = 256"

datatype ScanDirection = Forward | Reverse

type_synonym pairs = "(bytes \<times> u64) list"

text \<open>\<^verbatim>\<open>reverse_upper_bound\<close>: the key with \<^verbatim>\<open>created_at + 1\<close>, and whether to exclude it.\<close>

definition reverse_upper_bound :: "bytes \<Rightarrow> bytes \<times> bool" where
  "reverse_upper_bound start_key =
     (if length start_key < 8 then (start_key, False)
      else let len = length start_key;
               ts = u64_from_le (drop (len - 8) start_key)
           in case u64_checked_add ts 1 of
                Some ts1 \<Rightarrow> (take (len - 8) start_key @ u64_to_le ts1, True)
              | None \<Rightarrow> (start_key, False))"

text \<open>The loop of \<^verbatim>\<open>collect_bounded\<close> over \<^verbatim>\<open>iter.take(limit)\<close>: short values are skipped.\<close>

fun bounded_loop :: "items \<Rightarrow> (index_error, pairs) result" where
  "bounded_loop [] = Inr []"
| "bounded_loop (Inl e # items) = Inl (Heed e)"
| "bounded_loop (Inr (key, value) # items) =
     (if length value < 8 then bounded_loop items
      else map_ok (Cons (key, value_lev_id value)) (bounded_loop items))"

definition collect_bounded ::
  "heed_db \<Rightarrow> ScanDirection \<Rightarrow> bytes \<Rightarrow> nat \<Rightarrow> (index_error, pairs) result" where
  "collect_bounded db direction start_key limit =
     (case direction of
        Forward \<Rightarrow>
          bind_r (map_err Heed (db_range db ThroughDuplicates (Included start_key) Unbounded))
            (\<lambda>iter. bounded_loop (take limit iter))
      | Reverse \<Rightarrow>
          (let (rebuilt_key, is_excluded) = reverse_upper_bound start_key;
               upper = (if is_excluded then Excluded rebuilt_key else Included start_key)
           in bind_r (map_err Heed (db_rev_range db ThroughDuplicates Unbounded upper))
                (\<lambda>iter. bounded_loop (take limit iter))))"

text \<open>
  The loop of \<^verbatim>\<open>collect_window\<close>: it stops on the first record of a new key once the window is
  full, and so drains the duplicates of the last key.
\<close>

fun window_loop :: "nat \<Rightarrow> pairs \<Rightarrow> items \<Rightarrow> (index_error, pairs) result" where
  "window_loop window_size results [] = Inr results"
| "window_loop window_size results (Inl e # items) = Inl (Heed e)"
| "window_loop window_size results (Inr (key, value) # items) =
     (if length value < 8 then window_loop window_size results items
      else if window_size \<le> length results \<and> (results = [] \<or> fst (last results) \<noteq> key)
      then Inr results
      else window_loop window_size (results @ [(key, value_lev_id value)]) items)"

definition collect_window ::
  "heed_db \<Rightarrow> ScanDirection \<Rightarrow> bytes \<Rightarrow> bool \<Rightarrow> nat \<Rightarrow> (index_error, pairs) result" where
  "collect_window db direction resume_key first_batch window_size =
     (case direction of
        Forward \<Rightarrow>
          (let lower = (if first_batch then Included resume_key else Excluded resume_key)
           in bind_r (map_err Heed (db_range db ThroughDuplicates lower Unbounded))
                (window_loop window_size []))
      | Reverse \<Rightarrow>
          (let (rebuilt_key, first_batch_is_excluded) =
                 (if first_batch then reverse_upper_bound resume_key else ([], False));
               upper =
                 (if first_batch
                  then (if first_batch_is_excluded then Excluded rebuilt_key else Included resume_key)
                  else Excluded resume_key)
           in bind_r (map_err Heed (db_rev_range db ThroughDuplicates Unbounded upper))
                (window_loop window_size [])))"

definition scan_window ::
  "heed_env \<Rightarrow> string \<Rightarrow> ScanDirection \<Rightarrow> bytes \<Rightarrow> bool \<Rightarrow> nat \<Rightarrow> (index_error, pairs) result" where
  "scan_window env short_name direction resume_key first_batch window_size =
     bind_r (map_err Heed (env_read_txn env)) (\<lambda>_.
       with_event_index env short_name
         (\<lambda>db. collect_window db direction resume_key first_batch window_size))"

text \<open>The \<^verbatim>\<open>loop\<close> of \<^verbatim>\<open>scan_index_windowed\<close>.\<close>

partial_function (option) windowed_loop ::
  "heed_env \<Rightarrow> string \<Rightarrow> ScanDirection \<Rightarrow> nat \<Rightarrow> pairs \<Rightarrow> bytes \<Rightarrow> bool
   \<Rightarrow> (index_error, pairs) result option" where
  "windowed_loop env short_name direction window_size all_results resume_key first_batch =
     (case scan_window env short_name direction resume_key first_batch window_size of
        Inl e \<Rightarrow> Some (Inl e)
      | Inr batch \<Rightarrow>
          if batch = [] then Some (Inr all_results)
          else windowed_loop env short_name direction window_size (all_results @ batch)
                 (fst (last batch)) False)"

definition scan_index_windowed ::
  "heed_env \<Rightarrow> string \<Rightarrow> ScanDirection \<Rightarrow> bytes \<Rightarrow> nat \<Rightarrow> (index_error, pairs) result option" where
  "scan_index_windowed env short_name direction start_key window_size =
     windowed_loop env short_name direction window_size [] start_key True"

definition scan_index_bounded ::
  "heed_env \<Rightarrow> string \<Rightarrow> ScanDirection \<Rightarrow> bytes \<Rightarrow> nat \<Rightarrow> (index_error, pairs) result option" where
  "scan_index_bounded env short_name direction start_key limit =
     (if limit = 0 then scan_index_windowed env short_name direction start_key DEFAULT_WINDOW_SIZE
      else Some (bind_r (map_err Heed (env_read_txn env)) (\<lambda>_.
        with_event_index env short_name (\<lambda>db. collect_bounded db direction start_key limit))))"

definition scan_index_one_window ::
  "heed_env \<Rightarrow> string \<Rightarrow> ScanDirection \<Rightarrow> bytes \<Rightarrow> bool \<Rightarrow> nat
   \<Rightarrow> (index_error, pairs \<times> bytes \<times> bool) result" where
  "scan_index_one_window env short_name direction resume_key first_batch window_size =
     bind_r (scan_window env short_name direction resume_key first_batch window_size) (\<lambda>batch.
       if batch = [] then Inr ([], resume_key, False)
       else Inr (batch, fst (last batch), False))"

section \<open>What a scan ranges over\<close>

text \<open>A record as the scans return it.\<close>

definition decode_entry :: "entry \<Rightarrow> bytes \<times> u64" where
  "decode_entry e = (fst e, value_lev_id (snd e))"

lemma fst_decode_entry [simp]: "fst (decode_entry e) = fst e"
  by (simp add: decode_entry_def)

text \<open>The records from a start key on, in the direction of the scan.\<close>

fun scan_range :: "comparator \<Rightarrow> ScanDirection \<Rightarrow> bytes \<Rightarrow> entry list \<Rightarrow> entry list" where
  "scan_range c Forward k es = filter (\<lambda>e. key_rank c k \<le> key_rank c (fst e)) es"
| "scan_range c Reverse k es = rev (filter (\<lambda>e. key_rank c (fst e) \<le> key_rank c k) es)"

text \<open>The records beyond a key, in the direction of the scan.\<close>

fun beyond :: "comparator \<Rightarrow> ScanDirection \<Rightarrow> bytes \<Rightarrow> bytes \<Rightarrow> bool" where
  "beyond c Forward k k' \<longleftrightarrow> key_rank c k < key_rank c k'"
| "beyond c Reverse k k' \<longleftrightarrow> key_rank c k' < key_rank c k"

fun oriented :: "ScanDirection \<Rightarrow> 'a list \<Rightarrow> 'a list" where
  "oriented Forward xs = xs"
| "oriented Reverse xs = rev xs"

text \<open>
  The records of the cursor a window opens: everything from the start key, or beyond the resume
  key.  A reverse walk from a key at \<^verbatim>\<open>u64::MAX\<close> cannot be bounded from above and reaches only the
  smallest duplicate of that key.
\<close>

definition cursor_range ::
  "comparator \<Rightarrow> entry list \<Rightarrow> ScanDirection \<Rightarrow> bytes \<Rightarrow> bool \<Rightarrow> entry list" where
  "cursor_range c es direction k first =
     (if \<not> first then filter (\<lambda>e. beyond c direction k (fst e)) (oriented direction es)
      else if direction = Forward \<or> snd (reverse_upper_bound k) then scan_range c direction k es
      else take 1 (filter (\<lambda>e. fst e = k) es) @
        rev (filter (\<lambda>e. key_rank c (fst e) < key_rank c k) es))"

section \<open>Windows\<close>

lemma bounded_loop_valid:
  "\<forall>e\<in>set es. length (snd e) = 8 \<Longrightarrow> bounded_loop (map Inr es) = Inr (map decode_entry es)"
  by (induction es) (auto simp: decode_entry_def)

text \<open>A window is a prefix of its range that is full or everything, and ends on a key boundary.\<close>

lemma window_loop_split:
  assumes "\<forall>e\<in>set es. length (snd e) = 8"
  shows "\<exists>R S. es = R @ S \<and> window_loop w res (map Inr es) = Inr (res @ map decode_entry R) \<and>
    (S = [] \<or> w \<le> length res + length R \<and>
      (res @ map decode_entry R = [] \<or> fst (last (res @ map decode_entry R)) \<noteq> fst (hd S)))"
  using assms
proof (induction es arbitrary: res)
  case (Cons e es)
  obtain k v where e: "e = (k, v)"
    by (cases e)
  have v: "length v = 8"
    using Cons.prems e by simp
  show ?case
  proof (cases "w \<le> length res \<and> (res = [] \<or> fst (last res) \<noteq> k)")
    case True
    then have "window_loop w res (map Inr (e # es)) = Inr res"
      using e v by simp
    then show ?thesis
      using True e by (intro exI [of _ "[]"] exI [of _ "e # es"]) simp
  next
    case False
    then have step: "window_loop w res (map Inr (e # es)) =
        window_loop w (res @ [decode_entry e]) (map Inr es)"
      using e v by (auto simp: decode_entry_def)
    obtain R S where RS: "es = R @ S"
      "window_loop w (res @ [decode_entry e]) (map Inr es) =
        Inr ((res @ [decode_entry e]) @ map decode_entry R)"
      "S = [] \<or> w \<le> length (res @ [decode_entry e]) + length R \<and>
        ((res @ [decode_entry e]) @ map decode_entry R = [] \<or>
         fst (last ((res @ [decode_entry e]) @ map decode_entry R)) \<noteq> fst (hd S))"
      using Cons.IH [of "res @ [decode_entry e]"] Cons.prems unfolding list.set by blast
    show ?thesis
      unfolding step by (rule exI [of _ "e # R"], rule exI [of _ S]) (use RS in auto)
  qed
qed auto

lemma window_loop_spec:
  assumes "\<forall>e\<in>set es. length (snd e) = 8" and "0 < w"
  obtains R S where "es = R @ S" "window_loop w [] (map Inr es) = Inr (map decode_entry R)"
    "S \<noteq> [] \<Longrightarrow> w \<le> length R \<and> fst (last R) \<noteq> fst (hd S)" "R = [] \<Longrightarrow> es = []"
proof -
  obtain R S where RS: "es = R @ S" "window_loop w [] (map Inr es) = Inr (map decode_entry R)"
    "S = [] \<or> w \<le> length R \<and> (R = [] \<or> fst (last (map decode_entry R)) \<noteq> fst (hd S))"
    using window_loop_split [OF assms(1), of w "[]"] unfolding append_Nil list.size add_0
      map_is_Nil_conv by blast
  show thesis
  proof (rule that [OF RS(1,2)])
    show "w \<le> length R \<and> fst (last R) \<noteq> fst (hd S)" if "S \<noteq> []"
      using RS(3) that assms(2) by (cases "R = []") (auto simp: last_map)
    show "es = []" if "R = []"
      using RS(1,3) that assms(2) by auto
  qed
qed

section \<open>Resuming a scan\<close>

lemma reverse_upper_bound_rank:
  assumes "valid_key c k" "c \<noteq> DefaultComparator" "u64_from_le (drop (length k - 8) k) \<noteq> u64_MAX"
  obtains k' where "reverse_upper_bound k = (k', True)" "valid_key c k'"
    "key_group c k' = key_group c k" "key_ts k' = key_ts k + 1"
proof -
  let ?ts = "u64_from_le (drop (length k - 8) k)"
  let ?k' = "take (length k - 8) k @ u64_to_le (?ts + 1)"
  have len: "8 \<le> length k"
    using assms(1,2) by (cases c) auto
  then have len': "length ?k' = length k"
    by simp
  show thesis
  proof (rule that [of ?k'])
    show "reverse_upper_bound k = (?k', True)"
      using assms(3) len by (simp add: reverse_upper_bound_def Let_def u64_checked_add_one)
    show "valid_key c ?k'"
      using assms(1) len' by (cases c) auto
    show "key_group c ?k' = key_group c k"
    proof (cases "c = StringUint64Uint64Cmp")
      case True
      then have "length k - 8 - (length k - 16) = 8"
        using assms(1) by simp
      then show ?thesis
        using True assms(1) by (auto simp: drop_take min_def)
    qed (use assms(1,2) len in \<open>cases c; simp add: min_def\<close>)
    have "key_ts ?k' = le_nat (u64_to_le (?ts + 1))"
      using len by (simp add: key_ts_def)
    also have "\<dots> = unat (?ts + 1)"
      by (metis length_u64_to_le u64_le_roundtrip unat_u64_from_le)
    also have "\<dots> = key_ts k + 1"
      using len unat_plus_one_u64 [OF assms(3)] by (simp add: key_ts_def unat_u64_from_le)
    finally show "key_ts ?k' = key_ts k + 1" .
  qed
qed

lemma key_rank_less_succ:
  assumes "key_group c k' = key_group c k" "key_ts k' = key_ts k + 1"
  shows "key_rank c x < key_rank c k' \<longleftrightarrow> key_rank c x \<le> key_rank c k"
  using assms by (auto simp: key_rank_def)

context lmdb_index
begin

lemma set_cursor_range: "set (cursor_range c es direction k first) \<subseteq> set es"
  by (cases direction) (auto simp: cursor_range_def dest: in_set_takeD)

lemma cursor_range_reverse_max:
  assumes "valid_key c k" "\<forall>e\<in>set es. fst e \<noteq> k"
  shows "cursor_range c es Reverse k True = scan_range c Reverse k es"
proof -
  have "filter (\<lambda>e. key_rank c (fst e) < key_rank c k) es = filter (\<lambda>e. key_rank c (fst e) \<le> key_rank c k) es"
    using assms rank_eq_iff by (intro filter_cong) (auto simp: order_le_less)
  moreover have "filter (\<lambda>e. fst e = k) es = []"
    using assms(2) by (auto simp: filter_empty_conv)
  ultimately show ?thesis
    by (simp add: cursor_range_def)
qed

lemma collect_window_loop:
  assumes "valid_key c k" "c \<noteq> DefaultComparator"
  shows "collect_window db direction k first w =
    window_loop w [] (map Inr (cursor_range c es direction k first))"
proof (cases "direction = Reverse \<and> first")
  case True
  have len: "8 \<le> length k"
    using assms by (cases c) auto
  show ?thesis
  proof (cases "u64_from_le (drop (length k - 8) k) = u64_MAX")
    case max: True
    then have "reverse_upper_bound k = (k, False)"
      using len by (simp add: reverse_upper_bound_def Let_def u64_checked_add_one)
    then show ?thesis
      using True assms by (simp add: collect_window_def cursor_range_def rev_range_included)
  next
    case False
    obtain k' where k': "reverse_upper_bound k = (k', True)" "valid_key c k'"
      "key_group c k' = key_group c k" "key_ts k' = key_ts k + 1"
      using reverse_upper_bound_rank [OF assms False] by blast
    then show ?thesis
      using True by (simp add: collect_window_def cursor_range_def rev_range_excluded
          key_rank_less_succ [OF k'(3,4)])
  qed
next
  case False
  then show ?thesis
    using assms by (cases direction)
      (auto simp: collect_window_def cursor_range_def range_included range_excluded
        rev_range_excluded rev_filter)
qed

lemma collect_bounded_cursor:
  assumes "valid_key c k" "c \<noteq> DefaultComparator"
  shows "collect_bounded db direction k limit =
    bounded_loop (take limit (map Inr (cursor_range c es direction k True)))"
proof (cases direction)
  case Forward
  then show ?thesis
    using assms by (simp add: collect_bounded_def cursor_range_def range_included)
next
  case Reverse
  have len: "8 \<le> length k"
    using assms by (cases c) auto
  show ?thesis
  proof (cases "u64_from_le (drop (length k - 8) k) = u64_MAX")
    case True
    then have "reverse_upper_bound k = (k, False)"
      using len by (simp add: reverse_upper_bound_def Let_def u64_checked_add_one)
    then show ?thesis
      using Reverse assms by (simp add: collect_bounded_def cursor_range_def rev_range_included)
  next
    case False
    obtain k' where k': "reverse_upper_bound k = (k', True)" "valid_key c k'"
      "key_group c k' = key_group c k" "key_ts k' = key_ts k + 1"
      using reverse_upper_bound_rank [OF assms False] by blast
    then show ?thesis
      using Reverse by (simp add: collect_bounded_def cursor_range_def rev_range_excluded
          key_rank_less_succ [OF k'(3,4)])
  qed
qed

lemma oriented_sorted:
  "sorted_wrt (\<lambda>e f. \<not> beyond c direction (fst f) (fst e)) (oriented direction es)"
  using keys_sorted by (cases direction) (auto simp: sorted_wrt_rev not_less)

lemma cursor_range_sorted:
  "sorted_wrt (\<lambda>e f. \<not> beyond c direction (fst f) (fst e)) (cursor_range c es direction k first)"
proof (cases direction)
  case Forward
  then show ?thesis
    using oriented_sorted [of direction] by (auto simp: cursor_range_def intro: sorted_wrt_filter)
next
  case Reverse
  have s: "sorted_wrt (\<lambda>e f. key_rank c (fst f) \<le> key_rank c (fst e)) (rev es)"
    using keys_sorted by (simp add: sorted_wrt_rev)
  have "sorted_wrt (\<lambda>e f. key_rank c (fst f) \<le> key_rank c (fst e))
     (take 1 (filter (\<lambda>e. fst e = k) es) @ rev (filter (\<lambda>e. key_rank c (fst e) < key_rank c k) es))"
  proof (cases "filter (\<lambda>e. fst e = k) es")
    case (Cons e xs)
    then have "fst e = k"
      by (auto simp: filter_eq_Cons_iff)
    then show ?thesis
      using s Cons by (auto simp: rev_filter sorted_wrt_filter)
  qed (use s in \<open>simp add: rev_filter sorted_wrt_filter\<close>)
  then show ?thesis
    using Reverse s by (auto simp: cursor_range_def rev_filter sorted_wrt_filter not_less)
qed

lemma beyond_trans:
  "\<not> beyond c direction k2 k1 \<Longrightarrow> beyond c direction k2 k3 \<Longrightarrow> beyond c direction k1 k3"
  by (cases direction) auto

lemma beyond_trans':
  "beyond c direction k1 k2 \<Longrightarrow> \<not> beyond c direction k3 k2 \<Longrightarrow> beyond c direction k1 k3"
  by (cases direction) auto

lemma beyond_total:
  "e \<in> set es \<Longrightarrow> f \<in> set es \<Longrightarrow> fst e \<noteq> fst f \<Longrightarrow>
   \<not> beyond c direction (fst f) (fst e) \<Longrightarrow> beyond c direction (fst e) (fst f)"
  using rank_eq_iff [of e "fst f"] key_valid [of f] by (cases direction) auto

text \<open>Beyond a record of a cursor's range lie the rest of that range and nothing else.\<close>

lemma cursor_range_beyond:
  assumes "e \<in> set (cursor_range c es direction k first)"
  shows "filter (\<lambda>f. beyond c direction (fst e) (fst f)) (oriented direction es) =
    filter (\<lambda>f. beyond c direction (fst e) (fst f)) (cursor_range c es direction k first)"
proof (cases direction)
  case Forward
  then show ?thesis
    using assms by (auto simp: cursor_range_def intro!: filter_cong split: if_splits)
next
  case Reverse
  have le: "key_rank c (fst e) \<le> key_rank c k" if first
    using assms Reverse that
    by (auto simp: cursor_range_def dest!: in_set_takeD split: if_splits)
  have "filter (\<lambda>f. key_rank c (fst f) < key_rank c (fst e)) (take 1 (filter (\<lambda>e. fst e = k) es)) = []"
    if first
    using le [OF that] by (auto simp: filter_empty_conv dest!: in_set_takeD)
  then show ?thesis
    using assms Reverse le
    by (auto simp: cursor_range_def rev_filter intro!: filter_cong split: if_splits)
qed

lemma cursor_range_resume:
  assumes RS: "cursor_range c es direction k first = R @ S" and "R \<noteq> []"
    and boundary: "S \<noteq> [] \<Longrightarrow> fst (last R) \<noteq> fst (hd S)"
  shows "cursor_range c es direction (fst (last R)) False = S"
proof -
  let ?k = "fst (last R)"
  have last: "last R \<in> set (cursor_range c es direction k first)"
    using RS assms(2) by simp
  have sorted: "sorted_wrt (\<lambda>e f. \<not> beyond c direction (fst f) (fst e)) (R @ S)"
    using cursor_range_sorted [of direction k first] RS by simp
  have "sorted_wrt (\<lambda>e f. \<not> beyond c direction (fst f) (fst e)) (butlast R @ [last R])"
    using sorted assms(2) by (simp add: sorted_wrt_append)
  then have before: "\<forall>e\<in>set R. \<not> beyond c direction ?k (fst e)"
    using assms(2) by (cases R rule: rev_cases; cases direction) (auto simp: sorted_wrt_append)
  have after: "\<forall>f\<in>set S. beyond c direction ?k (fst f)"
  proof (cases S)
    case (Cons s S')
    have "set (R @ S) \<subseteq> set es"
      using set_cursor_range [of direction k first] RS by simp
    moreover have "last R \<in> set R"
      using assms(2) by simp
    ultimately have "beyond c direction ?k (fst s)"
      using beyond_total [of "last R" s] sorted boundary Cons by (auto simp: sorted_wrt_append)
    moreover have "\<forall>f\<in>set S'. \<not> beyond c direction (fst f) (fst s)"
      using sorted Cons by (simp add: sorted_wrt_append)
    ultimately show ?thesis
      unfolding Cons list.set by (blast intro: beyond_trans')
  qed simp
  have "cursor_range c es direction ?k False =
      filter (\<lambda>f. beyond c direction ?k (fst f)) (R @ S)"
    using cursor_range_beyond [OF last] RS by (simp add: cursor_range_def)
  also have "\<dots> = S"
    using before after by (auto simp: filter_empty_conv)
  finally show ?thesis .
qed

lemma cursor_range_empty:
  "cursor_range c es direction k first = [] \<Longrightarrow> cursor_range c es direction k False = []"
  by (cases direction) (auto simp: cursor_range_def filter_empty_conv split: if_splits)

lemma collect_window_spec:
  assumes "valid_key c k" "c \<noteq> DefaultComparator" "0 < w"
  obtains R S where "collect_window db direction k first w = Inr (map decode_entry R)"
    "cursor_range c es direction k first = R @ S" "S \<noteq> [] \<Longrightarrow> w \<le> length R"
    "R = [] \<Longrightarrow> S = []" "R \<noteq> [] \<Longrightarrow> cursor_range c es direction (fst (last R)) False = S"
    "R \<noteq> [] \<Longrightarrow> valid_key c (fst (last R))"
proof -
  let ?xs = "cursor_range c es direction k first"
  have "\<forall>e\<in>set ?xs. length (snd e) = 8"
    using set_cursor_range value_length by blast
  then obtain R S where RS: "?xs = R @ S" "window_loop w [] (map Inr ?xs) = Inr (map decode_entry R)"
    "S \<noteq> [] \<Longrightarrow> w \<le> length R \<and> fst (last R) \<noteq> fst (hd S)" "R = [] \<Longrightarrow> ?xs = []"
    using assms(3) by (rule window_loop_spec) blast
  show thesis
  proof (rule that)
    show "collect_window db direction k first w = Inr (map decode_entry R)"
      using collect_window_loop [OF assms(1,2)] RS(2) by simp
    show "?xs = R @ S" by (rule RS(1))
    show "w \<le> length R" if "S \<noteq> []"
      using RS(3) that by simp
    show "S = []" if "R = []"
      using RS(1) RS(4) that by simp
    show "cursor_range c es direction (fst (last R)) False = S" if "R \<noteq> []"
      using cursor_range_resume [OF RS(1) that] RS(3) by simp
    show "valid_key c (fst (last R))" if "R \<noteq> []"
      using set_cursor_range [of direction k first] RS(1) that by (intro key_valid) auto
  qed
qed

text \<open>The windowed loop ends, and its windows concatenate to the whole range.\<close>

lemma windowed_loop_exact:
  assumes env: "env_read_txn env = Inr ()"
    "\<And>f :: heed_db \<Rightarrow> (index_error, pairs) result. with_event_index env short_name f = f db"
    and "valid_key c k" "c \<noteq> DefaultComparator" "0 < w"
  shows "windowed_loop env short_name direction w acc k first =
    Some (Inr (acc @ map decode_entry (cursor_range c es direction k first)))"
  using assms(3)
proof (induction "length (cursor_range c es direction k first)" arbitrary: k first acc
    rule: less_induct)
  case less
  obtain R S where RS: "collect_window db direction k first w = Inr (map decode_entry R)"
    "cursor_range c es direction k first = R @ S" "R = [] \<Longrightarrow> S = []"
    "R \<noteq> [] \<Longrightarrow> cursor_range c es direction (fst (last R)) False = S"
    "R \<noteq> [] \<Longrightarrow> valid_key c (fst (last R))"
    by (rule collect_window_spec [OF less.prems assms(4,5), of direction first]) blast
  have scan: "scan_window env short_name direction k first w = Inr (map decode_entry R)"
    using RS(1) by (simp add: scan_window_def env)
  show ?case
  proof (cases "R = []")
    case True
    then show ?thesis
      using scan RS(2,3) by (subst windowed_loop.simps) simp
  next
    case False
    have "windowed_loop env short_name direction w (acc @ map decode_entry R) (fst (last R)) False =
      Some (Inr ((acc @ map decode_entry R) @ map decode_entry S))"
      using less.hyps [of "fst (last R)" False "acc @ map decode_entry R"] RS False by simp
    then show ?thesis
      using scan RS(2) False by (subst windowed_loop.simps) (simp add: last_map)
  qed
qed

end

section \<open>The scans of a served index\<close>

lemma serves_index_golpe: "serves_index env short_name c es \<Longrightarrow> c \<noteq> DefaultComparator"
  by (auto simp: serves_index_def index_comparator_def split: if_splits)

lemma cursor_range_scan_range:
  assumes "lmdb_index c db es" "valid_key c k"
    and "direction = Reverse \<Longrightarrow> snd (reverse_upper_bound k) \<or> (\<forall>e\<in>set es. fst e \<noteq> k)"
  shows "cursor_range c es direction k True = scan_range c direction k es"
proof (cases "direction = Forward \<or> snd (reverse_upper_bound k)")
  case False
  then show ?thesis
    using assms lmdb_index.cursor_range_reverse_max [OF assms(1,2)] by (cases direction) auto
qed (auto simp: cursor_range_def)

lemma served_cursor_range:
  assumes "serves_index env short_name c es" "valid_key c k"
    and "direction = Reverse \<Longrightarrow>
      u64_from_le (drop (length k - 8) k) \<noteq> u64_MAX \<or> (\<forall>e\<in>set es. fst e \<noteq> k)"
  shows "cursor_range c es direction k True = scan_range c direction k es"
proof -
  obtain db where db: "lmdb_index c db es"
    using assms(1) by (auto simp: serves_index_def)
  have "direction = Reverse \<Longrightarrow> snd (reverse_upper_bound k) \<or> (\<forall>e\<in>set es. fst e \<noteq> k)"
    using assms(3) reverse_upper_bound_rank [OF assms(2) serves_index_golpe [OF assms(1)]]
    by (metis snd_conv)
  then show ?thesis
    using cursor_range_scan_range [OF db assms(2)] by simp
qed

lemma scan_windowed_cursor_range:
  assumes "serves_index env short_name c es" "valid_key c start_key" "0 < window_size"
  shows "scan_index_windowed env short_name direction start_key window_size =
    Some (Inr (map decode_entry (cursor_range c es direction start_key True)))"
proof -
  obtain db where "env_read_txn env = Inr ()" "lmdb_index c db es"
    "\<forall>f :: heed_db \<Rightarrow> (index_error, pairs) result. with_event_index env short_name f = f db"
    using assms(1) by (rule serves_indexE)
  then show ?thesis
    using lmdb_index.windowed_loop_exact [of c db es env short_name start_key window_size direction "[]" True]
      serves_index_golpe [OF assms(1)] assms(2,3)
    by (simp add: scan_index_windowed_def)
qed

text \<open>
  What the merge relies on: one window returns a prefix of the cursor's range, not empty unless
  the range is, together with a resume key from which the next window continues exactly there.
\<close>

locale window_source =
  fixes scan :: "heed_env \<Rightarrow> string \<Rightarrow> ScanDirection \<Rightarrow> bytes \<Rightarrow> bool \<Rightarrow> nat
    \<Rightarrow> (index_error, pairs \<times> bytes \<times> bool) result"
  assumes window: "serves_index env short_name c es \<Longrightarrow> valid_key c k \<Longrightarrow> 0 < w \<Longrightarrow>
      \<exists>R S k'. scan env short_name direction k first w = Inr (map decode_entry R, k', False) \<and>
        cursor_range c es direction k first = R @ S \<and>
        cursor_range c es direction k' False = S \<and> valid_key c k' \<and> (R = [] \<longrightarrow> S = []) \<and>
        (R \<noteq> [] \<longrightarrow> k' = fst (last R))"

interpretation one_window: window_source scan_index_one_window
proof unfold_locales
  fix env short_name c es k w direction first
  assume asm: "serves_index env short_name c es" "valid_key c k" "0 < (w::nat)"
  obtain db where db: "env_read_txn env = Inr ()" "lmdb_index c db es"
    "\<forall>f :: heed_db \<Rightarrow> (index_error, pairs) result. with_event_index env short_name f = f db"
    using asm(1) by (rule serves_indexE)
  obtain R S where RS: "collect_window db direction k first w = Inr (map decode_entry R)"
    "cursor_range c es direction k first = R @ S" "R = [] \<Longrightarrow> S = []"
    "R \<noteq> [] \<Longrightarrow> cursor_range c es direction (fst (last R)) False = S"
    "R \<noteq> [] \<Longrightarrow> valid_key c (fst (last R))"
    by (rule lmdb_index.collect_window_spec [OF db(2) asm(2) serves_index_golpe [OF asm(1)] asm(3),
          of direction first]) blast
  have scan: "scan_index_one_window env short_name direction k first w =
      (if R = [] then Inr ([], k, False) else Inr (map decode_entry R, fst (last R), False))"
    using RS(1) by (simp add: scan_index_one_window_def scan_window_def db last_map)
  show "\<exists>R S k'. scan_index_one_window env short_name direction k first w =
        Inr (map decode_entry R, k', False) \<and>
      cursor_range c es direction k first = R @ S \<and>
      cursor_range c es direction k' False = S \<and> valid_key c k' \<and> (R = [] \<longrightarrow> S = []) \<and>
      (R \<noteq> [] \<longrightarrow> k' = fst (last R))"
  proof (cases "R = []")
    case True
    then show ?thesis
      using scan RS(2,3) asm(2) lmdb_index.cursor_range_empty [OF db(2), of direction k first]
      by (intro exI [of _ "[]"] exI [of _ k]) simp
  next
    case False
    then show ?thesis
      using scan RS by (intro exI [of _ R] exI [of _ S] exI [of _ "fst (last R)"]) simp
  qed
qed

lemma scan_bounded_range:
  assumes "serves_index env short_name c es" "valid_key c start_key" "0 < limit"
    and "direction = Reverse \<Longrightarrow>
      u64_from_le (drop (length start_key - 8) start_key) \<noteq> u64_MAX \<or> (\<forall>e\<in>set es. fst e \<noteq> start_key)"
  shows "scan_index_bounded env short_name direction start_key limit =
    Some (Inr (map decode_entry (take limit (scan_range c direction start_key es))))"
proof -
  obtain db where db: "env_read_txn env = Inr ()" "lmdb_index c db es"
    "\<forall>f :: heed_db \<Rightarrow> (index_error, pairs) result. with_event_index env short_name f = f db"
    using assms(1) by (rule serves_indexE)
  have range: "cursor_range c es direction start_key True = scan_range c direction start_key es"
    by (rule served_cursor_range [OF assms(1,2,4)])
  have "\<forall>e\<in>set (take limit (scan_range c direction start_key es)). length (snd e) = 8"
    using lmdb_index.set_cursor_range [OF db(2), of direction start_key True]
      lmdb_index.value_length [OF db(2)] range by (auto dest!: in_set_takeD)
  then show ?thesis
    using assms(3) lmdb_index.collect_bounded_cursor [OF db(2) assms(2) serves_index_golpe [OF assms(1)]]
    by (simp add: scan_index_bounded_def db range take_map bounded_loop_valid)
qed

section \<open>Properties\<close>

lemma example_start:
  "valid_key Uint64Uint64Cmp (example_key 255 100)"
  "u64_from_le (drop (length (example_key 255 100) - 8) (example_key 255 100)) \<noteq> u64_MAX"
  by code_simp+

lemma example_range:
  "map decode_entry (scan_range Uint64Uint64Cmp Reverse (example_key 255 100)
      (mem_entries Uint64Uint64Cmp example_kinds)) =
    [(example_key 255 5, 1), (example_key 1 10, 300), (example_key 1 10, 7), (example_key 1 9, 4)]"
  by code_simp

text \<open>
  C3: the windowed scan of an index ends and returns exactly the records of the index from the
  start key on, in cursor order (ascending forward, descending in reverse) and each once,
  whatever the window size: no duplicate group is split, dropped or repeated at a window
  boundary.  In reverse the start key must be below \<^verbatim>\<open>u64::MAX\<close> or absent from the index.
\<close>

theorem scan_index_windowed_exact:
  assumes "serves_index env short_name c es" "valid_key c start_key" "0 < window_size"
    and "direction = Reverse \<Longrightarrow>
      u64_from_le (drop (length start_key - 8) start_key) \<noteq> u64_MAX \<or> (\<forall>e\<in>set es. fst e \<noteq> start_key)"
  shows "scan_index_windowed env short_name direction start_key window_size =
    Some (Inr (map decode_entry (scan_range c direction start_key es)))"
  using scan_windowed_cursor_range [OF assms(1-3)] served_cursor_range [OF assms(1,2,4)] by simp

theorem scan_index_windowed_exact_witness:
  "scan_index_windowed example_env ''Event__kind'' Reverse (example_key 255 100) 1 =
   Some (Inr [(example_key 255 5, 1), (example_key 1 10, 300), (example_key 1 10, 7), (example_key 1 9, 4)])"
  using scan_index_windowed_exact [OF example_env_serves, of "example_key 255 100" 1 Reverse]
    example_start example_range
  by simp

text \<open>
  A bounded scan with a positive limit returns the first \<open>limit\<close> records of that range.
\<close>

theorem scan_index_bounded_exact:
  assumes "serves_index env short_name c es" "valid_key c start_key" "0 < limit"
    and "direction = Reverse \<Longrightarrow>
      u64_from_le (drop (length start_key - 8) start_key) \<noteq> u64_MAX \<or> (\<forall>e\<in>set es. fst e \<noteq> start_key)"
  shows "scan_index_bounded env short_name direction start_key limit =
    Some (Inr (map decode_entry (take limit (scan_range c direction start_key es))))"
  using assms by (rule scan_bounded_range)

theorem scan_index_bounded_exact_witness:
  "scan_index_bounded example_env ''Event__kind'' Reverse (example_key 255 100) 2 =
   Some (Inr [(example_key 255 5, 1), (example_key 1 10, 300)])"
  using scan_index_bounded_exact [OF example_env_serves, of "example_key 255 100" 2 Reverse]
    example_start example_range
  by (simp add: take_map [symmetric])

end
