(* ===== verification/Router.thy ===== *)
theory Router
  imports QueryFilter Scan
begin

text \<open>
  \<^verbatim>\<open>query/router.rs\<close>: choosing the index for a filter, building one start key per value prefix and
  reading \<^verbatim>\<open>created_at\<close> back from a key.  The lemmas show that hex decoding inverts hex encoding,
  that every start key is well formed for the comparator of the index it is built for, so that
  no comparator aborts on it, and that the keys are exactly one per requested prefix.
\<close>

unbundle bit_operations_syntax

section \<open>Hex\<close>

text \<open>The errors are the position of the offending byte, or the odd length.\<close>

datatype hex_error = OddLength nat | InvalidHex nat

definition nibble :: "u8 \<Rightarrow> u8 option" where
  "nibble b =
     (if 48 \<le> b \<and> b \<le> 57 then Some (b - 48)
      else if 97 \<le> b \<and> b \<le> 102 then Some (b - 97 + 10)
      else if 65 \<le> b \<and> b \<le> 70 then Some (b - 65 + 10)
      else None)"

text \<open>The loop \<^verbatim>\<open>for i in (0..len).step_by(2)\<close>; \<open>i\<close> is the position for the error.\<close>

fun decode_hex_loop :: "nat \<Rightarrow> bytes \<Rightarrow> (hex_error, bytes) result" where
  "decode_hex_loop i (a # b # bs) =
     bind_r (ok_or (InvalidHex i) (nibble a)) (\<lambda>hi.
     bind_r (ok_or (InvalidHex (i + 1)) (nibble b)) (\<lambda>lo.
     map_ok (Cons (push_bit 4 hi OR lo)) (decode_hex_loop (i + 2) bs)))"
| "decode_hex_loop i _ = Inr []"

definition decode_hex :: "string \<Rightarrow> (hex_error, bytes) result" where
  "decode_hex s =
     (if length s mod 2 \<noteq> 0 then Inl (OddLength (length s)) else decode_hex_loop 0 (as_bytes s))"

definition decode_pubkey_warn :: "string \<Rightarrow> bytes option" where
  "decode_pubkey_warn hex_pk =
     (case decode_hex hex_pk of
        Inr bytes \<Rightarrow> if length bytes = 32 then Some bytes else None
      | Inl _ \<Rightarrow> None)"

section \<open>Index selection\<close>

datatype SelectedIndex = Single string | Multi string

definition select_index :: "NostrFilter \<Rightarrow> SelectedIndex" where
  "select_index flt =
     (if f_ids flt \<noteq> None then Single ''Event__id''
      else if f_authors flt \<noteq> None \<and> f_kinds flt \<noteq> None then Multi ''Event__pubkeyKind''
      else if f_authors flt \<noteq> None then Multi ''Event__pubkey''
      else if f_kinds flt \<noteq> None then Multi ''Event__kind''
      else if f_tags flt \<noteq> None then Multi ''Event__tag''
      else Single ''Event__created_at'')"

section \<open>Start keys\<close>

definition unwrap_or_empty :: "'a list option \<Rightarrow> 'a list" where
  "unwrap_or_empty x = (case x of None \<Rightarrow> [] | Some xs \<Rightarrow> xs)"

definition id_keys :: "NostrFilter \<Rightarrow> bytes \<Rightarrow> bytes list" where
  "id_keys flt ts_bytes =
     List.map_filter (\<lambda>hex_id. case decode_hex hex_id of
         Inr bytes \<Rightarrow> if length bytes = 32 then Some (bytes @ ts_bytes) else None
       | Inl _ \<Rightarrow> None) (unwrap_or_empty (f_ids flt))"

definition pubkey_keys :: "NostrFilter \<Rightarrow> bytes \<Rightarrow> bytes list" where
  "pubkey_keys flt ts_bytes =
     List.map_filter (\<lambda>hex_pk. map_option (\<lambda>pk. pk @ ts_bytes) (decode_pubkey_warn hex_pk))
       (unwrap_or_empty (f_authors flt))"

definition kind_keys :: "NostrFilter \<Rightarrow> bytes \<Rightarrow> bytes list" where
  "kind_keys flt ts_bytes =
     map (\<lambda>kind. u64_to_le kind @ ts_bytes) (unwrap_or_empty (f_kinds flt))"

definition pubkey_kind_keys :: "NostrFilter \<Rightarrow> bytes \<Rightarrow> bytes list" where
  "pubkey_kind_keys flt ts_bytes =
     concat (map (\<lambda>hex_pk. case decode_pubkey_warn hex_pk of
         Some pk \<Rightarrow> map (\<lambda>kind. pk @ u64_to_le kind @ ts_bytes) (unwrap_or_empty (f_kinds flt))
       | None \<Rightarrow> []) (unwrap_or_empty (f_authors flt)))"

text \<open>strfry's rule for a tag value: 64 lowercase hex digits are stored decoded, all else as is.\<close>

definition is_lower_hex :: "u8 \<Rightarrow> bool" where
  "is_lower_hex b \<longleftrightarrow> 48 \<le> b \<and> b \<le> 57 \<or> 97 \<le> b \<and> b \<le> 102"

definition tag_value_bytes :: "string \<Rightarrow> bytes" where
  "tag_value_bytes v =
     (if length v = 64 \<and> list_all is_lower_hex (as_bytes v)
      then (case decode_hex v of Inr bytes \<Rightarrow> bytes | Inl _ \<Rightarrow> as_bytes v)
      else as_bytes v)"

definition tag_keys :: "NostrFilter \<Rightarrow> bytes \<Rightarrow> bytes list" where
  "tag_keys flt ts_bytes =
     concat (map (\<lambda>tag. if length (tag_name tag) \<noteq> 1 then []
         else map (\<lambda>v. hd (as_bytes (tag_name tag)) # tag_value_bytes v @ ts_bytes) (tag_values tag))
       (unwrap_or_empty (f_tags flt)))"

text \<open>
  \<^verbatim>\<open>build_start_keys\<close>; the final \<^verbatim>\<open>sort\<close> is lexicographic on bytes and \<^verbatim>\<open>dedup\<close> removes equal
  neighbours.
\<close>

definition build_start_keys :: "NostrFilter \<Rightarrow> SelectedIndex \<Rightarrow> ScanDirection \<Rightarrow> bytes list" where
  "build_start_keys flt selected direction =
     (let ts = (case direction of
                  Reverse \<Rightarrow> (case f_until flt of None \<Rightarrow> u64_MAX | Some t \<Rightarrow> t)
                | Forward \<Rightarrow> (case f_since flt of None \<Rightarrow> 0 | Some t \<Rightarrow> t));
          ts_bytes = u64_to_le ts;
          keys = (if selected = Single ''Event__id'' then id_keys flt ts_bytes
                  else if selected = Multi ''Event__pubkey'' then pubkey_keys flt ts_bytes
                  else if selected = Multi ''Event__kind'' then kind_keys flt ts_bytes
                  else if selected = Multi ''Event__pubkeyKind'' then pubkey_kind_keys flt ts_bytes
                  else if selected = Multi ''Event__tag'' then tag_keys flt ts_bytes
                  else if selected = Single ''Event__created_at'' then [ts_bytes]
                  else [])
      in remdups_adj (sort keys))"

text \<open>A key shorter than 8 bytes gives 0.\<close>

definition created_at_from_key :: "bytes \<Rightarrow> u64" where
  "created_at_from_key key =
     (let offset = length key - 8; suffix = drop offset key
      in u64_from_le (if length suffix = 8 then suffix else replicate 8 0))"

text \<open>\<^verbatim>\<open>index_short_name\<close> of \<^verbatim>\<open>query/engine.rs\<close>: the name in a selection.\<close>

definition index_short_name :: "SelectedIndex \<Rightarrow> string" where
  "index_short_name selected = (case selected of Single name \<Rightarrow> name | Multi name \<Rightarrow> name)"

section \<open>What the router is meant to compute\<close>

definition hex_digit :: "u8 \<Rightarrow> u8" where
  "hex_digit n = (if n < 10 then 48 + n else 87 + n)"

text \<open>Lowercase hex of a byte string, the encoding decoded by \<^const>\<open>decode_hex\<close>.\<close>

definition hex_bytes :: "bytes \<Rightarrow> bytes" where
  "hex_bytes bs = concat (map (\<lambda>b. [hex_digit (drop_bit 4 b), hex_digit (b AND 15)]) bs)"

text \<open>The time bound of a scan and the value prefixes a filter asks for.\<close>

definition start_ts :: "NostrFilter \<Rightarrow> ScanDirection \<Rightarrow> u64" where
  "start_ts flt direction =
     (case direction of Reverse \<Rightarrow> (case f_until flt of None \<Rightarrow> u64_MAX | Some t \<Rightarrow> t)
      | Forward \<Rightarrow> (case f_since flt of None \<Rightarrow> 0 | Some t \<Rightarrow> t))"

definition start_prefixes :: "NostrFilter \<Rightarrow> SelectedIndex \<Rightarrow> bytes set" where
  "start_prefixes flt selected =
     (if selected = Single ''Event__id'' then
        {id. length id = 32 \<and> (\<exists>s\<in>set (unwrap_or_empty (f_ids flt)). decode_hex s = Inr id)}
      else if selected = Multi ''Event__pubkey'' then
        {pk. \<exists>s\<in>set (unwrap_or_empty (f_authors flt)). decode_pubkey_warn s = Some pk}
      else if selected = Multi ''Event__kind'' then
        {u64_to_le kind |kind. kind \<in> set (unwrap_or_empty (f_kinds flt))}
      else if selected = Multi ''Event__pubkeyKind'' then
        {pk @ u64_to_le kind |pk kind. kind \<in> set (unwrap_or_empty (f_kinds flt)) \<and>
           (\<exists>s\<in>set (unwrap_or_empty (f_authors flt)). decode_pubkey_warn s = Some pk)}
      else if selected = Multi ''Event__tag'' then
        {hd (as_bytes (tag_name tag)) # tag_value_bytes v |tag v.
           tag \<in> set (unwrap_or_empty (f_tags flt)) \<and> length (tag_name tag) = 1 \<and> v \<in> set (tag_values tag)}
      else if selected = Single ''Event__created_at'' then {[]} else {})"

section \<open>Hex\<close>

lemma nibble_hex_digit:
  assumes "n < 16"
  shows "nibble (hex_digit n) = Some n"
proof -
  have "list_all (\<lambda>k. nibble (hex_digit (word_of_nat k)) = Some (word_of_nat k)) [0..<16]"
    by code_simp
  moreover have "unat n \<in> set [0..<16]"
    using assms by (simp add: word_less_nat_alt)
  ultimately have "nibble (hex_digit (word_of_nat (unat n))) = Some (word_of_nat (unat n))"
    unfolding list_all_iff by blast
  then show ?thesis
    by simp
qed

lemma and_15: "b AND 15 = take_bit 4 (b::u8)"
proof -
  have "(15::u8) = mask 4"
    by (simp add: mask_eq_exp_minus_1)
  then show ?thesis
    by (simp only: take_bit_eq_mask)
qed

lemma nibble_recombine: "push_bit 4 (drop_bit 4 b) OR (b AND 15) = (b::u8)"
  unfolding and_15 by (rule bit_eqI) (auto simp: bit_simps)

lemma nibble_bounds: "drop_bit 4 (b::u8) < 16" "(b AND 15) < (16::u8)"
proof -
  show "drop_bit 4 b < 16"
    using unat_less_u8 [of b] by (simp add: word_less_nat_alt drop_bit_eq_div unat_div)
  show "(b AND 15) < (16::u8)"
    using take_bit_nat_less_exp [of 4 "unat b"]
    by (simp add: and_15 word_less_nat_alt unsigned_take_bit_eq)
qed

lemma decode_hex_loop_hex_bytes: "decode_hex_loop i (hex_bytes bs) = Inr bs"
  by (induction bs arbitrary: i)
    (simp_all add: hex_bytes_def nibble_hex_digit nibble_bounds nibble_recombine)

lemma decode_hex_loop_length: "decode_hex_loop i bs = Inr out \<Longrightarrow> length out = length bs div 2"
  by (induction i bs arbitrary: out rule: decode_hex_loop.induct)
    (auto simp: result_eqs map_ok_eq_Inr)

lemma created_at_from_key_append [simp]: "created_at_from_key (p @ u64_to_le ts) = ts"
  by (simp add: created_at_from_key_def)

lemma created_at_from_key_ts: "8 \<le> length k \<Longrightarrow> unat (created_at_from_key k) = key_ts k"
  by (simp add: created_at_from_key_def key_ts_def unat_u64_from_le)

section \<open>Keys\<close>

lemma sorted_distinct_keys: "sorted_wrt (<) (build_start_keys flt selected direction)"
  by (simp add: build_start_keys_def Let_def sorted_remdups_adj_strict)

lemma decode_pubkey_warn_length: "decode_pubkey_warn s = Some pk \<Longrightarrow> length pk = 32"
  by (auto simp: decode_pubkey_warn_def split: sum.splits if_splits)

lemma set_map_filter: "set (List.map_filter f xs) = {y. \<exists>x\<in>set xs. f x = Some y}"
  by (auto simp: List.map_filter_def image_iff) (metis option.sel)+

lemma set_id_keys: "set (id_keys flt t) = (\<lambda>p. p @ t) `
    {id. length id = 32 \<and> (\<exists>s\<in>set (unwrap_or_empty (f_ids flt)). decode_hex s = Inr id)}"
proof -
  have "(case decode_hex s of Inr bytes \<Rightarrow> if length bytes = 32 then Some (bytes @ t) else None
      | Inl _ \<Rightarrow> None) = Some k \<longleftrightarrow> (\<exists>id. k = id @ t \<and> length id = 32 \<and> decode_hex s = Inr id)" for s k
    by (cases "decode_hex s") auto
  then show ?thesis
    by (auto simp: id_keys_def set_map_filter)
qed

lemma set_pubkey_keys: "set (pubkey_keys flt t) = (\<lambda>p. p @ t) `
    {pk. \<exists>s\<in>set (unwrap_or_empty (f_authors flt)). decode_pubkey_warn s = Some pk}"
  by (auto simp: pubkey_keys_def set_map_filter)

lemma set_kind_keys: "set (kind_keys flt t) = (\<lambda>p. p @ t) `
    {u64_to_le kind |kind. kind \<in> set (unwrap_or_empty (f_kinds flt))}"
  by (auto simp: kind_keys_def)

lemma set_pubkey_kind_keys: "set (pubkey_kind_keys flt t) = (\<lambda>p. p @ t) `
    {pk @ u64_to_le kind |pk kind. kind \<in> set (unwrap_or_empty (f_kinds flt)) \<and>
       (\<exists>s\<in>set (unwrap_or_empty (f_authors flt)). decode_pubkey_warn s = Some pk)}"
proof -
  have "k \<in> set (case decode_pubkey_warn s of None \<Rightarrow> []
        | Some pk \<Rightarrow> map (\<lambda>kind. pk @ u64_to_le kind @ t) (unwrap_or_empty (f_kinds flt))) \<longleftrightarrow>
      (\<exists>pk kind. decode_pubkey_warn s = Some pk \<and> kind \<in> set (unwrap_or_empty (f_kinds flt)) \<and>
        k = (pk @ u64_to_le kind) @ t)" for s k
    by (cases "decode_pubkey_warn s") auto
  then show ?thesis
    unfolding pubkey_kind_keys_def set_concat set_map image_image set_eq_iff UN_iff by (simp only:) blast
qed

lemma set_tag_keys: "set (tag_keys flt t) = (\<lambda>p. p @ t) `
    {hd (as_bytes (tag_name tag)) # tag_value_bytes v |tag v.
       tag \<in> set (unwrap_or_empty (f_tags flt)) \<and> length (tag_name tag) = 1 \<and> v \<in> set (tag_values tag)}"
proof -
  have "k \<in> set (if length (tag_name tag) \<noteq> 1 then []
        else map (\<lambda>v. hd (as_bytes (tag_name tag)) # tag_value_bytes v @ t) (tag_values tag)) \<longleftrightarrow>
      (\<exists>v. length (tag_name tag) = 1 \<and> v \<in> set (tag_values tag) \<and>
        k = (hd (as_bytes (tag_name tag)) # tag_value_bytes v) @ t)" for tag :: TagFilter and k
    by auto
  then show ?thesis
    unfolding tag_keys_def set_concat set_map image_image set_eq_iff UN_iff by (simp only:) blast
qed

lemmas set_prefix_keys =
  set_id_keys set_pubkey_keys set_kind_keys set_pubkey_kind_keys set_tag_keys

lemma set_build_start_keys:
  "set (build_start_keys flt selected direction) =
   (\<lambda>p. p @ u64_to_le (start_ts flt direction)) ` start_prefixes flt selected"
proof -
  have "set (build_start_keys flt selected direction) =
    set (let ts_bytes = u64_to_le (start_ts flt direction) in
       if selected = Single ''Event__id'' then id_keys flt ts_bytes
       else if selected = Multi ''Event__pubkey'' then pubkey_keys flt ts_bytes
       else if selected = Multi ''Event__kind'' then kind_keys flt ts_bytes
       else if selected = Multi ''Event__pubkeyKind'' then pubkey_kind_keys flt ts_bytes
       else if selected = Multi ''Event__tag'' then tag_keys flt ts_bytes
       else if selected = Single ''Event__created_at'' then [ts_bytes] else [])"
    unfolding build_start_keys_def start_ts_def Let_def by (simp only: remdups_adj_set set_sort)
  then show ?thesis
    by (simp add: start_prefixes_def Let_def set_prefix_keys)
qed

lemma start_prefix_length:
  assumes "p \<in> start_prefixes flt selected"
  shows "selected = Single ''Event__id'' \<Longrightarrow> length p = 32"
    and "selected = Multi ''Event__pubkey'' \<Longrightarrow> length p = 32"
    and "selected = Multi ''Event__kind'' \<Longrightarrow> length p = 8"
    and "selected = Multi ''Event__pubkeyKind'' \<Longrightarrow> length p = 40"
    and "selected = Single ''Event__created_at'' \<Longrightarrow> p = []"
  using assms by (auto simp: start_prefixes_def decode_pubkey_warn_length)

lemma start_key_valid:
  assumes "k \<in> set (build_start_keys flt (select_index flt) direction)"
    and "index_comparator (index_short_name (select_index flt)) = Some c"
  shows "valid_key c k"
proof -
  obtain p where p: "p \<in> start_prefixes flt (select_index flt)"
    "k = p @ u64_to_le (start_ts flt direction)"
    using assms(1) by (auto simp: set_build_start_keys)
  show ?thesis
    using assms(2) p(2) start_prefix_length [OF p(1)]
    by (auto simp: select_index_def index_short_name_def index_comparator_def split: if_splits)
qed

section \<open>Properties\<close>

text \<open>
  C12: the start keys of a query are strictly sorted, hence without repetition, are exactly one per
  requested and well-formed value prefix, all end in the time bound of the scan, and are well
  formed for the comparator of the selected index, so that no comparator aborts on them.
\<close>

theorem build_start_keys_spec:
  "sorted_wrt (<) (build_start_keys flt (select_index flt) direction) \<and>
   set (build_start_keys flt (select_index flt) direction) =
     (\<lambda>p. p @ u64_to_le (start_ts flt direction)) ` start_prefixes flt (select_index flt) \<and>
   list_all (\<lambda>k. created_at_from_key k = start_ts flt direction \<and>
       (case index_comparator (index_short_name (select_index flt)) of
          None \<Rightarrow> False | Some c \<Rightarrow> valid_key c k))
     (build_start_keys flt (select_index flt) direction)"
proof -
  have "index_comparator (index_short_name (select_index flt)) \<noteq> None"
    by (auto simp: select_index_def index_short_name_def index_comparator_def)
  then obtain c where "index_comparator (index_short_name (select_index flt)) = Some c"
    by blast
  then show ?thesis
    using start_key_valid [of _ flt direction c]
    by (auto simp: sorted_distinct_keys list_all_iff set_build_start_keys)
qed

end
