(* ===== verification/Merge.thy ===== *)
theory Merge
  imports Router
begin

text \<open>
  \<^verbatim>\<open>query/merge.rs\<close>: the windowed k-way merge.  Each start key is a stream that is refilled one
  window at a time; a max-heap holds the head of every stream.  The heap is the standard
  library's \<^verbatim>\<open>BinaryHeap\<close>, modelled as a list from which the greatest candidate is taken, behind
  the interface \<open>max_queue\<close>.  The main result is that the merge returns exactly the newest
  \<open>emit_limit\<close> records of the index that match a start key's prefix, lie in the time range and
  are below the resume floor, in descending order of (created_at, levId).
\<close>

section \<open>Candidates and the heap\<close>

type_synonym triple = "u64 \<times> LevId \<times> bytes"

record MergeCandidate =
  mc_created_at :: u64
  mc_lev_id :: LevId
  mc_key_bytes :: bytes
  mc_stream_idx :: nat

definition cmp_u64 :: "u64 \<Rightarrow> u64 \<Rightarrow> ordering" where
  "cmp_u64 a b = (if a < b then Less else if a = b then Equal else Greater)"

definition MergeCandidate_cmp :: "MergeCandidate \<Rightarrow> MergeCandidate \<Rightarrow> ordering" where
  "MergeCandidate_cmp a b =
     (case cmp_u64 (mc_created_at a) (mc_created_at b) of
        Equal \<Rightarrow> cmp_u64 (mc_lev_id a) (mc_lev_id b)
      | other \<Rightarrow> other)"

definition MergeCandidate_eq :: "MergeCandidate \<Rightarrow> MergeCandidate \<Rightarrow> bool" where
  "MergeCandidate_eq a b \<longleftrightarrow> mc_created_at a = mc_created_at b \<and> mc_lev_id a = mc_lev_id b"

text \<open>\<^verbatim>\<open>BinaryHeap::push\<close> and \<^verbatim>\<open>BinaryHeap::pop\<close>.\<close>

definition heap_push :: "MergeCandidate \<Rightarrow> MergeCandidate list \<Rightarrow> MergeCandidate list" where
  "heap_push c h = c # h"

fun heap_pop :: "MergeCandidate list \<Rightarrow> (MergeCandidate \<times> MergeCandidate list) option" where
  "heap_pop [] = None"
| "heap_pop (c # h) =
     (case heap_pop h of
        None \<Rightarrow> Some (c, h)
      | Some (m, h') \<Rightarrow> if MergeCandidate_cmp m c = Greater then Some (m, c # h') else Some (c, h))"

section \<open>Streams\<close>

record StreamState =
  st_resume_key :: bytes
  st_first_batch :: bool
  st_prefix :: bytes
  st_exhausted :: bool
  st_buffer :: "triple list"
  st_buf_pos :: nat

definition peek :: "StreamState \<Rightarrow> (u64 \<times> LevId) option" where
  "peek s =
     (if st_buf_pos s < length (st_buffer s)
      then (case st_buffer s ! st_buf_pos s of (ts, lev, _) \<Rightarrow> Some (ts, lev)) else None)"

definition needs_refill :: "StreamState \<Rightarrow> bool" where
  "needs_refill s \<longleftrightarrow> \<not> st_exhausted s \<and> length (st_buffer s) \<le> st_buf_pos s"

text \<open>An entry the floor of a resumed page lets through.\<close>

definition floor_ok :: "(u64 \<times> LevId) option \<Rightarrow> triple \<Rightarrow> bool" where
  "floor_ok lev_id_floor t =
     (case lev_id_floor of
        None \<Rightarrow> True
      | Some (floor_ts, floor_lev) \<Rightarrow> fst t \<noteq> floor_ts \<or> fst (snd t) < floor_lev)"

definition exhausted_stream :: "StreamState \<Rightarrow> StreamState" where
  "exhausted_stream s = s\<lparr> st_exhausted := True, st_buffer := [], st_buf_pos := 0 \<rparr>"

text \<open>
  The tail of a pass: entries below \<^verbatim>\<open>since\<close> are cut off and exhaust the stream, the others become
  its buffer.
\<close>

definition load_buffer :: "u64 \<Rightarrow> triple list \<Rightarrow> StreamState \<Rightarrow> StreamState" where
  "load_buffer since guarded stream =
     (let cutoff = (0 < since \<and> (\<exists>t\<in>set guarded. fst t < since));
          truncated = (if cutoff then takeWhile (\<lambda>t. \<not> fst t < since) guarded else guarded);
          stream = (if cutoff then stream\<lparr> st_exhausted := True \<rparr> else stream)
      in if truncated = [] then stream\<lparr> st_buffer := [], st_buf_pos := 0 \<rparr>
         else stream\<lparr> st_buffer := truncated, st_buf_pos := 0 \<rparr>)"

text \<open>
  One pass of the loop in \<^verbatim>\<open>refill_stream\<close>: the new state, and whether the function returns
  (otherwise the floor dropped the whole window and the loop continues).
\<close>

definition refill_once ::
  "heed_env \<Rightarrow> string \<Rightarrow> nat \<Rightarrow> u64 \<Rightarrow> (u64 \<times> LevId) option \<Rightarrow> StreamState
   \<Rightarrow> (index_error, StreamState \<times> bool) result" where
  "refill_once env short_name batch_size since lev_id_floor stream =
     bind_r (scan_index_one_window env short_name Reverse (st_resume_key stream)
               (st_first_batch stream) batch_size)
     (\<lambda>(batch, next_resume, next_first).
        let stream = stream\<lparr> st_resume_key := next_resume, st_first_batch := next_first \<rparr>
        in if batch = [] then Inr (exhausted_stream stream, True)
           else
             let guarded = map (\<lambda>(k, lev_id). (created_at_from_key k, lev_id, k))
                             (takeWhile (\<lambda>(k, _). starts_with k (st_prefix stream)) batch)
             in if guarded = [] then Inr (exhausted_stream stream, True)
                else
                  let guarded = filter (floor_ok lev_id_floor) guarded
                  in if guarded = [] then Inr (stream, False)
                     else Inr (load_buffer since guarded stream, True))"

fun refill_attempts ::
  "nat \<Rightarrow> heed_env \<Rightarrow> string \<Rightarrow> nat \<Rightarrow> u64 \<Rightarrow> (u64 \<times> LevId) option \<Rightarrow> StreamState
   \<Rightarrow> (index_error, StreamState) result" where
  "refill_attempts 0 env short_name batch_size since lev_id_floor stream = Inr (exhausted_stream stream)"
| "refill_attempts (Suc n) env short_name batch_size since lev_id_floor stream =
     bind_r (refill_once env short_name batch_size since lev_id_floor stream) (\<lambda>(stream', returned).
       if returned then Inr stream'
       else refill_attempts n env short_name batch_size since lev_id_floor stream')"

definition refill_stream ::
  "heed_env \<Rightarrow> string \<Rightarrow> nat \<Rightarrow> u64 \<Rightarrow> (u64 \<times> LevId) option \<Rightarrow> StreamState
   \<Rightarrow> (index_error, StreamState) result" where
  "refill_stream env short_name batch_size since lev_id_floor stream =
     refill_attempts 2 env short_name batch_size since lev_id_floor stream"

section \<open>The merge\<close>

definition new_stream :: "bytes \<Rightarrow> StreamState" where
  "new_stream key =
     \<lparr> st_resume_key = key, st_first_batch = True, st_prefix = take (length key - 8) key,
       st_exhausted = False, st_buffer = [], st_buf_pos = 0 \<rparr>"

text \<open>Pushing the head of a stream, if it has one.\<close>

definition push_head :: "nat \<Rightarrow> StreamState \<Rightarrow> MergeCandidate list \<Rightarrow> MergeCandidate list" where
  "push_head idx s heap =
     (case peek s of
        None \<Rightarrow> heap
      | Some (ts, lev_id) \<Rightarrow>
          heap_push \<lparr> mc_created_at = ts, mc_lev_id = lev_id,
            mc_key_bytes = snd (snd (st_buffer s ! st_buf_pos s)), mc_stream_idx = idx \<rparr> heap)"

text \<open>
  The frontier loop; \<open>n\<close> is the number of results still to emit, so that \<^verbatim>\<open>results.len() >=
  emit_limit\<close> after a push is \<open>n = 1\<close>.
\<close>

fun merge_loop ::
  "nat \<Rightarrow> heed_env \<Rightarrow> string \<Rightarrow> nat \<Rightarrow> u64 \<Rightarrow> (u64 \<times> LevId) option \<Rightarrow> StreamState list
   \<Rightarrow> MergeCandidate list \<Rightarrow> (index_error, triple list) result" where
  "merge_loop 0 env short_name batch_size since lev_id_floor streams heap = Inr []"
| "merge_loop (Suc n) env short_name batch_size since lev_id_floor streams heap =
     (case heap_pop heap of
        None \<Rightarrow> Inr []
      | Some (candidate, heap) \<Rightarrow>
          let idx = mc_stream_idx candidate;
              emitted = (mc_created_at candidate, mc_lev_id candidate, mc_key_bytes candidate)
          in if n = 0 then Inr [emitted]
             else
               let s = (streams ! idx)\<lparr> st_buf_pos := st_buf_pos (streams ! idx) + 1 \<rparr>
               in bind_r (if needs_refill s
                          then refill_stream env short_name batch_size since lev_id_floor s
                          else Inr s)
                  (\<lambda>s. map_ok (Cons emitted)
                     (merge_loop n env short_name batch_size since lev_id_floor
                        (streams[idx := s]) (push_head idx s heap))))"

fun seed_heap :: "nat \<Rightarrow> StreamState list \<Rightarrow> MergeCandidate list \<Rightarrow> MergeCandidate list" where
  "seed_heap idx [] heap = heap"
| "seed_heap idx (s # ss) heap = seed_heap (Suc idx) ss (push_head idx s heap)"

definition merge_windowed ::
  "heed_env \<Rightarrow> string \<Rightarrow> bytes list \<Rightarrow> nat \<Rightarrow> nat \<Rightarrow> u64 \<Rightarrow> (u64 \<times> LevId) option
   \<Rightarrow> (index_error, triple list) result" where
  "merge_windowed env short_name start_keys batch_size emit_limit since lev_id_floor =
     (if start_keys = [] \<or> emit_limit = 0 then Inr []
      else bind_r (collect_r (map (\<lambda>key.
                refill_stream env short_name batch_size since lev_id_floor (new_stream key)) start_keys))
           (\<lambda>streams. merge_loop emit_limit env short_name batch_size since lev_id_floor streams
              (seed_heap 0 streams [])))"

definition merge_prefixes ::
  "heed_env \<Rightarrow> string \<Rightarrow> bytes list \<Rightarrow> nat \<Rightarrow> (index_error, triple list) result" where
  "merge_prefixes env short_name start_keys limit =
     (if start_keys = [] then Inr []
      else let scan_limit = (if limit = 0 then DEFAULT_WINDOW_SIZE else limit)
           in merge_windowed env short_name start_keys scan_limit scan_limit 0 None)"

section \<open>What the merge is to compute\<close>

definition mc_rank :: "MergeCandidate \<Rightarrow> u64 \<times> u64" where
  "mc_rank c = (mc_created_at c, mc_lev_id c)"

definition entry_triple :: "entry \<Rightarrow> triple" where
  "entry_triple e = (created_at_from_key (fst e), value_lev_id (snd e), fst e)"

definition in_prefix :: "bytes \<Rightarrow> entry \<Rightarrow> bool" where
  "in_prefix p e \<longleftrightarrow> starts_with (fst e) p"

text \<open>What a stream will still deliver from its cursor.\<close>

definition stream_future ::
  "comparator \<Rightarrow> entry list \<Rightarrow> u64 \<Rightarrow> (u64 \<times> LevId) option \<Rightarrow> bytes \<Rightarrow> bytes \<Rightarrow> bool \<Rightarrow> triple list" where
  "stream_future c es since lev_floor p k first =
     takeWhile (\<lambda>t. \<not> fst t < since) (filter (floor_ok lev_floor)
       (map entry_triple (filter (in_prefix p) (cursor_range c es Reverse k first))))"

text \<open>What a stream will still deliver: the rest of its buffer, then its cursor.\<close>

definition stream_rest ::
  "comparator \<Rightarrow> entry list \<Rightarrow> u64 \<Rightarrow> (u64 \<times> LevId) option \<Rightarrow> StreamState \<Rightarrow> triple list" where
  "stream_rest c es since lev_floor s =
     drop (st_buf_pos s) (st_buffer s) @
     (if st_exhausted s then []
      else stream_future c es since lev_floor (st_prefix s) (st_resume_key s) (st_first_batch s))"

text \<open>
  The records of the index whose key starts with the prefix form one group of the comparator,
  and the cursor of the stream has not yet passed above it.
\<close>

definition stream_inv :: "comparator \<Rightarrow> entry list \<Rightarrow> StreamState \<Rightarrow> bool" where
  "stream_inv c es s \<longleftrightarrow>
     valid_key c (st_resume_key s) \<and>
     (\<exists>g. (\<forall>e\<in>set es. in_prefix (st_prefix s) e \<longleftrightarrow> key_group c (fst e) = g) \<and>
          (\<forall>e\<in>set (cursor_range c es Reverse (st_resume_key s) (st_first_batch s)).
             key_group c (fst e) \<le> g))"

text \<open>A stream whose head, if it has one, is in the buffer.\<close>

definition settled :: "StreamState \<Rightarrow> bool" where
  "settled s \<longleftrightarrow> st_exhausted s \<or> st_buf_pos s < length (st_buffer s)"

definition pair_of :: "triple \<Rightarrow> u64 \<times> LevId" where
  "pair_of t = (fst t, fst (snd t))"

definition newest_first :: "(u64 \<times> LevId) list \<Rightarrow> (u64 \<times> LevId) list" where
  "newest_first ps = rev (sort ps)"

definition stream_ok :: "comparator \<Rightarrow> entry list \<Rightarrow> u64 \<Rightarrow> (u64 \<times> LevId) option \<Rightarrow> StreamState \<Rightarrow> bool" where
  "stream_ok c es since fl s \<longleftrightarrow>
     stream_inv c es s \<and> settled s \<and>
     sorted_wrt (\<lambda>a b. pair_of b \<le> pair_of a) (stream_rest c es since fl s)"

definition candidate :: "nat \<Rightarrow> triple \<Rightarrow> MergeCandidate" where
  "candidate idx t =
     \<lparr> mc_created_at = fst t, mc_lev_id = fst (snd t), mc_key_bytes = snd (snd t), mc_stream_idx = idx \<rparr>"

text \<open>The heap holds the head of every stream that is not drained, once.\<close>

definition heap_inv ::
  "comparator \<Rightarrow> entry list \<Rightarrow> u64 \<Rightarrow> (u64 \<times> LevId) option \<Rightarrow> StreamState list \<Rightarrow> MergeCandidate list \<Rightarrow> bool" where
  "heap_inv c es since fl streams heap \<longleftrightarrow>
     distinct (map mc_stream_idx heap) \<and>
     set heap = {candidate i (hd (stream_rest c es since fl (streams ! i))) |i.
       i < length streams \<and> stream_rest c es since fl (streams ! i) \<noteq> []}"

text \<open>A record a stream is to deliver.\<close>

definition wanted :: "u64 \<Rightarrow> (u64 \<times> LevId) option \<Rightarrow> bytes \<Rightarrow> entry \<Rightarrow> bool" where
  "wanted since lev_floor k e \<longleftrightarrow>
     in_prefix (take (length k - 8) k) e \<and> created_at_from_key (fst e) \<le> created_at_from_key k \<and>
     since \<le> created_at_from_key (fst e) \<and>
     (case lev_floor of None \<Rightarrow> True
      | Some b \<Rightarrow> created_at_from_key (fst e) = fst b \<longrightarrow> fst (snd (entry_triple e)) < snd b)"

text \<open>
  A start key from which a reverse walk reaches its whole prefix: well formed, as long as the keys of
  the index, and not at the end of time unless the index has no such key.
\<close>

definition start_key_ok :: "comparator \<Rightarrow> entry list \<Rightarrow> bytes \<Rightarrow> bool" where
  "start_key_ok c es k \<longleftrightarrow>
     valid_key c k \<and> (\<forall>e\<in>set es. length (fst e) = length k) \<and>
     (created_at_from_key k \<noteq> u64_MAX \<or> (\<forall>e\<in>set es. fst e \<noteq> k))"

text \<open>The records the merge is to return, newest first.\<close>

definition merge_matches ::
  "entry list \<Rightarrow> bytes list \<Rightarrow> u64 \<Rightarrow> (u64 \<times> LevId) option \<Rightarrow> (u64 \<times> LevId) list" where
  "merge_matches es start_keys since lev_floor =
     newest_first (map (pair_of \<circ> entry_triple) (filter (\<lambda>e. \<exists>k\<in>set start_keys. wanted since lev_floor k e) es))"

section \<open>The heap behind its interface\<close>

text \<open>A queue whose \<open>pop\<close> takes a greatest element.\<close>

locale max_queue =
  fixes empty_q :: 'q and push :: "'a \<Rightarrow> 'q \<Rightarrow> 'q" and pop :: "'q \<Rightarrow> ('a \<times> 'q) option"
    and contents :: "'q \<Rightarrow> 'a multiset" and rank :: "'a \<Rightarrow> 'r::linorder"
  assumes contents_empty: "contents empty_q = {#}"
    and contents_push: "contents (push a q) = add_mset a (contents q)"
    and pop_None: "pop q = None \<longleftrightarrow> contents q = {#}"
    and pop_contents: "pop q = Some (a, q') \<Longrightarrow> contents q = add_mset a (contents q')"
    and pop_greatest: "pop q = Some (a, q') \<Longrightarrow> b \<in># contents q \<Longrightarrow> rank b \<le> rank a"
begin

lemma pop_Some_iff: "(\<exists>a q'. pop q = Some (a, q')) \<longleftrightarrow> contents q \<noteq> {#}"
  using pop_None [of q] by (cases "pop q") auto

lemma pop_member: "pop q = Some (a, q') \<Longrightarrow> a \<in># contents q"
  using pop_contents by fastforce

lemma pop_rest: "pop q = Some (a, q') \<Longrightarrow> b \<in># contents q' \<Longrightarrow> b \<in># contents q \<and> rank b \<le> rank a"
  using pop_contents pop_greatest by fastforce

end

lemma MergeCandidate_cmp_Greater: "MergeCandidate_cmp a b = Greater \<longleftrightarrow> mc_rank b < mc_rank a"
  by (auto simp: MergeCandidate_cmp_def cmp_u64_def mc_rank_def)

lemma heap_pop_None: "heap_pop h = None \<longleftrightarrow> h = []"
  by (cases h) (auto split: option.splits)

lemma heap_pop_mset: "heap_pop h = Some (a, h') \<Longrightarrow> mset h = add_mset a (mset h')"
  by (induction h arbitrary: a h') (auto split: option.splits if_splits simp: heap_pop_None)

lemma heap_pop_greatest: "heap_pop h = Some (a, h') \<Longrightarrow> b \<in> set h \<Longrightarrow> mc_rank b \<le> mc_rank a"
proof (induction h arbitrary: a h' b)
  case (Cons c h)
  show ?case
  proof (cases "heap_pop h")
    case None
    then show ?thesis
      using Cons.prems by (auto simp: heap_pop_None)
  next
    case (Some p)
    obtain m h'' where p: "p = (m, h'')"
      by (cases p)
    then have "\<forall>b\<in>set h. mc_rank b \<le> mc_rank m"
      using Cons.IH Some by blast
    then show ?thesis
      using Cons.prems Some p
      by (auto simp: MergeCandidate_cmp_Greater not_less split: if_splits intro: order_trans)
  qed
qed simp

interpretation bh: max_queue "[]" heap_push heap_pop mset mc_rank
proof unfold_locales
  fix q a q' b
  assume "heap_pop q = Some (a, q')" "b \<in># mset q"
  then show "mc_rank b \<le> mc_rank a"
    by (simp add: heap_pop_greatest)
qed (simp_all add: heap_push_def heap_pop_None heap_pop_mset)

section \<open>Streams deliver the filtered index\<close>

lemma takeWhile_prefix:
  assumes "lmdb_index c db es"
    and "\<forall>e\<in>set es. in_prefix p e \<longleftrightarrow> key_group c (fst e) = g"
    and "\<forall>e\<in>set (cursor_range c es Reverse k first). key_group c (fst e) \<le> g"
    and RS: "cursor_range c es Reverse k first = R @ S"
  shows "takeWhile (in_prefix p) R = filter (in_prefix p) R"
    and "filter (in_prefix p) R = [] \<Longrightarrow> R \<noteq> [] \<Longrightarrow> filter (in_prefix p) S = []"
proof -
  have sub: "set (R @ S) \<subseteq> set es"
    using lmdb_index.set_cursor_range [OF assms(1), of Reverse k first] RS by simp
  have "sorted_wrt (\<lambda>e f. \<not> beyond c Reverse (fst f) (fst e)) (R @ S)"
    using lmdb_index.cursor_range_sorted [OF assms(1), of Reverse k first] RS by simp
  then have "sorted_wrt (\<lambda>e f. e \<in> set (R @ S) \<and> f \<in> set (R @ S) \<and> key_rank c (fst f) \<le> key_rank c (fst e)) (R @ S)"
    by (rule sorted_wrt_mono_rel [rotated]) (auto simp: not_less)
  moreover have mono: "in_prefix p e" if "e \<in> set (R @ S)" "f \<in> set (R @ S)"
    "key_rank c (fst f) \<le> key_rank c (fst e)" "in_prefix p f" for e f
  proof -
    have "key_group c (fst f) = g" "key_group c (fst e) \<le> g"
      using that assms(2,3) sub RS by auto
    moreover have "key_group c (fst f) \<le> key_group c (fst e)"
      using that(3) by (auto simp: key_rank_def)
    ultimately show ?thesis
      using assms(2) sub that(1) by auto
  qed
  ultimately have sorted: "sorted_wrt (\<lambda>e f. in_prefix p f \<longrightarrow> in_prefix p e) (R @ S)"
    by (blast intro: sorted_wrt_mono_rel [rotated])
  then show "takeWhile (in_prefix p) R = filter (in_prefix p) R"
    using takeWhile_eq_filter_sorted [of "\<lambda>e f. in_prefix p f \<longrightarrow> in_prefix p e" R "in_prefix p"]
    by (simp add: sorted_wrt_append)
  have "\<forall>x\<in>set R. \<forall>y\<in>set S. in_prefix p y \<longrightarrow> in_prefix p x"
    using sorted unfolding sorted_wrt_append by blast
  then show "filter (in_prefix p) S = []" if "filter (in_prefix p) R = []" "R \<noteq> []"
    using that list.set_sel(1) [of R] unfolding filter_empty_conv by blast
qed

lemma guarded_batch:
  "map (\<lambda>(k, lev_id). (created_at_from_key k, lev_id, k))
     (takeWhile (\<lambda>(k, _). starts_with k p) (map decode_entry R)) =
   map entry_triple (takeWhile (in_prefix p) R)"
  by (induction R) (auto simp: decode_entry_def entry_triple_def in_prefix_def)

lemma takeWhile_since:
  "takeWhile (\<lambda>t. \<not> fst t < since) ts =
   (if (0::u64) < since \<and> (\<exists>t\<in>set ts. fst t < since) then takeWhile (\<lambda>t. \<not> fst t < since) ts else ts)"
proof (cases "\<exists>t\<in>set ts. fst t < since")
  case True
  then have "0 < since"
    using u64_pos_of_less by blast
  then show ?thesis
    using True by simp
next
  case False
  then show ?thesis
    by (simp add: takeWhile_eq_all_conv)
qed

lemma eq_takeWhile: "A = takeWhile P A \<longleftrightarrow> (\<forall>x\<in>set A. P x)"
  by (metis takeWhile_eq_all_conv)

lemma takeWhile_since_append:
  "takeWhile (\<lambda>t. \<not> fst t < since) (A @ B) =
   takeWhile (\<lambda>t. \<not> fst t < (since::u64)) A @
     (if 0 < since \<and> (\<exists>t\<in>set A. fst t < since) then [] else takeWhile (\<lambda>t. \<not> fst t < since) B)"
proof (cases "\<exists>t\<in>set A. fst t < since")
  case True
  then have "0 < since"
    using u64_pos_of_less by blast
  then show ?thesis
    using True by (auto simp: takeWhile_append1)
next
  case False
  then show ?thesis
    by (simp add: takeWhile_append2 eq_takeWhile)
qed

lemma load_buffer_eq:
  "load_buffer since ts s =
   (if 0 < since \<and> (\<exists>t\<in>set ts. fst t < since) then s\<lparr> st_exhausted := True \<rparr> else s)
     \<lparr> st_buffer := takeWhile (\<lambda>t. \<not> fst t < since) ts, st_buf_pos := 0 \<rparr>"
proof (cases "0 < since \<and> (\<exists>t\<in>set ts. fst t < since)")
  case True
  then show ?thesis
    by (simp add: load_buffer_def Let_def)
next
  case False
  then have "takeWhile (\<lambda>t. \<not> fst t < since) ts = ts"
    using takeWhile_since [of since ts] by presburger
  then show ?thesis
    using False by (simp only: load_buffer_def Let_def if_False) simp
qed

lemma stream_inv_exhausted [simp]: "stream_inv c es (exhausted_stream s) = stream_inv c es s"
  by (simp add: stream_inv_def exhausted_stream_def)

lemma stream_rest_exhausted [simp]: "stream_rest c es since fl (exhausted_stream s) = []"
  by (simp add: stream_rest_def exhausted_stream_def)

lemma settled_exhausted [simp]: "settled (exhausted_stream s)"
  by (simp add: settled_def exhausted_stream_def)

lemma floor_dropped:
  assumes idx: "lmdb_index c db es" and golpe: "c \<noteq> DefaultComparator"
    and grp: "\<forall>e\<in>set es. in_prefix p e \<longleftrightarrow> key_group c (fst e) = g"
    and RS: "cursor_range c es Reverse k first = R @ S" "R \<noteq> []"
      "cursor_range c es Reverse (fst (last R)) False = S"
    and drop: "filter (in_prefix p) R \<noteq> []" "filter (floor_ok fl) (map entry_triple (filter (in_prefix p) R)) = []"
    and f: "f \<in> set S" "in_prefix p f"
  shows "floor_ok fl (entry_triple f)"
proof -
  have sub: "set (R @ S) \<subseteq> set es"
    using lmdb_index.set_cursor_range [OF idx, of Reverse k first] RS(1) by simp
  obtain e where e: "e \<in> set R" "in_prefix p e"
    using drop(1) by (auto simp: filter_empty_conv)
  then have "\<not> floor_ok fl (entry_triple e)"
    using drop(2) by (simp add: filter_empty_conv del: split_paired_All)
  then obtain floor_ts floor_lev where fl: "fl = Some (floor_ts, floor_lev)"
    "created_at_from_key (fst e) = floor_ts"
    by (auto simp: floor_ok_def entry_triple_def split: option.splits prod.splits)
  have "key_rank c (fst f) < key_rank c (fst (last R))"
    using f(1) RS(3) by (auto simp: cursor_range_def)
  moreover have "key_rank c (fst (last R)) \<le> key_rank c (fst e)"
  proof -
    have "sorted_wrt (\<lambda>e f. \<not> beyond c Reverse (fst f) (fst e)) R"
      using lmdb_index.cursor_range_sorted [OF idx, of Reverse k first] RS(1)
      by (simp add: sorted_wrt_append)
    then show ?thesis
      using e(1) RS(2) by (cases R rule: rev_cases) (auto simp: sorted_wrt_append not_less)
  qed
  ultimately have "key_rank c (fst f) < key_rank c (fst e)"
    by simp
  moreover have "key_group c (fst f) = g" "key_group c (fst e) = g"
    using grp sub f e by auto
  ultimately have "key_ts (fst f) < key_ts (fst e)"
    by (auto simp: key_rank_def)
  moreover have "valid_key c (fst e)" "valid_key c (fst f)"
    using lmdb_index.key_valid [OF idx, of e] lmdb_index.key_valid [OF idx, of f] sub e f by auto
  then have "8 \<le> length (fst e)" "8 \<le> length (fst f)"
    using golpe by (cases c; simp)+
  ultimately have "created_at_from_key (fst f) \<noteq> created_at_from_key (fst e)"
    using created_at_from_key_ts by (metis less_irrefl)
  then show ?thesis
    using fl by (simp add: floor_ok_def entry_triple_def)
qed

lemma load_buffer_spec:
  assumes "\<not> st_exhausted s" "st_buf_pos s \<ge> length (st_buffer s)" "A \<noteq> []"
    and rest: "stream_rest c es since fl s = takeWhile (\<lambda>t. \<not> fst t < since) B"
  shows "stream_inv c es (load_buffer since A s) = stream_inv c es s"
    and "stream_rest c es since fl (load_buffer since A s) = takeWhile (\<lambda>t. \<not> fst t < since) (A @ B)"
    and "settled (load_buffer since A s)"
proof -
  show "stream_inv c es (load_buffer since A s) = stream_inv c es s"
    by (simp add: load_buffer_eq stream_inv_def)
  show "stream_rest c es since fl (load_buffer since A s) = takeWhile (\<lambda>t. \<not> fst t < since) (A @ B)"
    unfolding takeWhile_since_append using assms(1,2) rest by (simp add: load_buffer_eq stream_rest_def) blast
  show "settled (load_buffer since A s)"
    using assms(1,3) by (cases A) (auto simp: load_buffer_eq settled_def intro: u64_pos_of_less)
qed

text \<open>
  One window of a stream: \<open>R\<close> is read and \<open>S\<close> is what the cursor has left.  The function returns
  unless the floor drops all of \<open>R\<close>'s records of the prefix.
\<close>

lemma refill_once_window:
  assumes srv: "serves_index env short_name c es" and w: "0 < w"
    and inv: "stream_inv c es s" and need: "needs_refill s"
  obtains g R S k' G A where
    "\<forall>e\<in>set es. in_prefix (st_prefix s) e \<longleftrightarrow> key_group c (fst e) = g"
    "cursor_range c es Reverse (st_resume_key s) (st_first_batch s) = R @ S" "cursor_range c es Reverse k' False = S"
    "R \<noteq> [] \<longrightarrow> k' = fst (last R)"
    "G = map entry_triple (filter (in_prefix (st_prefix s)) R)" "A = filter (floor_ok fl) G"
    "R = [] \<or> G = [] \<longrightarrow> filter (in_prefix (st_prefix s)) S = []"
    "stream_inv c es (s\<lparr> st_resume_key := k', st_first_batch := False \<rparr>)"
    "refill_once env short_name w since fl s =
       (let s1 = s\<lparr> st_resume_key := k', st_first_batch := False \<rparr>
        in Inr (if R = [] \<or> G = [] then (exhausted_stream s1, True)
                else if A = [] then (s1, False) else (load_buffer since A s1, True)))"
proof -
  obtain db where idx: "lmdb_index c db es"
    using srv by (auto simp: serves_index_def)
  let ?p = "st_prefix s" and ?k = "st_resume_key s" and ?b = "st_first_batch s"
  obtain g where k: "valid_key c ?k"
    and grp: "\<forall>e\<in>set es. in_prefix ?p e \<longleftrightarrow> key_group c (fst e) = g"
    and above: "\<forall>e\<in>set (cursor_range c es Reverse ?k ?b). key_group c (fst e) \<le> g"
    using inv by (auto simp: stream_inv_def)
  obtain R S k' where win: "scan_index_one_window env short_name Reverse ?k ?b w =
        Inr (map decode_entry R, k', False)"
    and RS: "cursor_range c es Reverse ?k ?b = R @ S" "cursor_range c es Reverse k' False = S"
    and k': "valid_key c k'" "R = [] \<longrightarrow> S = []" "R \<noteq> [] \<longrightarrow> k' = fst (last R)"
    using one_window.window [OF srv k w, of Reverse ?b] by blast
  note pre = takeWhile_prefix [OF idx grp above RS(1)]
  have inv1: "stream_inv c es (s\<lparr> st_resume_key := k', st_first_batch := False \<rparr>)"
    unfolding stream_inv_def using k'(1) grp RS above by (intro conjI exI [of _ g]) simp_all
  show thesis
    by (rule that [OF grp RS k'(3) refl refl _ inv1])
      (use k'(2) pre in \<open>auto simp: refill_once_def win Let_def guarded_batch\<close>)
qed

lemma refill_once_spec:
  assumes srv: "serves_index env short_name c es" and w: "0 < w"
    and inv: "stream_inv c es s" and need: "needs_refill s"
  obtains s' returned where
    "refill_once env short_name w since fl s = Inr (s', returned)"
    "stream_inv c es s'" "stream_rest c es since fl s' = stream_rest c es since fl s"
    "returned \<Longrightarrow> settled s'" "\<not> returned \<Longrightarrow> needs_refill s'"
    "\<not> returned \<Longrightarrow> \<forall>e\<in>set (cursor_range c es Reverse (st_resume_key s') (st_first_batch s')).
       in_prefix (st_prefix s') e \<longrightarrow> floor_ok fl (entry_triple e)"
    "\<forall>e\<in>set (cursor_range c es Reverse (st_resume_key s) (st_first_batch s)).
       in_prefix (st_prefix s) e \<longrightarrow> floor_ok fl (entry_triple e) \<Longrightarrow> returned"
proof -
  let ?p = "st_prefix s"
  obtain db where idx: "lmdb_index c db es"
    using srv by (auto simp: serves_index_def)
  obtain g R S k' G A where grp: "\<forall>e\<in>set es. in_prefix ?p e \<longleftrightarrow> key_group c (fst e) = g"
    and RS: "cursor_range c es Reverse (st_resume_key s) (st_first_batch s) = R @ S"
      "cursor_range c es Reverse k' False = S" "R \<noteq> [] \<longrightarrow> k' = fst (last R)"
    and G: "G = map entry_triple (filter (in_prefix ?p) R)" and A: "A = filter (floor_ok fl) G"
    and drained: "R = [] \<or> G = [] \<longrightarrow> filter (in_prefix ?p) S = []"
    and s1: "stream_inv c es (s\<lparr> st_resume_key := k', st_first_batch := False \<rparr>)"
    and once: "refill_once env short_name w since fl s =
      (let s1 = s\<lparr> st_resume_key := k', st_first_batch := False \<rparr> in Inr (if R = [] \<or> G = [] then (exhausted_stream s1, True)
         else if A = [] then (s1, False) else (load_buffer since A s1, True)))"
    by (rule refill_once_window [OF assms])
  let ?s1 = "s\<lparr> st_resume_key := k', st_first_batch := False \<rparr>"
  define B where "B = filter (floor_ok fl) (map entry_triple (filter (in_prefix ?p) S))"
  have rest: "stream_rest c es since fl s = takeWhile (\<lambda>t. \<not> fst t < since) (A @ B)"
    and rest1: "stream_rest c es since fl ?s1 = takeWhile (\<lambda>t. \<not> fst t < since) B"
    using need RS by (simp_all add: stream_rest_def stream_future_def needs_refill_def A B_def G)
  have s1': "\<not> st_exhausted ?s1" "length (st_buffer ?s1) \<le> st_buf_pos ?s1"
    using need by (simp_all add: needs_refill_def)
  consider "R = [] \<or> G = []" | "R \<noteq> []" "G \<noteq> []" "A = []" | "R \<noteq> []" "G \<noteq> []" "A \<noteq> []"
    by blast
  then show thesis
  proof cases
    case 1
    then show thesis
      using drained once s1 rest by (intro that [of "exhausted_stream ?s1" True]) (auto simp: A G B_def)
  next
    case 2
    have "floor_ok fl (entry_triple f)" if "f \<in> set S" "in_prefix ?p f" for f
      using floor_dropped [OF idx serves_index_golpe [OF srv] grp RS(1) _ _ _ _ that, of fl] 2 RS
      by (auto simp: A G)
    moreover have "\<exists>e\<in>set R. in_prefix ?p e \<and> \<not> floor_ok fl (entry_triple e)"
      using 2 by (simp add: A G filter_empty_conv del: split_paired_All) blast
    ultimately show thesis
      using 2 once s1 s1' rest rest1 RS by (intro that [of ?s1 False]) (auto simp: needs_refill_def)
  next
    case 3
    then show thesis
      using load_buffer_spec [OF s1' 3(3) rest1] once s1 rest
      by (intro that [of "load_buffer since A ?s1" True]) auto
  qed
qed

lemma refill_stream_spec:
  assumes srv: "serves_index env short_name c es" and w: "0 < w"
    and inv: "stream_inv c es s" and need: "needs_refill s"
  obtains s' where
    "refill_stream env short_name w since fl s = Inr s'" "stream_inv c es s'" "settled s'"
    "stream_rest c es since fl s' = stream_rest c es since fl s"
proof -
  obtain s1 b1 where s1: "refill_once env short_name w since fl s = Inr (s1, b1)"
    "stream_inv c es s1" "stream_rest c es since fl s1 = stream_rest c es since fl s"
    "b1 \<Longrightarrow> settled s1" "\<not> b1 \<Longrightarrow> needs_refill s1"
    "\<not> b1 \<Longrightarrow> \<forall>e\<in>set (cursor_range c es Reverse (st_resume_key s1) (st_first_batch s1)).
       in_prefix (st_prefix s1) e \<longrightarrow> floor_ok fl (entry_triple e)"
    using refill_once_spec [OF assms, of since fl] by blast
  show thesis
  proof (cases b1)
    case True
    then show thesis
      using s1 by (intro that [of s1]) (simp_all add: refill_stream_def numeral_2_eq_2)
  next
    case False
    obtain s2 b2 where s2: "refill_once env short_name w since fl s1 = Inr (s2, b2)"
      "stream_inv c es s2" "stream_rest c es since fl s2 = stream_rest c es since fl s1" "b2" "settled s2"
      using refill_once_spec [OF srv w s1(2) s1(5) [OF False], of since fl] s1(6) [OF False] by metis
    then show thesis
      using s1 False by (intro that [of s2]) (simp_all add: refill_stream_def numeral_2_eq_2)
  qed
qed

section \<open>The frontier\<close>

lemma newest_first_step:
  fixes P :: "(u64 \<times> LevId) list list"
  assumes "i < length P" "P ! i = x # r" "\<forall>l\<in>set P. \<forall>y\<in>set l. y \<le> x"
  shows "newest_first (concat P) = x # newest_first (concat (P[i := r]))"
proof -
  have P: "P = take i P @ (x # r) # drop (Suc i) P"
    using assms(1,2) id_take_nth_drop by metis
  have "mset (concat P) = add_mset x (mset (concat (P[i := r])))"
    by (subst P) (simp add: upd_conv_take_nth_drop [OF assms(1)])
  moreover have "\<forall>y\<in>set (concat (P[i := r])). y \<le> x"
    using assms by (auto dest!: set_update_subset_insert [THEN subsetD]) (metis in_set_conv_nth list.set_intros(2))
  ultimately have "sort (concat P) = sort (concat (P[i := r])) @ [x]"
    by (intro properties_for_sort) (auto simp: sorted_append)
  then show ?thesis
    by (simp add: newest_first_def)
qed

lemma candidate_sel [simp]:
  "mc_stream_idx (candidate i t) = i" "mc_rank (candidate i t) = pair_of t"
  "mc_created_at (candidate i t) = fst t" "mc_lev_id (candidate i t) = fst (snd t)"
  "mc_key_bytes (candidate i t) = snd (snd t)"
  by (simp_all add: candidate_def mc_rank_def pair_of_def)

lemma push_head_spec:
  assumes "settled s"
  shows "push_head idx s heap =
    (if stream_rest c es since fl s = [] then heap
     else candidate idx (hd (stream_rest c es since fl s)) # heap)"
proof (cases "st_buf_pos s < length (st_buffer s)")
  case True
  then have "drop (st_buf_pos s) (st_buffer s) = st_buffer s ! st_buf_pos s # drop (Suc (st_buf_pos s)) (st_buffer s)"
    by (simp add: Cons_nth_drop_Suc)
  then show ?thesis
    using True by (simp add: push_head_def peek_def stream_rest_def heap_push_def candidate_def split: prod.splits)
next
  case False
  then show ?thesis
    using assms by (simp add: push_head_def peek_def stream_rest_def settled_def)
qed

lemma heap_inv_push:
  assumes pop: "heap_inv c es since fl streams (candidate idx t # heap)"
    and "idx < length streams" "settled s"
  shows "heap_inv c es since fl (streams[idx := s]) (push_head idx s heap)"
proof -
  let ?rest = "stream_rest c es since fl"
  have heap: "set heap = {candidate i (hd (?rest (streams ! i))) |i.
      i < length streams \<and> i \<noteq> idx \<and> ?rest (streams ! i) \<noteq> []}" (is "_ = ?H")
  proof (intro equalityI subsetI)
    fix m
    assume m: "m \<in> set heap"
    then have "mc_stream_idx m \<noteq> idx"
      using pop by (force simp: heap_inv_def)
    moreover have "m \<in> {candidate i (hd (?rest (streams ! i))) |i. i < length streams \<and> ?rest (streams ! i) \<noteq> []}"
      using m pop unfolding heap_inv_def by (metis list.set_intros(2))
    ultimately show "m \<in> ?H"
      by auto
  next
    fix m
    assume "m \<in> ?H"
    then have "mc_stream_idx m \<noteq> idx"
      and "m \<in> {candidate i (hd (?rest (streams ! i))) |i. i < length streams \<and> ?rest (streams ! i) \<noteq> []}"
      by auto
    then have "mc_stream_idx m \<noteq> idx" "m \<in> set (candidate idx t # heap)"
      using pop unfolding heap_inv_def by blast+
    then show "m \<in> set heap"
      by auto
  qed
  have "set (push_head idx s heap) = {candidate i (hd (?rest (streams[idx := s] ! i))) |i.
      i < length (streams[idx := s]) \<and> ?rest (streams[idx := s] ! i) \<noteq> []}"
    unfolding push_head_spec [OF assms(3), of idx heap c es since fl]
    using heap assms(2) by (auto simp: nth_list_update)
  moreover have "distinct (map mc_stream_idx (push_head idx s heap))"
    unfolding push_head_spec [OF assms(3), of idx heap c es since fl]
    using pop by (simp add: heap_inv_def)
  ultimately show ?thesis
    by (simp add: heap_inv_def)
qed

lemma heap_inv_mset:
  assumes "mset heap = mset heap'"
  shows "heap_inv c es since fl streams heap = heap_inv c es since fl streams heap'"
proof -
  have "set heap = set heap'"
    using assms by (metis set_mset_mset)
  moreover have "distinct (map mc_stream_idx heap) = distinct (map mc_stream_idx heap')"
    using assms by (metis distinct_count_atmost_1 mset_map set_map calculation count_mset)
  ultimately show ?thesis
    by (simp add: heap_inv_def)
qed

lemma stream_ok_advance:
  assumes srv: "serves_index env short_name c es" and w: "0 < w"
    and ok: "stream_ok c es since fl s" and rest: "stream_rest c es since fl s = t # r"
  obtains s' where
    "(let s = s\<lparr> st_buf_pos := st_buf_pos s + 1 \<rparr>
      in if needs_refill s then refill_stream env short_name w since fl s else Inr s) = Inr s'"
    "stream_ok c es since fl s'" "stream_rest c es since fl s' = r"
proof -
  let ?s = "s\<lparr> st_buf_pos := st_buf_pos s + 1 \<rparr>"
  have pos: "st_buf_pos s < length (st_buffer s)"
    using ok rest by (cases "length (st_buffer s) \<le> st_buf_pos s")
      (auto simp: stream_ok_def settled_def stream_rest_def)
  then have r: "stream_rest c es since fl ?s = r"
    using rest by (auto simp: stream_rest_def Cons_nth_drop_Suc [symmetric])
  have inv: "stream_inv c es ?s"
    using ok by (simp add: stream_ok_def stream_inv_def)
  have sorted: "sorted_wrt (\<lambda>a b. pair_of b \<le> pair_of a) r"
    using ok rest by (simp add: stream_ok_def)
  show thesis
  proof (cases "needs_refill ?s")
    case True
    obtain s' where "refill_stream env short_name w since fl ?s = Inr s'" "stream_inv c es s'" "settled s'"
      "stream_rest c es since fl s' = stream_rest c es since fl ?s"
      by (rule refill_stream_spec [OF srv w inv True])
    then show thesis
      using True r sorted by (intro that [of s']) (simp_all add: stream_ok_def)
  next
    case False
    then show thesis
      using inv r sorted by (intro that [of ?s]) (auto simp: stream_ok_def settled_def needs_refill_def)
  qed
qed

lemma heap_inv_pop:
  assumes ok: "\<forall>s\<in>set streams. stream_ok c es since fl s" and inv: "heap_inv c es since fl streams heap"
    and pop: "heap_pop heap = Some (m, heap')"
  obtains i t r where "i < length streams" "stream_rest c es since fl (streams ! i) = t # r" "m = candidate i t"
    "heap_inv c es since fl streams (candidate i t # heap')"
    "\<forall>s\<in>set streams. \<forall>y\<in>set (stream_rest c es since fl s). pair_of y \<le> pair_of t"
proof -
  let ?rest = "stream_rest c es since fl"
  have m: "m \<in> set heap" "\<forall>b\<in>set heap. mc_rank b \<le> mc_rank m"
    using bh.pop_member [OF pop] bh.pop_greatest [OF pop] by simp_all
  obtain i where i: "i < length streams" "?rest (streams ! i) \<noteq> []" "m = candidate i (hd (?rest (streams ! i)))"
    using m(1) inv by (auto simp: heap_inv_def)
  then obtain t r where tr: "?rest (streams ! i) = t # r" and mt: "m = candidate i t"
    by (cases "?rest (streams ! i)") auto
  have "pair_of y \<le> pair_of t" if "s \<in> set streams" "y \<in> set (?rest s)" for s y
  proof -
    obtain j where "j < length streams" "s = streams ! j"
      using \<open>s \<in> set streams\<close> by (auto simp: in_set_conv_nth)
    then have "candidate j (hd (?rest s)) \<in> set heap"
      using that(2) inv by (auto simp: heap_inv_def)
    then have "pair_of (hd (?rest s)) \<le> pair_of t"
      using m(2) mt by fastforce
    moreover have "pair_of y \<le> pair_of (hd (?rest s))"
      using that ok by (cases "?rest s") (auto simp: stream_ok_def)
    ultimately show ?thesis
      by simp
  qed
  moreover have "heap_inv c es since fl streams (candidate i t # heap')"
    using inv heap_inv_mset [of heap "candidate i t # heap'"] bh.pop_contents [OF pop] mt by simp
  ultimately show thesis
    using i(1) tr mt by (intro that) auto
qed

lemma merge_loop_spec:
  assumes srv: "serves_index env short_name c es" and w: "0 < w"
    and "\<forall>s\<in>set streams. stream_ok c es since fl s" "heap_inv c es since fl streams heap"
  shows "\<exists>res. merge_loop n env short_name w since fl streams heap = Inr res \<and>
    map pair_of res = take n (newest_first (concat (map (\<lambda>s. map pair_of (stream_rest c es since fl s)) streams)))"
  using assms(3,4)
proof (induction n arbitrary: streams heap)
  case (Suc n)
  let ?rest = "stream_rest c es since fl"
  let ?P = "map (\<lambda>s. map pair_of (?rest s)) streams"
  show ?case
  proof (cases "heap_pop heap")
    case None
    then have "heap = []"
      by (simp add: heap_pop_None)
    then have "\<forall>i<length streams. ?rest (streams ! i) = []"
      using Suc.prems(2) by (auto simp: heap_inv_def)
    then have "concat ?P = []"
      by (auto simp: in_set_conv_nth)
    then show ?thesis
      using None unfolding newest_first_def by (simp only: merge_loop.simps) simp
  next
    case (Some p)
    obtain m heap' where p: "p = (m, heap')"
      by (cases p)
    obtain i t r where i: "i < length streams" and tr: "?rest (streams ! i) = t # r" and mt: "m = candidate i t"
      and inv: "heap_inv c es since fl streams (candidate i t # heap')"
      and greatest: "\<forall>s\<in>set streams. \<forall>y\<in>set (?rest s). pair_of y \<le> pair_of t"
      using heap_inv_pop [OF Suc.prems] Some p by blast
    have step: "newest_first (concat ?P) = pair_of t # newest_first (concat (?P[i := map pair_of r]))"
      using i tr greatest by (intro newest_first_step) auto
    have ok: "stream_ok c es since fl (streams ! i)"
      using Suc.prems(1) i by simp
    obtain s' where s': "(let s = (streams ! i)\<lparr> st_buf_pos := st_buf_pos (streams ! i) + 1 \<rparr>
        in if needs_refill s then refill_stream env short_name w since fl s else Inr s) = Inr s'"
      "stream_ok c es since fl s'" "?rest s' = r"
      by (rule stream_ok_advance [OF srv w ok tr])
    have heap': "heap_inv c es since fl (streams[i := s']) (push_head i s' heap')"
      using s'(2) by (intro heap_inv_push [OF inv i]) (simp add: stream_ok_def)
    have "\<forall>s\<in>set (streams[i := s']). stream_ok c es since fl s"
      using Suc.prems(1) s'(2) by (auto dest!: set_update_subset_insert [THEN subsetD])
    then obtain res where res: "merge_loop n env short_name w since fl (streams[i := s']) (push_head i s' heap') = Inr res"
      "map pair_of res = take n (newest_first (concat (?P[i := map pair_of r])))"
      using Suc.IH [of "streams[i := s']" "push_head i s' heap'"] heap' s'(3) by (auto simp: map_update)
    have "merge_loop (Suc n) env short_name w since fl streams heap =
        (if n = 0 then Inr [t] else Inr (t # res))"
      using Some p mt s'(1) res(1) by (cases t) (simp add: Let_def)
    then show ?thesis
      using step res by (cases "n = 0") simp_all
  qed
qed simp

section \<open>Start keys\<close>

lemma group_prefix:
  assumes "valid_key c a" "valid_key c b" "length a = length b" "c \<noteq> DefaultComparator"
  shows "starts_with a (take (length b - 8) b) \<longleftrightarrow> key_group c a = key_group c b"
proof (cases c)
  case Uint64Uint64Cmp
  then show ?thesis
    using assms by (auto simp: starts_with_def le_nat_inject)
next
  case StringUint64Uint64Cmp
  let ?n = "length b"
  have n: "16 \<le> ?n" "?n - 16 + 8 = ?n - 8"
    using assms StringUint64Uint64Cmp by auto
  have "take (?n - 8) x = take (?n - 16) x @ take 8 (drop (?n - 16) x)" for x :: bytes
    using take_add [of "?n - 16" 8 x] n(2) by simp
  then show ?thesis
    using assms n(1) StringUint64Uint64Cmp by (auto simp: starts_with_def le_nat_inject min_def)
qed (use assms in \<open>auto simp: starts_with_def min_def\<close>)

lemma length_valid_key: "valid_key c k \<Longrightarrow> c \<noteq> DefaultComparator \<Longrightarrow> 8 \<le> length k"
  by (cases c) auto

lemma pair_of_entry_le:
  assumes "valid_entry c e" "valid_entry c f" "c \<noteq> DefaultComparator"
    and "key_group c (fst e) = key_group c (fst f)" "entry_rank c f < entry_rank c e"
  shows "pair_of (entry_triple f) \<le> pair_of (entry_triple e)"
proof -
  have "8 \<le> length (fst e)" "8 \<le> length (fst f)" "length (snd e) = 8" "length (snd f) = 8"
    using assms length_valid_key by (auto simp: valid_entry_def)
  then have "unat (created_at_from_key (fst e)) = key_ts (fst e)" "unat (created_at_from_key (fst f)) = key_ts (fst f)"
    "unat (value_lev_id (snd e)) = le_nat (snd e)" "unat (value_lev_id (snd f)) = le_nat (snd f)"
    by (simp_all add: created_at_from_key_ts value_lev_id_def unat_u64_from_le)
  moreover have "key_ts (fst f) < key_ts (fst e) \<or> key_ts (fst f) = key_ts (fst e) \<and> le_nat (snd f) < le_nat (snd e)"
    using assms(4,5) by (auto simp: entry_rank_def key_rank_def)
  ultimately show ?thesis
    by (auto simp: pair_of_def entry_triple_def word_less_nat_alt word_le_nat_alt word_unat_eq_iff)
qed

lemma start_range:
  assumes "serves_index env short_name c es" "start_key_ok c es k"
  shows "cursor_range c es Reverse k True = rev (filter (\<lambda>e. key_rank c (fst e) \<le> key_rank c k) es)"
proof -
  have k: "valid_key c k" and len: "8 \<le> length k"
    using assms serves_index_golpe length_valid_key by (auto simp: start_key_ok_def)
  then have "created_at_from_key k = u64_from_le (drop (length k - 8) k)"
    by (simp add: created_at_from_key_def)
  then show ?thesis
    using served_cursor_range [OF assms(1) k, of Reverse] assms(2) by (simp add: start_key_ok_def)
qed

lemma prefix_group:
  assumes "serves_index env short_name c es" "start_key_ok c es k" "e \<in> set es"
  shows "in_prefix (take (length k - 8) k) e \<longleftrightarrow> key_group c (fst e) = key_group c k"
proof -
  obtain db where "lmdb_index c db es"
    using assms(1) by (auto simp: serves_index_def)
  then have "valid_key c (fst e)"
    using assms(3) by (rule lmdb_index.key_valid)
  then show ?thesis
    using assms group_prefix [of c "fst e" k] serves_index_golpe
    by (auto simp: in_prefix_def start_key_ok_def)
qed

lemma new_stream_inv:
  assumes "serves_index env short_name c es" "start_key_ok c es k"
  shows "stream_inv c es (new_stream k)"
  unfolding stream_inv_def new_stream_def
  using assms(2) prefix_group [OF assms]
  by (intro conjI exI [of _ "key_group c k"]) (auto simp: start_key_ok_def start_range [OF assms] key_rank_def)

lemma start_sorted:
  assumes "serves_index env short_name c es" "start_key_ok c es k"
  shows "sorted_wrt (\<lambda>a b. pair_of b \<le> pair_of a)
     (map entry_triple (filter (in_prefix (take (length k - 8) k)) (cursor_range c es Reverse k True)))"
proof -
  obtain db where idx: "lmdb_index c db es"
    using assms(1) by (auto simp: serves_index_def)
  let ?xs = "filter (in_prefix (take (length k - 8) k)) (cursor_range c es Reverse k True)"
  have "sorted_wrt (\<lambda>e f. entry_rank c f < entry_rank c e) (rev es)"
    using lmdb_index.entries_sorted [OF idx] by (simp add: sorted_wrt_rev)
  then have "sorted_wrt (\<lambda>e f. entry_rank c f < entry_rank c e) ?xs"
    unfolding start_range [OF assms] rev_filter by (intro sorted_wrt_filter)
  moreover have valid: "valid_entry c e" "key_group c (fst e) = key_group c k" if "e \<in> set ?xs" for e
    using that lmdb_index.entries_valid [OF idx, of e] prefix_group [OF assms, of e]
    by (auto simp: start_range [OF assms])
  have "pair_of (entry_triple f) \<le> pair_of (entry_triple e)"
    if "e \<in> set ?xs" "f \<in> set ?xs" "entry_rank c f < entry_rank c e" for e f
    using pair_of_entry_le [OF valid(1) [OF that(1)] valid(1) [OF that(2)] serves_index_golpe [OF assms(1)]]
      valid(2) [OF that(1)] valid(2) [OF that(2)] that(3) by simp
  ultimately have "sorted_wrt (\<lambda>e f. pair_of (entry_triple f) \<le> pair_of (entry_triple e)) ?xs"
    by (rule sorted_wrt_mono_rel [rotated])
  then show ?thesis
    by (simp add: sorted_wrt_map)
qed

lemma rank_le_iff_ts:
  assumes "key_group c a = key_group c b" "8 \<le> length a" "8 \<le> length b"
  shows "key_rank c a \<le> key_rank c b \<longleftrightarrow> created_at_from_key a \<le> created_at_from_key b"
  using assms by (simp add: key_rank_def word_le_nat_alt created_at_from_key_ts)

text \<open>The stream of a start key is the filtered index, newest first.\<close>

lemma start_future:
  assumes srv: "serves_index env short_name c es" and k: "start_key_ok c es k"
  shows "stream_future c es since fl (take (length k - 8) k) k True =
    map entry_triple (rev (filter (wanted since fl k) es))"
proof -
  obtain db where idx: "lmdb_index c db es"
    using srv by (auto simp: serves_index_def)
  let ?p = "in_prefix (take (length k - 8) k)"
  let ?ts = "map entry_triple (filter ?p (cursor_range c es Reverse k True))"
  have wanted: "wanted since fl k e \<longleftrightarrow> ?p e \<and> key_rank c (fst e) \<le> key_rank c k \<and>
      since \<le> created_at_from_key (fst e) \<and> floor_ok fl (entry_triple e)" if e: "e \<in> set es" for e
  proof -
    have len: "8 \<le> length (fst e)" "8 \<le> length k"
      using lmdb_index.key_valid [OF idx e] k serves_index_golpe [OF srv] length_valid_key
      by (auto simp: start_key_ok_def)
    show ?thesis
      using rank_le_iff_ts [OF _ len, of c] prefix_group [OF assms e]
      by (cases fl) (auto simp: wanted_def floor_ok_def entry_triple_def)
  qed
  have "sorted_wrt (\<lambda>a b. \<not> fst b < since \<longrightarrow> \<not> fst a < since) (filter (floor_ok fl) ?ts)"
    using start_sorted [OF assms] by (intro sorted_wrt_filter, rule sorted_wrt_mono_rel [rotated])
      (auto simp: pair_of_def)
  then have "stream_future c es since fl (take (length k - 8) k) k True =
      filter (\<lambda>t. \<not> fst t < since) (filter (floor_ok fl) ?ts)"
    unfolding stream_future_def by (rule takeWhile_eq_filter_sorted) blast
  also have "\<dots> = map entry_triple (rev (filter (wanted since fl k) es))"
    unfolding start_range [OF assms] rev_filter filter_map filter_filter comp_def
    by (intro arg_cong [where f = "map entry_triple"] filter_cong refl)
      (use wanted in \<open>auto simp: entry_triple_def not_less\<close>)
  finally show ?thesis .
qed

lemma ex_nat_split: "(\<exists>i::nat. P i) \<longleftrightarrow> P 0 \<or> (\<exists>i. P (Suc i))"
  by (metis not0_implies_Suc)

lemma stream_heads_Cons:
  "{candidate (idx + i) (hd (rest ((s # ss) ! i))) |i. i < length (s # ss) \<and> rest ((s # ss) ! i) \<noteq> []} =
   (if rest s = [] then {} else {candidate idx (hd (rest s))}) \<union>
   {candidate (Suc idx + i) (hd (rest (ss ! i))) |i. i < length ss \<and> rest (ss ! i) \<noteq> []}"
  (is "{?f i |i. ?P i} = ?A \<union> {?g i |i. ?Q i}")
proof -
  have "{h i |i. R i} = (if R 0 then {h 0} else {}) \<union> {h (Suc i) |i. R (Suc i)}" (is "?X = ?Y")
    for h :: "nat \<Rightarrow> MergeCandidate" and R
  proof (rule set_eqI)
    show "m \<in> ?X \<longleftrightarrow> m \<in> ?Y" for m
      using ex_nat_split [of "\<lambda>i. m = h i \<and> R i"] by auto
  qed
  from this [of ?f ?P] show ?thesis
    by simp
qed

lemma seed_heap_inv:
  assumes "\<forall>s\<in>set ss. settled s"
    and "distinct (map mc_stream_idx heap)" "\<forall>m\<in>set heap. mc_stream_idx m < idx"
  shows "distinct (map mc_stream_idx (seed_heap idx ss heap)) \<and>
    set (seed_heap idx ss heap) = set heap \<union>
      {candidate (idx + i) (hd (stream_rest c es since fl (ss ! i))) |i.
        i < length ss \<and> stream_rest c es since fl (ss ! i) \<noteq> []}"
  using assms
proof (induction ss arbitrary: idx heap)
  case (Cons s ss)
  let ?rest = "stream_rest c es since fl"
  let ?heap = "push_head idx s heap"
  have push: "?heap = (if ?rest s = [] then heap else candidate idx (hd (?rest s)) # heap)"
    using Cons.prems(1) by (intro push_head_spec) simp
  have IH: "distinct (map mc_stream_idx (seed_heap (Suc idx) ss ?heap)) \<and>
      set (seed_heap (Suc idx) ss ?heap) = set ?heap \<union>
        {candidate (Suc idx + i) (hd (?rest (ss ! i))) |i. i < length ss \<and> ?rest (ss ! i) \<noteq> []}"
    using Cons.prems by (intro Cons.IH) (auto simp: push)
  show ?case
    unfolding stream_heads_Cons using IH by (auto simp: push)
qed simp

lemma mset_concat_filter:
  assumes "distinct ks" "\<And>x k k'. x \<in> set xs \<Longrightarrow> k \<in> set ks \<Longrightarrow> k' \<in> set ks \<Longrightarrow> Q k x \<Longrightarrow> Q k' x \<Longrightarrow> k = k'"
  shows "mset (concat (map (\<lambda>k. filter (Q k) xs) ks)) = mset (filter (\<lambda>x. \<exists>k\<in>set ks. Q k x) xs)"
  using assms
proof (induction ks)
  case (Cons k ks)
  have "mset (filter (\<lambda>x. \<exists>k'\<in>set (k # ks). Q k' x) xs) =
      mset (filter (Q k) xs) + mset (filter (\<lambda>x. \<exists>k'\<in>set ks. Q k' x) xs)"
    using Cons.prems(2)
  proof (induction xs)
    case (Cons x xs)
    have "\<not> (Q k x \<and> (\<exists>k'\<in>set ks. Q k' x))"
      using Cons.prems [of x k] \<open>distinct (k # ks)\<close> by auto
    moreover have "mset (filter (\<lambda>x. \<exists>k'\<in>set (k # ks). Q k' x) xs) =
      mset (filter (Q k) xs) + mset (filter (\<lambda>x. \<exists>k'\<in>set ks. Q k' x) xs)"
      using Cons.prems by (intro Cons.IH) auto
    ultimately show ?case
      by auto
  qed simp
  then show ?case
    using Cons by simp
qed simp

section \<open>The whole merge\<close>

lemma initial_streams:
  assumes srv: "serves_index env short_name c es" and w: "0 < w"
    and "\<forall>k\<in>set keys. start_key_ok c es k"
  shows "\<exists>streams. collect_r (map (\<lambda>k. refill_stream env short_name w since fl (new_stream k)) keys) = Inr streams \<and>
    (\<forall>s\<in>set streams. stream_ok c es since fl s) \<and>
    map (stream_rest c es since fl) streams = map (\<lambda>k. map entry_triple (rev (filter (wanted since fl k) es))) keys"
  using assms(3)
proof (induction keys)
  case (Cons k keys)
  have k: "start_key_ok c es k"
    using Cons.prems by simp
  have rest: "stream_rest c es since fl (new_stream k) = map entry_triple (rev (filter (wanted since fl k) es))"
    using start_future [OF srv k] by (simp add: stream_rest_def new_stream_def)
  have "sorted_wrt (\<lambda>a b. pair_of b \<le> pair_of a) (stream_future c es since fl (take (length k - 8) k) k True)"
    unfolding stream_future_def by (intro sorted_wrt_takeWhile sorted_wrt_filter start_sorted [OF srv k])
  then have sorted: "sorted_wrt (\<lambda>a b. pair_of b \<le> pair_of a) (stream_rest c es since fl (new_stream k))"
    by (simp add: stream_rest_def new_stream_def)
  have need: "needs_refill (new_stream k)"
    by (simp add: needs_refill_def new_stream_def)
  obtain s where "refill_stream env short_name w since fl (new_stream k) = Inr s" "stream_inv c es s" "settled s"
    "stream_rest c es since fl s = stream_rest c es since fl (new_stream k)"
    by (rule refill_stream_spec [OF srv w new_stream_inv [OF srv k] need])
  then show ?case
    using Cons rest sorted by (auto simp: stream_ok_def)
qed simp

lemma newest_first_mset: "mset xs = mset ys \<Longrightarrow> newest_first xs = newest_first ys"
  unfolding newest_first_def by (rule arg_cong [where f = rev], rule properties_for_sort) simp_all

lemma wanted_unique:
  assumes "k \<in> set keys" "k' \<in> set keys" "\<forall>k\<in>set keys. start_key_ok c es k"
    and "\<forall>k\<in>set keys. created_at_from_key k = ts" "serves_index env short_name c es"
    and "e \<in> set es" "wanted since fl k e" "wanted since fl k' e"
  shows "k = k'"
proof -
  have k: "start_key_ok c es k" "start_key_ok c es k'"
    using assms by auto
  have "length (fst e) = length k" "length (fst e) = length k'"
    using k assms(6) unfolding start_key_ok_def by blast+
  moreover have "8 \<le> length k"
    using k(1) length_valid_key serves_index_golpe [OF assms(5)] by (auto simp: start_key_ok_def)
  ultimately have len: "8 \<le> length k" "length k = length k'"
    by simp_all
  have "take (length k - 8) k = take (length k' - 8) k'"
    using assms(7,8) len by (auto simp: wanted_def in_prefix_def starts_with_def)
  moreover have "created_at_from_key k = created_at_from_key k'"
    using assms(1,2,4) by simp
  then have "drop (length k - 8) k = drop (length k' - 8) k'"
    using len u64_from_le_inject [of "drop (length k - 8) k" "drop (length k' - 8) k'"]
    by (simp add: created_at_from_key_def Let_def)
  ultimately show ?thesis
    by (rule key_split_at)
qed

lemma newest_first_wanted:
  assumes "\<And>e k k'. e \<in> set es \<Longrightarrow> k \<in> set keys \<Longrightarrow> k' \<in> set keys \<Longrightarrow>
      wanted since fl k e \<Longrightarrow> wanted since fl k' e \<Longrightarrow> k = k'" "distinct keys"
  shows "newest_first (concat (map (\<lambda>k. map (pair_of \<circ> entry_triple) (rev (filter (wanted since fl k) es))) keys)) =
    merge_matches es keys since fl"
  unfolding merge_matches_def
proof (rule newest_first_mset)
  let ?pairs = "\<lambda>k. map (pair_of \<circ> entry_triple) (rev (filter (wanted since fl k) es))"
  have "mset (concat (map ?pairs keys)) =
      image_mset (pair_of \<circ> entry_triple) (mset (concat (map (\<lambda>k. filter (wanted since fl k) es) keys)))"
    by (induction keys) (simp_all add: multiset.map_comp)
  also have "mset (concat (map (\<lambda>k. filter (wanted since fl k) es) keys)) =
      mset (filter (\<lambda>e. \<exists>k\<in>set keys. wanted since fl k e) es)"
    using assms by (intro mset_concat_filter) blast+
  finally show "mset (concat (map ?pairs keys)) =
      mset (map (pair_of \<circ> entry_triple) (filter (\<lambda>e. \<exists>k\<in>set keys. wanted since fl k e) es))"
    by (simp only: mset_map)
qed

lemma merge_windowed_spec:
  assumes srv: "serves_index env short_name c es" and w: "0 < w"
    and keys: "\<forall>k\<in>set keys. start_key_ok c es k \<and> created_at_from_key k = ts" "distinct keys"
  shows "map_ok (map pair_of) (merge_windowed env short_name keys w n since fl) =
    Inr (take n (merge_matches es keys since fl))"
proof (cases "keys = [] \<or> n = 0")
  case True
  then show ?thesis
    by (auto simp: merge_windowed_def merge_matches_def newest_first_def)
next
  case False
  have ok: "\<forall>k\<in>set keys. start_key_ok c es k"
    using keys by blast
  obtain streams where streams:
    "collect_r (map (\<lambda>k. refill_stream env short_name w since fl (new_stream k)) keys) = Inr streams"
    "\<forall>s\<in>set streams. stream_ok c es since fl s"
    "map (stream_rest c es since fl) streams = map (\<lambda>k. map entry_triple (rev (filter (wanted since fl k) es))) keys"
    using initial_streams [OF srv w ok] by blast
  have "heap_inv c es since fl streams (seed_heap 0 streams [])"
    using seed_heap_inv [of streams "[]" 0 c es since fl] streams(2) by (auto simp: heap_inv_def stream_ok_def)
  then obtain res where res: "merge_loop n env short_name w since fl streams (seed_heap 0 streams []) = Inr res"
    "map pair_of res = take n (newest_first (concat (map (\<lambda>s. map pair_of (stream_rest c es since fl s)) streams)))"
    using merge_loop_spec [OF srv w streams(2)] by blast
  have "map (\<lambda>s. map pair_of (stream_rest c es since fl s)) streams = map (map pair_of) (map (stream_rest c es since fl) streams)"
    by simp
  then have "map (\<lambda>s. map pair_of (stream_rest c es since fl s)) streams =
      map (\<lambda>k. map (pair_of \<circ> entry_triple) (rev (filter (wanted since fl k) es))) keys"
    unfolding streams(3) by simp
  moreover have "newest_first (concat (map (\<lambda>k. map (pair_of \<circ> entry_triple) (rev (filter (wanted since fl k) es))) keys)) =
      merge_matches es keys since fl"
    using keys by (intro newest_first_wanted wanted_unique [OF _ _ ok _ srv]) auto
  ultimately have "newest_first (concat (map (\<lambda>s. map pair_of (stream_rest c es since fl s)) streams)) =
      merge_matches es keys since fl"
    by simp
  then show ?thesis
    using False res streams(1) by (simp add: merge_windowed_def)
qed

section \<open>Properties\<close>

lemma example_start_ok:
  "start_key_ok Uint64Uint64Cmp (mem_entries Uint64Uint64Cmp example_kinds) (example_key 1 100)"
  "start_key_ok Uint64Uint64Cmp (mem_entries Uint64Uint64Cmp example_kinds) (example_key 255 100)"
  by code_simp+

lemma example_matches:
  "merge_matches (mem_entries Uint64Uint64Cmp example_kinds) [example_key 1 100, example_key 255 100] 0
     (Some (10, 300)) = [(10, 7), (9, 4), (5, 1)]"
  by code_simp

text \<open>
  C2: the windowed merge of a fixed-width index returns exactly the newest \<open>emit_limit\<close> of the
  records that lie under one of the start keys' prefixes, are not newer than the start bound, not
  older than \<open>since\<close> and below the resume floor, in descending order of (created_at, levId), each
  once and whatever the window size.
\<close>

theorem merge_windowed_exact:
  assumes "serves_index env short_name c es" "0 < batch_size" "distinct start_keys"
    and "\<forall>k\<in>set start_keys. start_key_ok c es k \<and> created_at_from_key k = ts"
  shows "map_ok (map pair_of) (merge_windowed env short_name start_keys batch_size emit_limit since lev_id_floor) =
    Inr (take emit_limit (merge_matches es start_keys since lev_id_floor))"
  using assms by (intro merge_windowed_spec)

theorem merge_windowed_exact_witness:
  "map_ok (map pair_of) (merge_windowed example_env ''Event__kind'' [example_key 1 100, example_key 255 100]
     1 2 0 (Some (10, 300))) = Inr [(10, 7), (9, 4)]"
proof -
  have "distinct [example_key 1 100, example_key 255 100]"
    by code_simp
  moreover have "created_at_from_key (example_key 1 100) = 100" "created_at_from_key (example_key 255 100) = 100"
    by code_simp+
  ultimately show ?thesis
    using merge_windowed_exact [OF example_env_serves, of 1 "[example_key 1 100, example_key 255 100]" 100 2 0
        "Some (10, 300)"] example_start_ok example_matches
    by simp
qed

end
