(* ===== verification/Hydrate.thy ===== *)
theory Hydrate
  imports QueryFilter
begin

text \<open>
  \<^verbatim>\<open>query/hydrate.rs\<close>: turning levIds into decoded events.  A missing payload is an error of the
  query, an undecodable one is skipped and counted.  The state threaded through both functions
  is the skip counter and the dictionary cache.
\<close>

type_synonym 'dd hydration = "nat \<times> 'dd dict_cache"

text \<open>One decode with the skip policy.\<close>

definition decode_or_skip ::
  "'dd codec \<Rightarrow> heed_env \<Rightarrow> LevId \<Rightarrow> bytes \<Rightarrow> 'dd hydration \<Rightarrow> (LevId \<times> DecodedEvent) list \<times> 'dd hydration" where
  "decode_or_skip cd env lev_id raw st =
     (case decode_event_payload_with_cache cd env raw (snd st) of
        (Inr decoded, cache') \<Rightarrow> ([(lev_id, decoded)], (fst st, cache'))
      | (Inl e, cache') \<Rightarrow> ([], (fst st + 1, cache')))"

fun hydrate_lev_ids ::
  "'dd codec \<Rightarrow> heed_env \<Rightarrow> LevId list \<Rightarrow> 'dd hydration
   \<Rightarrow> (query_error, (LevId \<times> DecodedEvent) list) result \<times> 'dd hydration" where
  "hydrate_lev_ids cd env [] st = (Inr [], st)"
| "hydrate_lev_ids cd env (lev_id # lev_ids) st =
     (case map_err Payload (get_event_payload env lev_id) of
        Inl e \<Rightarrow> (Inl e, st)
      | Inr raw \<Rightarrow>
          (case decode_or_skip cd env lev_id raw st of
             (found, st') \<Rightarrow>
               (case hydrate_lev_ids cd env lev_ids st' of
                  (r, st'') \<Rightarrow> (map_ok (append found) r, st''))))"

fun hydrate_decode_loop ::
  "'dd codec \<Rightarrow> heed_env \<Rightarrow> (LevId \<times> bytes) list \<Rightarrow> 'dd hydration
   \<Rightarrow> (LevId \<times> DecodedEvent) list \<times> 'dd hydration" where
  "hydrate_decode_loop cd env [] st = ([], st)"
| "hydrate_decode_loop cd env ((lev_id, raw) # raw_pairs) st =
     (case decode_or_skip cd env lev_id raw st of
        (found, st') \<Rightarrow>
          (case hydrate_decode_loop cd env raw_pairs st' of
             (rest, st'') \<Rightarrow> (found @ rest, st'')))"

definition hydrate_lev_ids_batch ::
  "'dd codec \<Rightarrow> heed_env \<Rightarrow> LevId list \<Rightarrow> 'dd hydration
   \<Rightarrow> (query_error, (LevId \<times> DecodedEvent) list) result \<times> 'dd hydration" where
  "hydrate_lev_ids_batch cd env lev_ids st =
     (if lev_ids = [] then (Inr [], st)
      else case map_err Payload (batch_get_event_payloads env lev_ids) of
             Inl e \<Rightarrow> (Inl e, st)
           | Inr raw_pairs \<Rightarrow>
               (case hydrate_decode_loop cd env raw_pairs st of (results, st') \<Rightarrow> (Inr results, st')))"

section \<open>What hydration computes\<close>

text \<open>The decode of a stored value with no cached dictionary.\<close>

definition decode_fresh :: "'dd codec \<Rightarrow> heed_env \<Rightarrow> bytes \<Rightarrow> DecodedEvent option" where
  "decode_fresh cd env raw =
     (case fst (decode_event_payload_with_cache cd env raw Map.empty) of Inr d \<Rightarrow> Some d | Inl _ \<Rightarrow> None)"

definition decoded_pairs ::
  "'dd codec \<Rightarrow> heed_env \<Rightarrow> (LevId \<times> bytes) list \<Rightarrow> (LevId \<times> DecodedEvent) list" where
  "decoded_pairs cd env raw_pairs =
     concat (map (\<lambda>(lev_id, raw). case decode_fresh cd env raw of None \<Rightarrow> [] | Some d \<Rightarrow> [(lev_id, d)])
       raw_pairs)"

lemma decode_or_skip_spec:
  assumes "cache_coherent cd env cache"
  obtains cache' where "cache_coherent cd env cache'"
    "decode_or_skip cd env lev_id raw (n, cache) =
      (case decode_fresh cd env raw of None \<Rightarrow> ([], (n + 1, cache'))
       | Some d \<Rightarrow> ([(lev_id, d)], (n, cache')))"
proof -
  note coh = decode_with_cache_coherent [OF assms, of raw MAX_EVENT_DECOMPRESSED_SIZE]
  obtain r cache' where
    r: "decode_event_payload_with_cache_and_limit cd env raw MAX_EVENT_DECOMPRESSED_SIZE cache = (r, cache')"
    by fastforce
  show thesis
    by (rule that [of cache'])
      (use coh r in \<open>auto simp: decode_or_skip_def decode_fresh_def decode_event_payload_with_cache_def
        split: sum.splits\<close>)
qed

lemma hydrate_decode_loop_spec:
  assumes "cache_coherent cd env cache"
  shows "\<exists>cache'. cache_coherent cd env cache' \<and>
    hydrate_decode_loop cd env raw_pairs (n, cache) =
      (decoded_pairs cd env raw_pairs,
       (n + length (filter (\<lambda>p. decode_fresh cd env (snd p) = None) raw_pairs), cache'))"
  using assms
proof (induction raw_pairs arbitrary: n cache)
  case (Cons p raw_pairs)
  obtain lev_id raw where p: "p = (lev_id, raw)"
    by (cases p)
  obtain cache' where "cache_coherent cd env cache'" and step: "decode_or_skip cd env lev_id raw (n, cache) =
      (case decode_fresh cd env raw of None \<Rightarrow> ([], (n + 1, cache'))
       | Some d \<Rightarrow> ([(lev_id, d)], (n, cache')))"
    using decode_or_skip_spec [OF Cons.prems] by blast
  then show ?case
    using Cons.IH [of cache' n] Cons.IH [of cache' "Suc n"] p
    by (cases "decode_fresh cd env raw") (auto simp: decoded_pairs_def)
qed (auto simp: decoded_pairs_def)

lemma batch_get_collect:
  "batch_get_event_payloads env lev_ids =
   collect_r (map (\<lambda>lev_id. map_ok (Pair lev_id) (get_event_payload env lev_id)) lev_ids)"
proof (cases lev_ids)
  case (Cons l ls)
  show ?thesis
  proof (cases "env_read_txn env")
    case (Inl e)
    then show ?thesis
      using Cons by (simp add: batch_get_event_payloads_def get_event_payload_def)
  next
    case (Inr u)
    then show ?thesis
      using Cons batch_get_loop_each [of env _ "l # ls"]
      by (cases "open_event_payload_db env") (simp_all add: batch_get_event_payloads_def get_event_payload_def)
  qed
qed (simp add: batch_get_event_payloads_def)

lemma collect_r_pairs:
  "collect_r (map (\<lambda>x. map_ok (Pair x) (f x)) xs) = Inr ps \<Longrightarrow> map fst ps = xs"
proof (induction xs arbitrary: ps)
  case (Cons x xs)
  then show ?case
    by (cases "f x"; cases "collect_r (map (\<lambda>x. map_ok (Pair x) (f x)) xs)") auto
qed simp

lemma hydrate_lev_ids_result:
  "fst (hydrate_lev_ids cd env lev_ids st) =
   (case collect_r (map (\<lambda>lev_id. map_ok (Pair lev_id) (get_event_payload env lev_id)) lev_ids) of
      Inl e \<Rightarrow> Inl (Payload e)
    | Inr raw_pairs \<Rightarrow> Inr (fst (hydrate_decode_loop cd env raw_pairs st)))"
proof (induction lev_ids arbitrary: st)
  case (Cons l ls)
  show ?case
  proof (cases "get_event_payload env l")
    case (Inr raw)
    obtain found st' where step: "decode_or_skip cd env l raw st = (found, st')"
      by (cases "decode_or_skip cd env l raw st")
    show ?thesis
      using Inr step Cons.IH [of st']
      by (auto simp: case_prod_beta split: sum.splits)
  qed simp
qed simp

lemma hydrate_lev_ids_loop:
  assumes "collect_r (map (\<lambda>l. map_ok (Pair l) (get_event_payload env l)) lev_ids) = Inr raws"
  shows "hydrate_lev_ids cd env lev_ids st =
    (Inr (fst (hydrate_decode_loop cd env raws st)), snd (hydrate_decode_loop cd env raws st))"
  using assms
proof (induction lev_ids arbitrary: raws st)
  case (Cons l ls)
  then obtain raw raws' where "get_event_payload env l = Inr raw" "raws = (l, raw) # raws'"
    "collect_r (map (\<lambda>l. map_ok (Pair l) (get_event_payload env l)) ls) = Inr raws'"
    by (cases "get_event_payload env l") (auto simp: result_eqs)
  then show ?case
    using Cons.IH [of raws'] by (simp add: case_prod_beta)
qed simp

lemma collect_present:
  assumes "\<forall>l\<in>set ls. \<exists>raw. f l = Inr raw"
  shows "collect_r (map (\<lambda>l. map_ok (Pair l) (f l)) ls) = Inr (map (\<lambda>l. (l, projr (f l))) ls)"
  using assms by (induction ls) auto

lemma hydrated_lookup:
  "map_of (rev (decoded_pairs cd env (map (\<lambda>l. (l, R l)) ls))) l =
   (if l \<in> set ls then decode_fresh cd env (R l) else None)"
proof (induction ls)
  case (Cons a ls)
  have "decoded_pairs cd env (map (\<lambda>l. (l, R l)) (a # ls)) =
      (case decode_fresh cd env (R a) of None \<Rightarrow> [] | Some d \<Rightarrow> [(a, d)]) @
      decoded_pairs cd env (map (\<lambda>l. (l, R l)) ls)"
    by (simp add: decoded_pairs_def)
  then show ?case
    using Cons by (auto simp: map_add_def split: option.splits)
qed (simp add: decoded_pairs_def)

text \<open>
  A codec and payloads for the records of \<^const>\<open>example_kinds\<close>: the payload of an event is its kind,
  and the payload of levId 4 does not parse.
\<close>

definition example_event :: "nat \<Rightarrow> NostrEvent" where
  "example_event kind = \<lparr> ev_id = [], ev_pubkey = [], ev_created_at = 0, ev_kind = word_of_nat kind,
     ev_tags = [], ev_content = [], ev_sig = [] \<rparr>"

definition example_codec :: "unit codec" where
  "example_codec = \<lparr>
     json_from_slice = (\<lambda>bs. if bs = [] then Inl ''EOF'' else Inr (example_event (le_nat bs))),
     dict_copy = (\<lambda>_. ()), with_prepared_dictionary = (\<lambda>_. Inr ()),
     decompress = (\<lambda>_ frame n. if length frame \<le> n then Inr frame else Inl ''size'') \<rparr>"

definition example_payloads :: "entry list" where
  "example_payloads = map (\<lambda>(lev_id, json). (nat_le 8 lev_id, 0 # json))
     [(7, nat_le 2 1), (300, nat_le 2 1), (2, nat_le 2 256), (1, nat_le 2 255), (4, [])]"

definition example_events_env :: heed_env where
  "example_events_env = with_store EVENT_PAYLOAD_DB_NAME example_payloads example_env"

definition example_decoded :: "nat \<Rightarrow> DecodedEvent" where
  "example_decoded kind = \<lparr> dec_event = example_event kind, dec_raw_json = nat_le 2 kind \<rparr>"

lemma example_events_env_serves:
  "serves_index example_events_env ''Event__kind'' Uint64Uint64Cmp (mem_entries Uint64Uint64Cmp example_kinds)"
  unfolding example_events_env_def
  by (rule with_store_serves [OF example_env_serves])
    (simp add: full_db_name_def RASGUEADB_PREFIX_def EVENT_PAYLOAD_DB_NAME_def)

lemma decode_fresh_example:
  "decode_fresh example_codec env [0] = None"
  "k < 65536 \<Longrightarrow> decode_fresh example_codec env (0 # nat_le 2 k) = Some (example_decoded k)"
proof -
  have "nat_le 2 k \<noteq> []"
    using length_nat_le [of 2 k] by fastforce
  then show "k < 65536 \<Longrightarrow> decode_fresh example_codec env (0 # nat_le 2 k) = Some (example_decoded k)"
    by (simp add: decode_fresh_def decode_event_payload_with_cache_def PAYLOAD_TAG_RAW_JSON_def
        decode_event_payload_with_cache_and_limit_def decode_json_def example_codec_def example_decoded_def
        le_nat_nat_le)
qed (simp add: decode_fresh_def decode_event_payload_with_cache_def PAYLOAD_TAG_RAW_JSON_def
    decode_event_payload_with_cache_and_limit_def decode_json_def example_codec_def)

lemma example_payload_present:
  "get_event_payload example_events_env 7 = Inr (0 # nat_le 2 1)"
  "get_event_payload example_events_env 300 = Inr (0 # nat_le 2 1)"
  "get_event_payload example_events_env 2 = Inr (0 # nat_le 2 256)"
  "get_event_payload example_events_env 1 = Inr (0 # nat_le 2 255)"
  "get_event_payload example_events_env 4 = Inr [0]"
  by (simp_all add: get_event_payload_def open_event_payload_db_def example_events_env_def with_store_def
      example_env_def mem_env_def mem_db_def example_payloads_def u64_to_le_def nat_le_inject)

section \<open>Properties\<close>

text \<open>
  C11: hydrating a batch under one read transaction gives the same answer as hydrating the levIds
  one transaction each, errors included.
\<close>

theorem hydrate_batch_equiv:
  "fst (hydrate_lev_ids_batch cd env lev_ids st) = fst (hydrate_lev_ids cd env lev_ids st)"
  by (auto simp: hydrate_lev_ids_batch_def hydrate_lev_ids_result batch_get_collect
      split: sum.splits prod.splits)

text \<open>
  Hydration keeps the order of the requested levIds, drops exactly the payloads that do not
  decode, counts each of them once, and does not depend on which dictionaries earlier decodes
  have cached.
\<close>

theorem hydrate_batch_spec:
  assumes "cache_coherent cd env cache"
    and "batch_get_event_payloads env lev_ids = Inr raw_pairs"
  shows "\<exists>cache'. cache_coherent cd env cache' \<and>
    hydrate_lev_ids_batch cd env lev_ids (n, cache) =
      (Inr (decoded_pairs cd env raw_pairs),
       (n + length (filter (\<lambda>p. decode_fresh cd env (snd p) = None) raw_pairs), cache')) \<and>
    map fst raw_pairs = lev_ids"
proof -
  have "map fst raw_pairs = lev_ids"
    using assms(2) unfolding batch_get_collect by (rule collect_r_pairs)
  moreover have "raw_pairs = []" if "lev_ids = []"
    using assms(2) that by (simp add: batch_get_event_payloads_def)
  ultimately show ?thesis
    using hydrate_decode_loop_spec [OF assms(1), of raw_pairs n] assms
    by (auto simp: hydrate_lev_ids_batch_def decoded_pairs_def)
qed

lemma example_raws:
  "batch_get_event_payloads example_events_env [7, 4, 1] =
     Inr [(7, 0 # nat_le 2 1), (4, [0]), (1, 0 # nat_le 2 255)]"
  by code_simp

lemma example_hydrated:
  "decoded_pairs example_codec example_events_env [(7, 0 # nat_le 2 1), (4, [0]), (1, 0 # nat_le 2 255)] =
     [(7, example_decoded 1), (1, example_decoded 255)]"
  "length (filter (\<lambda>p. decode_fresh example_codec example_events_env (snd p) = None)
     [(7 :: LevId, 0 # nat_le 2 1), (4, [0]), (1, 0 # nat_le 2 255)]) = 1"
  by (simp_all add: decoded_pairs_def decode_fresh_example)

theorem hydrate_batch_spec_witness:
  "\<exists>cache'. cache_coherent example_codec example_events_env cache' \<and>
    hydrate_lev_ids_batch example_codec example_events_env [7, 4, 1] (0, Map.empty) =
      (Inr [(7, example_decoded 1), (1, example_decoded 255)], (1, cache'))"
  using hydrate_batch_spec [OF cache_coherent_empty example_raws, of example_codec 0]
  unfolding example_hydrated by simp

end
