(* ===== verification/Engine.thy ===== *)
theory Engine
  imports Merge Hydrate
begin

text \<open>
  \<^verbatim>\<open>query/engine.rs\<close>: executing a filter (route, merge, hydrate, residual filter, paginate) and the
  per-author buckets.  The clock is the parameter \<open>now\<close>.  The round loop is a recursion on the
  remaining round budget; the dictionary cache and the skip counter are threaded through.
\<close>

section \<open>Expiration\<close>

definition MAX_ROUNDS :: nat where "MAX_ROUNDS = 8"

text \<open>\<^verbatim>\<open>str::parse::<u64>\<close>: an optional plus sign, at least one decimal digit, no overflow.\<close>

fun parse_digits :: "nat \<Rightarrow> string \<Rightarrow> nat option" where
  "parse_digits acc [] = Some acc"
| "parse_digits acc (c # cs) =
     (let d = (of_char c :: nat)
      in if 48 \<le> d \<and> d \<le> 57 \<and> acc * 10 + (d - 48) < 2 ^ 64
         then parse_digits (acc * 10 + (d - 48)) cs else None)"

definition parse_u64 :: "string \<Rightarrow> u64 option" where
  "parse_u64 s =
     (let digits = (case s of CHR ''+'' # cs \<Rightarrow> cs | _ \<Rightarrow> s)
      in if digits = [] then None else map_option word_of_nat (parse_digits 0 digits))"

fun tags_expired :: "u64 \<Rightarrow> string list list \<Rightarrow> bool" where
  "tags_expired now [] = False"
| "tags_expired now (tag # tags) =
     (if 2 \<le> length tag \<and> tag ! 0 = ''expiration''
      then (case parse_u64 (tag ! 1) of
              Some exp \<Rightarrow> if exp \<noteq> 0 \<and> exp \<le> now then True else tags_expired now tags
            | None \<Rightarrow> tags_expired now tags)
      else tags_expired now tags)"

definition is_expired :: "u64 \<Rightarrow> NostrEvent \<Rightarrow> bool" where
  "is_expired now event = tags_expired now (ev_tags event)"

section \<open>Residual filter\<close>

definition tag_matches :: "TagFilter \<Rightarrow> string list \<Rightarrow> bool" where
  "tag_matches tf ev_tag \<longleftrightarrow>
     2 \<le> length ev_tag \<and> ev_tag ! 0 = tag_name tf \<and> list_ex (\<lambda>v. v = ev_tag ! 1) (tag_values tf)"

text \<open>The checks on a decoded event, in the order of the code; True keeps the event.\<close>

definition residual_ok :: "u64 \<Rightarrow> NostrFilter \<Rightarrow> NostrEvent \<Rightarrow> bool" where
  "residual_ok now flt event \<longleftrightarrow>
     \<not> is_expired now event \<and>
     (case f_kinds flt of None \<Rightarrow> True | Some kinds \<Rightarrow> ev_kind event \<in> set kinds) \<and>
     (case f_authors flt of None \<Rightarrow> True | Some authors \<Rightarrow> list_ex (\<lambda>a. a = ev_pubkey event) authors) \<and>
     (case f_ids flt of None \<Rightarrow> True | Some ids \<Rightarrow> list_ex (\<lambda>i. i = ev_id event) ids) \<and>
     (case f_tags flt of None \<Rightarrow> True
      | Some tags \<Rightarrow> list_all (\<lambda>tf. list_ex (tag_matches tf) (ev_tags event)) tags)"

section \<open>One round\<close>

type_synonym valid_entry_list = "(u64 \<times> LevId \<times> DecodedEvent) list"

text \<open>The cursor exclusion on a merged batch.\<close>

definition exclude_emitted :: "(u64 \<times> LevId) option \<Rightarrow> triple list \<Rightarrow> (u64 \<times> LevId) list" where
  "exclude_emitted boundary batch =
     List.map_filter (\<lambda>(ts, lev_id, _). case boundary of
         Some (cur_ts, cur_lev) \<Rightarrow>
           if ts > cur_ts \<or> (ts = cur_ts \<and> lev_id \<ge> cur_lev) then None else Some (ts, lev_id)
       | None \<Rightarrow> Some (ts, lev_id)) batch"

text \<open>
  The loop over the surviving pairs: joined on the levId with the hydrated map, from which each hit
  is removed, and stopped when the page is full.
\<close>

fun collect_valid ::
  "u64 \<Rightarrow> NostrFilter \<Rightarrow> nat \<Rightarrow> (u64 \<times> LevId) list \<Rightarrow> (LevId \<rightharpoonup> DecodedEvent) \<Rightarrow> valid_entry_list
   \<Rightarrow> valid_entry_list" where
  "collect_valid now flt limit [] hydrated valid = valid"
| "collect_valid now flt limit ((ts, lev_id) # batch) hydrated valid =
     (if limit \<le> length valid then valid
      else case hydrated lev_id of
             None \<Rightarrow> collect_valid now flt limit batch hydrated valid
           | Some decoded \<Rightarrow>
               collect_valid now flt limit batch (hydrated(lev_id := None))
                 (if residual_ok now flt (dec_event decoded) then valid @ [(ts, lev_id, decoded)] else valid))"

record round_state =
  rs_valid :: valid_entry_list
  rs_boundary :: "(u64 \<times> LevId) option"
  rs_exhausted :: bool
  rs_deepest :: "(u64 \<times> LevId) option"

definition round_filter :: "NostrFilter \<Rightarrow> (u64 \<times> LevId) option \<Rightarrow> NostrFilter" where
  "round_filter flt boundary =
     flt\<lparr> f_until := Some (case boundary of
        Some (ts, _) \<Rightarrow> ts | None \<Rightarrow> (case f_until flt of None \<Rightarrow> u64_MAX | Some t \<Rightarrow> t)) \<rparr>"

definition last_pair :: "triple list \<Rightarrow> (u64 \<times> LevId) option" where
  "last_pair batch = (if batch = [] then None else Some (fst (last batch), fst (snd (last batch))))"

text \<open>Hydrating a batch and collecting its survivors.\<close>

definition hydrate_round ::
  "'dd codec \<Rightarrow> heed_env \<Rightarrow> u64 \<Rightarrow> NostrFilter \<Rightarrow> nat \<Rightarrow> (u64 \<times> LevId) list \<Rightarrow> valid_entry_list
   \<Rightarrow> 'dd hydration \<Rightarrow> (query_error, valid_entry_list) result \<times> 'dd hydration" where
  "hydrate_round cd env now flt limit filtered_batch valid st =
     (if filtered_batch = [] then (Inr valid, st)
      else case hydrate_lev_ids cd env (map snd filtered_batch) st of
             (Inl e, st') \<Rightarrow> (Inl e, st')
           | (Inr hydrated_pairs, st') \<Rightarrow>
               (Inr (collect_valid now flt limit filtered_batch (map_of (rev hydrated_pairs)) valid), st'))"

text \<open>
  The round loop; the argument is the number of rounds left, so that \<^verbatim>\<open>rounds >= MAX_ROUNDS\<close> after
  the increment is \<open>n = 0\<close>.
\<close>

fun query_loop ::
  "nat \<Rightarrow> 'dd codec \<Rightarrow> heed_env \<Rightarrow> u64 \<Rightarrow> NostrFilter \<Rightarrow> nat \<Rightarrow> nat \<Rightarrow> nat \<Rightarrow> round_state
   \<Rightarrow> 'dd hydration \<Rightarrow> (query_error, round_state) result \<times> 'dd hydration" where
  "query_loop 0 cd env now flt limit emit_limit batch_size rs st = (Inr rs, st)"
| "query_loop (Suc n) cd env now flt limit emit_limit batch_size rs st =
     (let selected = select_index flt;
          since = (case f_since flt of None \<Rightarrow> 0 | Some t \<Rightarrow> t);
          start_keys = build_start_keys (round_filter flt (rs_boundary rs)) selected Reverse
      in if start_keys = [] then (Inr rs, st)
         else case map_err Lmdb (merge_windowed env (index_short_name selected) start_keys batch_size
                                   emit_limit since (rs_boundary rs)) of
           Inl e \<Rightarrow> (Inl e, st)
         | Inr merge_batch \<Rightarrow>
             (let exhausted = length merge_batch < emit_limit;
                  last_merged = last_pair merge_batch;
                  filtered_batch = exclude_emitted (rs_boundary rs) merge_batch
              in case hydrate_round cd env now flt limit filtered_batch (rs_valid rs) st of
                   (Inl e, st') \<Rightarrow> (Inl e, st')
                 | (Inr valid, st') \<Rightarrow>
                     let rs = rs\<lparr> rs_valid := valid, rs_exhausted := exhausted,
                                 rs_deepest := (if last_merged = None then rs_deepest rs else last_merged) \<rparr>
                     in if limit \<le> length valid \<or> exhausted \<or> n = 0 then (Inr rs, st')
                        else if last_merged = rs_boundary rs
                        then (Inr (case last_merged of
                                Some (stalled_ts, _) \<Rightarrow>
                                  if stalled_ts > 0
                                  then rs\<lparr> rs_deepest := Some (stalled_ts - 1, u64_MAX) \<rparr> else rs
                              | None \<Rightarrow> rs), st')
                        else query_loop n cd env now flt limit emit_limit batch_size
                               (rs\<lparr> rs_boundary := last_merged \<rparr>) st'))"

section \<open>The query\<close>

definition cursor_at :: "u64 \<times> LevId \<Rightarrow> PageCursor" where
  "cursor_at p = \<lparr> cur_created_at = fst p, cur_lev_id = snd p \<rparr>"

text \<open>The next-page cursor from the final state.\<close>

definition next_cursor :: "nat \<Rightarrow> valid_entry_list \<Rightarrow> bool \<Rightarrow> (u64 \<times> LevId) option \<Rightarrow> PageCursor option" where
  "next_cursor limit valid exhausted deepest =
     (let from_last = (if valid = [] then None
                       else Some (cursor_at (fst (last valid), fst (snd (last valid)))))
      in if length valid = limit then from_last
         else if valid \<noteq> [] \<and> \<not> exhausted then from_last
         else if valid = [] \<and> \<not> exhausted then map_option cursor_at deepest
         else None)"

definition execute_query_internal ::
  "'dd codec \<Rightarrow> heed_env \<Rightarrow> u64 \<Rightarrow> NostrFilter \<Rightarrow> PageCursor option \<Rightarrow> nat \<Rightarrow> 'dd dict_cache
   \<Rightarrow> (query_error, DecodedEvent list \<times> PageCursor option) result \<times> 'dd hydration" where
  "execute_query_internal cd env now flt cursor batch_size cache =
     (let limit = (if f_limit flt = 0 then DEFAULT_WINDOW_SIZE else f_limit flt);
          emit_limit = usize_saturating_add (usize_saturating_add limit DEFAULT_WINDOW_SIZE) limit;
          cursor_boundary = map_option (\<lambda>c. (cur_created_at c, cur_lev_id c)) cursor;
          rs = \<lparr> rs_valid = [], rs_boundary = cursor_boundary, rs_exhausted = False, rs_deepest = None \<rparr>
      in case query_loop MAX_ROUNDS cd env now flt limit emit_limit batch_size rs (0, cache) of
           (Inl e, st) \<Rightarrow> (Inl e, st)
         | (Inr rs, st) \<Rightarrow>
             let valid = take limit (rs_valid rs)
             in (Inr (map (snd \<circ> snd) valid,
                      next_cursor limit valid (rs_exhausted rs) (rs_deepest rs)), st))"

definition execute_query ::
  "'dd codec \<Rightarrow> heed_env \<Rightarrow> u64 \<Rightarrow> NostrFilter \<Rightarrow> PageCursor option \<Rightarrow> 'dd dict_cache
   \<Rightarrow> (query_error, DecodedEvent list \<times> PageCursor option) result \<times> 'dd hydration" where
  "execute_query cd env now flt cursor cache =
     execute_query_internal cd env now flt cursor DEFAULT_WINDOW_SIZE cache"

end
