(* ===== verification/QueryPages.thy ===== *)
theory QueryPages
  imports Engine
begin

text \<open>
  What a query answers, and that \<^verbatim>\<open>execute_query\<close> answers it page by page: the specification
  \<open>remaining\<close> lists the events a cursor still has to deliver, from the records of the selected index
  alone; the lemmas follow one round, the round loop and the choice of the next cursor.
\<close>

section \<open>What a query answers\<close>

text \<open>The records of the index under one of the filter's prefixes and not older than \<open>since\<close>.\<close>

definition in_scope :: "NostrFilter \<Rightarrow> entry \<Rightarrow> bool" where
  "in_scope flt e \<longleftrightarrow>
     (\<exists>p\<in>start_prefixes flt (select_index flt). in_prefix p e) \<and>
     (case f_since flt of None \<Rightarrow> 0 | Some t \<Rightarrow> t) \<le> created_at_from_key (fst e)"

text \<open>The upper end of a page: strictly below the cursor, or up to \<open>until\<close> on the first page.\<close>

definition below_boundary :: "NostrFilter \<Rightarrow> (u64 \<times> LevId) option \<Rightarrow> u64 \<times> LevId \<Rightarrow> bool" where
  "below_boundary flt boundary p \<longleftrightarrow>
     (case boundary of
        Some b \<Rightarrow> p < b
      | None \<Rightarrow> fst p \<le> (case f_until flt of None \<Rightarrow> u64_MAX | Some t \<Rightarrow> t))"

definition query_pairs :: "NostrFilter \<Rightarrow> entry list \<Rightarrow> (u64 \<times> LevId) option \<Rightarrow> (u64 \<times> LevId) list" where
  "query_pairs flt es boundary =
     filter (below_boundary flt boundary) (newest_first (map (pair_of \<circ> entry_triple) (filter (in_scope flt) es)))"

text \<open>What a stored event decodes to, and the pairs whose event passes the residual filter.\<close>

definition stored_event :: "'dd codec \<Rightarrow> heed_env \<Rightarrow> LevId \<Rightarrow> DecodedEvent option" where
  "stored_event cd env lev_id =
     (case get_event_payload env lev_id of Inl _ \<Rightarrow> None | Inr raw \<Rightarrow> decode_fresh cd env raw)"

definition survivors ::
  "'dd codec \<Rightarrow> heed_env \<Rightarrow> u64 \<Rightarrow> NostrFilter \<Rightarrow> (u64 \<times> LevId) list \<Rightarrow> valid_entry_list" where
  "survivors cd env now flt ps =
     List.map_filter (\<lambda>(ts, lev_id). case stored_event cd env lev_id of
         Some d \<Rightarrow> if residual_ok now flt (dec_event d) then Some (ts, lev_id, d) else None
       | None \<Rightarrow> None) ps"

definition index_width :: "string \<Rightarrow> nat option" where
  "index_width name =
     (if name = ''Event__id'' \<or> name = ''Event__pubkey'' then Some 40
      else if name = ''Event__kind'' then Some 16
      else if name = ''Event__pubkeyKind'' then Some 48
      else if name = ''Event__created_at'' then Some 8 else None)"

text \<open>
  What a query relies on: the selected index is served, has keys of its documented width, one record
  per event, no event at the end of time, and every indexed event has a payload.
\<close>

definition query_served :: "heed_env \<Rightarrow> NostrFilter \<Rightarrow> comparator \<Rightarrow> entry list \<Rightarrow> bool" where
  "query_served env flt c es \<longleftrightarrow>
     serves_index env (index_short_name (select_index flt)) c es \<and>
     (\<forall>e\<in>set es. Some (length (fst e)) = index_width (index_short_name (select_index flt)) \<and>
        created_at_from_key (fst e) \<noteq> u64_MAX \<and>
        (\<exists>raw. get_event_payload env (value_lev_id (snd e)) = Inr raw)) \<and>
     distinct (map snd es) \<and> index_width (index_short_name (select_index flt)) \<noteq> None"

definition page_limit :: "NostrFilter \<Rightarrow> nat" where
  "page_limit flt = (if f_limit flt = 0 then DEFAULT_WINDOW_SIZE else f_limit flt)"

definition cursor_pair :: "PageCursor \<Rightarrow> u64 \<times> LevId" where
  "cursor_pair c = (cur_created_at c, cur_lev_id c)"

text \<open>The events a query still has to return, newest first, from the first page or below a cursor.\<close>

definition remaining ::
  "'dd codec \<Rightarrow> heed_env \<Rightarrow> u64 \<Rightarrow> NostrFilter \<Rightarrow> entry list \<Rightarrow> PageCursor option \<Rightarrow> DecodedEvent list" where
  "remaining cd env now flt es cursor =
     map (snd \<circ> snd) (survivors cd env now flt (query_pairs flt es (map_option cursor_pair cursor)))"

text \<open>The state after a round that scanned the front of \<open>Q\<close>.\<close>

definition after_round ::
  "'dd codec \<Rightarrow> heed_env \<Rightarrow> u64 \<Rightarrow> NostrFilter \<Rightarrow> nat \<Rightarrow> nat \<Rightarrow> (u64 \<times> LevId) list \<Rightarrow> round_state \<Rightarrow> round_state" where
  "after_round cd env now flt limit emit_limit Q rs =
     rs\<lparr> rs_valid := take limit (rs_valid rs @ survivors cd env now flt (take emit_limit Q)),
       rs_exhausted := (length Q < emit_limit),
       rs_deepest := (if take emit_limit Q = [] then rs_deepest rs else Some (last (take emit_limit Q))) \<rparr>"

text \<open>Every collected event passes the residual filter.\<close>

definition all_residual :: "u64 \<Rightarrow> NostrFilter \<Rightarrow> valid_entry_list \<Rightarrow> bool" where
  "all_residual now flt valid = list_all (\<lambda>v. residual_ok now flt (dec_event (snd (snd v)))) valid"

definition example_filter :: NostrFilter where
  "example_filter = \<lparr> f_ids = None, f_authors = None, f_kinds = Some [1, 256], f_tags = None,
     f_since = None, f_until = Some 100, f_limit = 1 \<rparr>"

section \<open>The merge of a round\<close>

lemma select_index_round [simp]: "select_index (round_filter flt b) = select_index flt"
  by (simp add: select_index_def round_filter_def)

lemma start_prefixes_round [simp]: "start_prefixes (round_filter flt b) sel = start_prefixes flt sel"
  by (simp add: start_prefixes_def round_filter_def)

lemma start_prefix_width:
  assumes "p \<in> start_prefixes flt (select_index flt)" "index_width (index_short_name (select_index flt)) = Some n"
  shows "length p + 8 = n"
  using start_prefix_length [OF assms(1)] assms(2)
  by (auto simp: select_index_def index_short_name_def index_width_def split: if_splits)

lemma round_keys_ok:
  assumes "query_served env flt c es" "k \<in> set (build_start_keys (round_filter flt b) (select_index flt) Reverse)"
  shows "start_key_ok c es k" "created_at_from_key k = start_ts (round_filter flt b) Reverse"
proof -
  obtain p where p: "p \<in> start_prefixes flt (select_index flt)" "k = p @ u64_to_le (start_ts (round_filter flt b) Reverse)"
    using assms(2) by (auto simp: set_build_start_keys)
  then show "created_at_from_key k = start_ts (round_filter flt b) Reverse"
    by simp
  have "valid_key c k"
    using start_key_valid [of k "round_filter flt b" Reverse c] assms by (auto simp: query_served_def serves_index_def)
  moreover have "\<forall>e\<in>set es. length (fst e) = length k"
    using assms(1) start_prefix_width [OF p(1)] p(2) by (fastforce simp: query_served_def)
  moreover have "created_at_from_key k \<noteq> u64_MAX \<or> (\<forall>e\<in>set es. fst e \<noteq> k)"
    using assms(1) by (auto simp: query_served_def)
  ultimately show "start_key_ok c es k"
    by (simp add: start_key_ok_def)
qed

lemma start_ts_round:
  "start_ts (round_filter flt b) Reverse =
   (case b of Some (ts, _) \<Rightarrow> ts | None \<Rightarrow> (case f_until flt of None \<Rightarrow> u64_MAX | Some t \<Rightarrow> t))"
  by (simp add: start_ts_def round_filter_def)

lemma round_wanted:
  "(\<exists>k\<in>set (build_start_keys (round_filter flt b) (select_index flt) Reverse). wanted since b k e) \<longleftrightarrow>
   (\<exists>p\<in>start_prefixes flt (select_index flt). in_prefix p e) \<and> since \<le> created_at_from_key (fst e) \<and>
   below_boundary flt b (pair_of (entry_triple e))"
  by (auto simp: set_build_start_keys wanted_def below_boundary_def pair_of_def entry_triple_def
      start_ts_round split: option.splits prod.splits)

lemma merge_matches_round:
  "merge_matches es (build_start_keys (round_filter flt b) (select_index flt) Reverse)
     (case f_since flt of None \<Rightarrow> 0 | Some t \<Rightarrow> t) b = query_pairs flt es b"
  unfolding merge_matches_def query_pairs_def newest_first_def rev_filter [symmetric] filter_sort round_wanted
  by (simp add: filter_map comp_def in_scope_def conj_ac)

lemma merge_round:
  assumes "query_served env flt c es" "0 < batch_size"
  obtains batch where
    "merge_windowed env (index_short_name (select_index flt))
       (build_start_keys (round_filter flt b) (select_index flt) Reverse) batch_size emit_limit
       (case f_since flt of None \<Rightarrow> 0 | Some t \<Rightarrow> t) b = Inr batch"
    "map pair_of batch = take emit_limit (query_pairs flt es b)"
proof -
  have "distinct (build_start_keys (round_filter flt b) (select_index flt) Reverse)"
    using sorted_distinct_keys [of "round_filter flt b" "select_index flt" Reverse]
    by (simp add: strict_sorted_iff)
  then have "map_ok (map pair_of) (merge_windowed env (index_short_name (select_index flt))
       (build_start_keys (round_filter flt b) (select_index flt) Reverse) batch_size emit_limit
       (case f_since flt of None \<Rightarrow> 0 | Some t \<Rightarrow> t) b) = Inr (take emit_limit (query_pairs flt es b))"
    using assms round_keys_ok [OF assms(1)] unfolding merge_matches_round [symmetric]
    by (intro merge_windowed_spec) (auto simp: query_served_def)
  then show thesis
    using that by (auto simp: result_eqs)
qed


section \<open>Pages of a descending list\<close>

lemma query_pairs_sorted:
  assumes "query_served env flt c es"
  shows "sorted_wrt (\<lambda>p q. q < p) (query_pairs flt es b)" "distinct (map snd (query_pairs flt es b))"
proof -
  obtain db where idx: "lmdb_index c db es"
    using assms by (auto simp: query_served_def serves_index_def)
  let ?ps = "map (pair_of \<circ> entry_triple) (filter (in_scope flt) es)"
  have "inj_on (\<lambda>v. value_lev_id v) (snd ` set es)"
  proof (rule inj_onI)
    fix v w
    assume "v \<in> snd ` set es" "w \<in> snd ` set es" "value_lev_id v = value_lev_id w"
    then show "v = w"
      using lmdb_index.value_length [OF idx] by (auto simp: value_lev_id_def u64_from_le_inject)
  qed
  then have "distinct (map (\<lambda>e. value_lev_id (snd e)) es)"
    using assms by (simp add: query_served_def distinct_map comp_inj_on comp_def image_image inj_on_def)
  then have lev: "distinct (map snd ?ps)"
    by (simp add: comp_def pair_of_def entry_triple_def distinct_map_filter)
  then have "distinct ?ps"
    by (simp only: distinct_map)
  then have "sorted_wrt (<) (sort ?ps)"
    by (simp add: strict_sorted_iff)
  then show "sorted_wrt (\<lambda>p q. q < p) (query_pairs flt es b)"
    unfolding query_pairs_def newest_first_def by (intro sorted_wrt_filter) (simp add: sorted_wrt_rev)
  have "mset (map snd (newest_first ?ps)) = mset (map snd ?ps)"
    unfolding newest_first_def mset_map mset_rev mset_sort ..
  then have "distinct (map snd (newest_first ?ps))"
    using lev by (metis mset_eq_imp_distinct_iff)
  then show "distinct (map snd (query_pairs flt es b))"
    unfolding query_pairs_def by (rule distinct_map_filter)
qed

text \<open>What lies below an element of a page is the rest of the list after it.\<close>

lemma query_pairs_below:
  assumes "query_served env flt c es" "query_pairs flt es b = xs @ l # ys"
  shows "query_pairs flt es (Some l) = ys"
proof -
  let ?all = "newest_first (map (pair_of \<circ> entry_triple) (filter (in_scope flt) es))"
  have "l \<in> set (query_pairs flt es b)"
    using assms(2) by simp
  then have l: "below_boundary flt b l"
    by (simp add: query_pairs_def)
  have "query_pairs flt es (Some l) = filter (\<lambda>p. p < l) (query_pairs flt es b)"
    unfolding query_pairs_def filter_filter
  proof (rule filter_cong [OF refl])
    fix p
    show "below_boundary flt (Some l) p \<longleftrightarrow> below_boundary flt b p \<and> p < l"
    proof (cases b)
      case None
      have "fst p \<le> fst l" if "p < l"
        using that by (auto simp: less_prod_def)
      then show ?thesis
        using l None by (auto simp: below_boundary_def intro: order_trans)
    next
      case (Some a)
      then show ?thesis
        using l less_trans [of p l a] by (simp add: below_boundary_def) blast
    qed
  qed
  also have "\<dots> = ys"
    using query_pairs_sorted(1) [OF assms(1), of b] unfolding assms(2)
    by (auto simp: sorted_wrt_append filter_empty_conv intro!: filter_True dest: less_asym)
  finally show ?thesis .
qed

lemma query_pairs_all_below: "p \<in> set (query_pairs flt es (Some b)) \<Longrightarrow> p < b"
  by (simp add: query_pairs_def below_boundary_def)

lemma exclude_emitted_below:
  assumes "map pair_of batch = take n (query_pairs flt es b)"
  shows "exclude_emitted b batch = map pair_of batch"
proof (cases b)
  case None
  then show ?thesis
    by (induction batch) (auto simp: exclude_emitted_def List.map_filter_def pair_of_def)
next
  case (Some cur)
  have "\<forall>t\<in>set batch. pair_of t < cur"
    using assms Some query_pairs_all_below by (metis in_set_takeD list.set_map image_eqI)
  then show ?thesis
    using Some by (induction batch) (auto simp: exclude_emitted_def List.map_filter_def pair_of_def split: prod.splits)
qed

lemma last_pair_eq: "last_pair batch = (if batch = [] then None else Some (last (map pair_of batch)))"
  by (simp add: last_pair_def last_map pair_of_def)

section \<open>Survivors\<close>

lemma survivors_append [simp]:
  "survivors cd env now flt (xs @ ys) = survivors cd env now flt xs @ survivors cd env now flt ys"
  by (simp add: survivors_def List.map_filter_def)

lemma survivors_Nil [simp]: "survivors cd env now flt [] = []"
  by (simp add: survivors_def List.map_filter_def)

lemma survivors_Cons:
  "survivors cd env now flt ((ts, lev_id) # ps) =
   (case stored_event cd env lev_id of
      Some d \<Rightarrow> if residual_ok now flt (dec_event d) then (ts, lev_id, d) # survivors cd env now flt ps
                else survivors cd env now flt ps
    | None \<Rightarrow> survivors cd env now flt ps)"
  by (auto simp: survivors_def List.map_filter_def split: option.splits)

lemma collect_valid_spec:
  assumes "distinct (map snd ps)" "\<forall>p\<in>set ps. hydrated (snd p) = stored_event cd env (snd p)"
  shows "collect_valid now flt limit ps hydrated valid =
    (if limit \<le> length valid then valid else take limit (valid @ survivors cd env now flt ps))"
  using assms
proof (induction ps arbitrary: hydrated valid)
  case (Cons p ps)
  obtain ts lev_id where p: "p = (ts, lev_id)"
    by (cases p)
  have "collect_valid now flt limit ps (hydrated(lev_id := None)) v =
      (if limit \<le> length v then v else take limit (v @ survivors cd env now flt ps))" for v
    using Cons.prems p by (intro Cons.IH) (auto simp: image_iff)
  moreover have "collect_valid now flt limit ps hydrated v =
      (if limit \<le> length v then v else take limit (v @ survivors cd env now flt ps))" for v
    using Cons.prems by (intro Cons.IH) auto
  moreover have "hydrated lev_id = stored_event cd env lev_id"
    using Cons.prems p by simp
  ultimately show ?case
    using p by (cases "stored_event cd env lev_id")
      (auto simp: survivors_Cons take_Cons' simp del: fun_upd_apply)
qed simp

lemma hydrate_round_spec:
  assumes coh: "cache_coherent cd env cache" and "length valid < limit"
    and "distinct (map snd ps)" "\<forall>p\<in>set ps. \<exists>raw. get_event_payload env (snd p) = Inr raw"
  shows "\<exists>n' cache'. cache_coherent cd env cache' \<and>
    hydrate_round cd env now flt limit ps valid (n, cache) =
      (Inr (take limit (valid @ survivors cd env now flt ps)), (n', cache'))"
proof (cases "ps = []")
  case True
  then show ?thesis
    using coh assms(2) by (auto simp: hydrate_round_def)
next
  case False
  let ?R = "\<lambda>l. projr (get_event_payload env l)"
  let ?raws = "map (\<lambda>l. (l, ?R l)) (map snd ps)"
  have present: "\<forall>l\<in>set (map snd ps). \<exists>raw. get_event_payload env l = Inr raw"
    using assms(4) by auto
  obtain cache' where cache': "cache_coherent cd env cache'" and
    loop: "hydrate_decode_loop cd env ?raws (n, cache) =
      (decoded_pairs cd env ?raws, (n + length (filter (\<lambda>p. decode_fresh cd env (snd p) = None) ?raws), cache'))"
    using hydrate_decode_loop_spec [OF coh, of ?raws n] by blast
  have "hydrate_lev_ids cd env (map snd ps) (n, cache) = (Inr (decoded_pairs cd env ?raws),
      (n + length (filter (\<lambda>p. decode_fresh cd env (snd p) = None) ?raws), cache'))"
    unfolding hydrate_lev_ids_loop [OF collect_present [OF present]] loop by simp
  moreover have "\<forall>p\<in>set ps. map_of (rev (decoded_pairs cd env ?raws)) (snd p) = stored_event cd env (snd p)"
    using assms(4) unfolding hydrated_lookup by (auto simp: stored_event_def)
  ultimately show ?thesis
    using False cache' assms(2,3) by (auto simp: hydrate_round_def collect_valid_spec [of ps _ cd env])
qed

section \<open>The round loop\<close>

lemma query_pairs_payload:
  assumes "query_served env flt c es" "p \<in> set (query_pairs flt es b)"
  shows "\<exists>raw. get_event_payload env (snd p) = Inr raw"
  using assms by (auto simp: query_pairs_def query_served_def newest_first_def pair_of_def entry_triple_def)

lemma query_pairs_progress:
  assumes "query_pairs flt es b = Q" "take k Q \<noteq> []"
  shows "b \<noteq> Some (last (take k Q))"
proof
  assume b: "b = Some (last (take k Q))"
  have "last (take k Q) \<in> set (query_pairs flt es b)"
    using last_in_set [OF assms(2)] assms(1) by (auto dest: in_set_takeD)
  then have "last (take k Q) < last (take k Q)"
    unfolding b by (rule query_pairs_all_below)
  then show False
    by simp
qed

text \<open>The batch of a round, and its hydration.\<close>

lemma round_batch:
  assumes served: "query_served env flt c es" and "0 < batch_size" and Q: "query_pairs flt es b = Q"
  obtains batch where
    "merge_windowed env (index_short_name (select_index flt))
       (build_start_keys (round_filter flt b) (select_index flt) Reverse) batch_size emit_limit
       (case f_since flt of None \<Rightarrow> 0 | Some t \<Rightarrow> t) b = Inr batch"
    "exclude_emitted b batch = take emit_limit Q"
    "last_pair batch = (if take emit_limit Q = [] then None else Some (last (take emit_limit Q)))"
    "length batch < emit_limit \<longleftrightarrow> length Q < emit_limit"
proof -
  obtain batch where batch: "merge_windowed env (index_short_name (select_index flt))
      (build_start_keys (round_filter flt b) (select_index flt) Reverse) batch_size emit_limit
      (case f_since flt of None \<Rightarrow> 0 | Some t \<Rightarrow> t) b = Inr batch" "map pair_of batch = take emit_limit Q"
    by (rule merge_round [OF served assms(2), of b emit_limit, unfolded Q])
  show thesis
  proof (rule that [OF batch(1)])
    show "exclude_emitted b batch = take emit_limit Q"
      using exclude_emitted_below [of batch emit_limit flt es b] batch(2) Q by simp
    show "last_pair batch = (if take emit_limit Q = [] then None else Some (last (take emit_limit Q)))"
      unfolding last_pair_eq using batch(2) by (metis map_is_Nil_conv)
    show "length batch < emit_limit \<longleftrightarrow> length Q < emit_limit"
      using arg_cong [OF batch(2), of length] by auto
  qed
qed

lemma round_hydrated:
  assumes served: "query_served env flt c es" and Q: "query_pairs flt es b = Q"
    and "cache_coherent cd env cache" "length valid < limit"
  shows "\<exists>n' cache'. cache_coherent cd env cache' \<and>
    hydrate_round cd env now flt limit (take k Q) valid (n, cache) =
      (Inr (take limit (valid @ survivors cd env now flt (take k Q))), (n', cache'))"
proof (rule hydrate_round_spec [OF assms(3,4)])
  show "distinct (map snd (take k Q))"
    using query_pairs_sorted(2) [OF served, of b] Q by (simp add: take_map [symmetric])
  show "\<forall>p\<in>set (take k Q). \<exists>raw. get_event_payload env (snd p) = Inr raw"
    using query_pairs_payload [OF served, of _ b] Q by (auto dest: in_set_takeD)
qed

lemma query_loop_step:
  assumes served: "query_served env flt c es" and sizes: "0 < batch_size" "0 < emit_limit"
    and prefixes: "start_prefixes flt (select_index flt) \<noteq> {}"
    and "cache_coherent cd env cache" "length (rs_valid rs) < limit"
    and Q: "query_pairs flt es (rs_boundary rs) = Q"
  shows "\<exists>n' cache'. cache_coherent cd env cache' \<and>
    query_loop (Suc m) cd env now flt limit emit_limit batch_size rs (n, cache) =
      (if limit \<le> length (rs_valid (after_round cd env now flt limit emit_limit Q rs)) \<or>
          length Q < emit_limit \<or> m = 0
       then (Inr (after_round cd env now flt limit emit_limit Q rs), (n', cache'))
       else query_loop m cd env now flt limit emit_limit batch_size
         ((after_round cd env now flt limit emit_limit Q rs)\<lparr> rs_boundary := Some (last (take emit_limit Q)) \<rparr>)
         (n', cache'))"
proof -
  let ?b = "rs_boundary rs" and ?ps = "take emit_limit Q"
  have keys: "build_start_keys (round_filter flt ?b) (select_index flt) Reverse \<noteq> []"
    using prefixes set_build_start_keys [of "round_filter flt ?b" "select_index flt" Reverse] by auto
  obtain batch where batch: "merge_windowed env (index_short_name (select_index flt))
      (build_start_keys (round_filter flt ?b) (select_index flt) Reverse) batch_size emit_limit
      (case f_since flt of None \<Rightarrow> 0 | Some t \<Rightarrow> t) ?b = Inr batch" "exclude_emitted ?b batch = ?ps"
    and last: "last_pair batch = (if ?ps = [] then None else Some (last ?ps))"
    and len: "length batch < emit_limit \<longleftrightarrow> length Q < emit_limit"
    by (rule round_batch [OF served sizes(1) Q])
  obtain n' cache' where hyd: "cache_coherent cd env cache'"
    "hydrate_round cd env now flt limit ?ps (rs_valid rs) (n, cache) =
      (Inr (take limit (rs_valid rs @ survivors cd env now flt ?ps)), (n', cache'))"
    using round_hydrated [OF served Q assms(5,6)] by blast
  have loop: "query_loop (Suc m) cd env now flt limit emit_limit batch_size rs (n, cache) =
      (let rs' = after_round cd env now flt limit emit_limit Q rs
       in if limit \<le> length (rs_valid rs') \<or> length Q < emit_limit \<or> m = 0 then (Inr rs', (n', cache'))
          else if last_pair batch = ?b
          then (Inr (case last_pair batch of
                  Some (stalled_ts, _) \<Rightarrow>
                    if stalled_ts > 0 then rs'\<lparr> rs_deepest := Some (stalled_ts - 1, u64_MAX) \<rparr> else rs'
                | None \<Rightarrow> rs'), (n', cache'))
          else query_loop m cd env now flt limit emit_limit batch_size
                 (rs'\<lparr> rs_boundary := last_pair batch \<rparr>) (n', cache'))"
    unfolding query_loop.simps(2) Let_def after_round_def
    by (simp only: keys if_False batch(1) map_err_simps sum.case batch(2) hyd(2) prod.case len last) simp
  have "query_loop (Suc m) cd env now flt limit emit_limit batch_size rs (n, cache) =
      (if limit \<le> length (rs_valid (after_round cd env now flt limit emit_limit Q rs)) \<or>
          length Q < emit_limit \<or> m = 0
       then (Inr (after_round cd env now flt limit emit_limit Q rs), (n', cache'))
       else query_loop m cd env now flt limit emit_limit batch_size
         ((after_round cd env now flt limit emit_limit Q rs)\<lparr> rs_boundary := Some (last ?ps) \<rparr>) (n', cache'))"
  proof (cases "length Q < emit_limit")
    case False
    then have "?ps \<noteq> []"
      using sizes(2) by auto
    then have "last_pair batch = Some (last ?ps)" "last_pair batch \<noteq> ?b"
      using query_pairs_progress [OF Q, of emit_limit] last by auto
    then show ?thesis
      unfolding loop Let_def by (simp only: if_False)
  qed (simp add: loop del: query_loop.simps)
  then show ?thesis
    using hyd(1) by blast
qed

lemma round_stop:
  assumes "0 < emit_limit"
  shows "\<exists>ps rest. Q = ps @ rest \<and>
    rs_valid (after_round cd env now flt limit emit_limit Q rs) = take limit (rs_valid rs @ survivors cd env now flt ps) \<and>
    (rs_exhausted (after_round cd env now flt limit emit_limit Q rs) \<longrightarrow> rest = []) \<and>
    (\<not> rs_exhausted (after_round cd env now flt limit emit_limit Q rs) \<longrightarrow>
       ps \<noteq> [] \<and> rs_deepest (after_round cd env now flt limit emit_limit Q rs) = Some (last ps))"
  using assms by (intro exI [of _ "take emit_limit Q"] exI [of _ "drop emit_limit Q"]) (auto simp: after_round_def)

lemma query_loop_spec:
  assumes served: "query_served env flt c es" and sizes: "0 < batch_size" "0 < emit_limit"
    and prefixes: "start_prefixes flt (select_index flt) \<noteq> {}"
    and "cache_coherent cd env cache" "length (rs_valid rs) < limit"
  shows "\<exists>rs' n' cache' ps rest. cache_coherent cd env cache' \<and>
    query_loop (Suc m) cd env now flt limit emit_limit batch_size rs (n, cache) = (Inr rs', (n', cache')) \<and>
    query_pairs flt es (rs_boundary rs) = ps @ rest \<and>
    rs_valid rs' = take limit (rs_valid rs @ survivors cd env now flt ps) \<and>
    (rs_exhausted rs' \<longrightarrow> rest = []) \<and> (\<not> rs_exhausted rs' \<longrightarrow> ps \<noteq> [] \<and> rs_deepest rs' = Some (last ps))"
  using assms(5,6)
proof (induction m arbitrary: rs n cache)
  case 0
  show ?case
    using query_loop_step [OF served sizes prefixes "0.prems" refl, of 0 now n] round_stop [OF sizes(2)] by metis
next
  case (Suc m)
  let ?Q = "query_pairs flt es (rs_boundary rs)" and ?ps = "take emit_limit (query_pairs flt es (rs_boundary rs))"
  let ?rs = "after_round cd env now flt limit emit_limit ?Q rs"
  obtain n' cache' where step: "cache_coherent cd env cache'"
    "query_loop (Suc (Suc m)) cd env now flt limit emit_limit batch_size rs (n, cache) =
      (if limit \<le> length (rs_valid ?rs) \<or> length ?Q < emit_limit then (Inr ?rs, (n', cache'))
       else query_loop (Suc m) cd env now flt limit emit_limit batch_size
            (?rs\<lparr> rs_boundary := Some (last ?ps) \<rparr>) (n', cache'))"
    using query_loop_step [OF served sizes prefixes Suc.prems refl, of "Suc m" now n] by (metis nat.distinct(1))
  show ?case
  proof (cases "limit \<le> length (rs_valid ?rs) \<or> length ?Q < emit_limit")
    case True
    then show ?thesis
      using step round_stop [OF sizes(2)] by metis
  next
    case False
    let ?rs2 = "?rs\<lparr> rs_boundary := Some (last ?ps) \<rparr>"
    have ps: "?ps \<noteq> []"
      using False sizes(2) by auto
    then have "?Q = butlast ?ps @ last ?ps # drop emit_limit ?Q"
      by (metis append_butlast_last_id append_take_drop_id append.assoc append_Cons append_Nil)
    then have below: "query_pairs flt es (Some (last ?ps)) = drop emit_limit ?Q"
      using query_pairs_below [OF served] by metis
    have valid: "rs_valid ?rs2 = rs_valid rs @ survivors cd env now flt ?ps" "length (rs_valid ?rs2) < limit"
      using False by (auto simp: after_round_def)
    obtain rs' n'' cache'' ps rest where IH: "cache_coherent cd env cache''"
      "query_loop (Suc m) cd env now flt limit emit_limit batch_size ?rs2 (n', cache') = (Inr rs', (n'', cache''))"
      "query_pairs flt es (rs_boundary ?rs2) = ps @ rest"
      "rs_valid rs' = take limit (rs_valid ?rs2 @ survivors cd env now flt ps)"
      "rs_exhausted rs' \<longrightarrow> rest = []" "\<not> rs_exhausted rs' \<longrightarrow> ps \<noteq> [] \<and> rs_deepest rs' = Some (last ps)"
      using Suc.IH [OF step(1) valid(2), of n'] by blast
    have "?Q = (?ps @ ps) @ rest"
      using IH(3) below append_take_drop_id [of emit_limit ?Q] by simp
    moreover have "rs_valid rs' = take limit (rs_valid rs @ survivors cd env now flt (?ps @ ps))"
      using IH(4) valid(1) by simp
    moreover have "query_loop (Suc (Suc m)) cd env now flt limit emit_limit batch_size rs (n, cache) = (Inr rs', (n'', cache''))"
      using step(2) False IH(2) by (simp only: if_False)
    ultimately show ?thesis
      using IH(1,5,6) by (intro exI [of _ rs'] exI [of _ n''] exI [of _ cache''] exI [of _ "?ps @ ps"] exI [of _ rest])
        (simp del: query_loop.simps)
  qed
qed

section \<open>Pages\<close>

lemma map_filter_split:
  assumes "List.map_filter f zs = xs @ y # ys"
  shows "\<exists>A z B. zs = A @ z # B \<and> f z = Some y \<and> List.map_filter f A = xs \<and> List.map_filter f B = ys"
  using assms
proof (induction zs arbitrary: xs)
  case (Cons z zs)
  show ?case
  proof (cases "f z")
    case None
    then obtain A z' B where "zs = A @ z' # B" "f z' = Some y" "List.map_filter f A = xs" "List.map_filter f B = ys"
      using Cons.IH [of xs] Cons.prems by (auto simp: List.map_filter_simps)
    then show ?thesis
      using None by (intro exI [of _ "z # A"] exI [of _ z'] exI [of _ B]) (simp add: List.map_filter_simps)
  next
    case (Some v)
    show ?thesis
    proof (cases xs)
      case Nil
      then show ?thesis
        using Cons.prems Some by (intro exI [of _ "[]"] exI [of _ z] exI [of _ zs]) (simp add: List.map_filter_simps)
    next
      case (Cons x xs')
      then obtain A z' B where "zs = A @ z' # B" "f z' = Some y" "List.map_filter f A = xs'" "List.map_filter f B = ys"
        using Cons.prems Some Cons.IH [of xs'] by (auto simp: List.map_filter_simps)
      then show ?thesis
        using Cons Cons.prems Some
        by (intro exI [of _ "z # A"] exI [of _ z'] exI [of _ B]) (simp add: List.map_filter_simps)
    qed
  qed
qed (simp add: List.map_filter_simps)

lemma survivors_below:
  assumes served: "query_served env flt c es"
    and "survivors cd env now flt (query_pairs flt es b) = xs @ (ts, lev, d) # ys"
  shows "survivors cd env now flt (query_pairs flt es (Some (ts, lev))) = ys"
proof -
  obtain A z B where split: "query_pairs flt es b = A @ z # B" "survivors cd env now flt B = ys"
    and z: "(case z of (ts, lev_id) \<Rightarrow> case stored_event cd env lev_id of
         Some d \<Rightarrow> if residual_ok now flt (dec_event d) then Some (ts, lev_id, d) else None
       | None \<Rightarrow> None) = Some (ts, lev, d)"
    using map_filter_split [OF assms(2) [unfolded survivors_def]] unfolding survivors_def by blast
  from z have "z = (ts, lev)"
    by (auto split: prod.splits option.splits if_splits)
  then show ?thesis
    using query_pairs_below [OF served split(1)] split(2) by simp
qed

lemma cursor_pair_at [simp]: "cursor_pair (cursor_at p) = p"
  by (simp add: cursor_pair_def cursor_at_def)

lemma survivors_pairs:
  "(ts, lev, d) \<in> set (survivors cd env now flt ps) \<Longrightarrow> (ts, lev) \<in> set ps"
  by (induction ps) (auto simp: survivors_Cons split: option.splits if_splits)

lemma take_last_drop:
  assumes "xs = take n T" "xs \<noteq> []"
  shows "T = butlast xs @ last xs # drop (length xs) T"
  using assms by (metis append_butlast_last_id append_take_drop_id append.assoc append_Cons append_Nil length_take min.commute take_take drop_drop nat_le_linear take_all_iff drop_eq_Nil min.absorb1 min.absorb2)

text \<open>The cursor a final round state yields, against the survivors below the page's boundary.\<close>

lemma next_cursor_spec:
  assumes served: "query_served env flt c es"
    and Q: "query_pairs flt es b = ps @ rest"
    and valid: "valid = take limit (survivors cd env now flt ps)"
    and "exhausted \<longrightarrow> rest = []" "\<not> exhausted \<longrightarrow> ps \<noteq> [] \<and> deepest = Some (last ps)"
    and "0 < limit"
  shows "next_cursor limit valid exhausted deepest = None \<Longrightarrow> valid = survivors cd env now flt (query_pairs flt es b)"
    and "next_cursor limit valid exhausted deepest = Some cur \<Longrightarrow>
      survivors cd env now flt (query_pairs flt es (Some (cursor_pair cur))) =
        drop (length valid) (survivors cd env now flt (query_pairs flt es b)) \<and>
      cursor_pair cur \<in> set (query_pairs flt es b)"
proof -
  let ?T = "survivors cd env now flt (query_pairs flt es b)"
  have T: "?T = survivors cd env now flt ps @ survivors cd env now flt rest"
    using Q by simp
  { assume "next_cursor limit valid exhausted deepest = None"
    then show "valid = ?T"
      using assms(3-6) T by (auto simp: next_cursor_def Let_def split: if_splits) }
  assume cur: "next_cursor limit valid exhausted deepest = Some cur"
  show "survivors cd env now flt (query_pairs flt es (Some (cursor_pair cur))) = drop (length valid) ?T \<and>
      cursor_pair cur \<in> set (query_pairs flt es b)"
  proof (cases "valid = []")
    case True
    then have "\<not> exhausted" "deepest = Some (cursor_pair cur)"
      using cur \<open>0 < limit\<close> by (auto simp: next_cursor_def Let_def split: if_splits)
    then have ps: "ps \<noteq> []" "cursor_pair cur = last ps"
      using assms(5) by auto
    have "query_pairs flt es b = butlast ps @ last ps # rest"
      using ps Q by simp
    then have "query_pairs flt es (Some (last ps)) = rest"
      by (rule query_pairs_below [OF served])
    moreover have "survivors cd env now flt ps = []"
      using True valid \<open>0 < limit\<close> by simp
    ultimately show ?thesis
      using ps Q True T by simp
  next
    case False
    obtain ts lev d where l: "last valid = (ts, lev, d)"
      by (cases "last valid")
    have c: "cursor_pair cur = (ts, lev)"
      using cur False l by (auto simp: next_cursor_def Let_def split: if_splits)
    have "valid = take (length valid) ?T"
      unfolding T using valid by (simp add: min_def)
    from take_last_drop [OF this False] have split: "?T = butlast valid @ (ts, lev, d) # drop (length valid) ?T"
      unfolding l .
    then have "(ts, lev, d) \<in> set ?T"
      by (metis in_set_conv_decomp)
    then show ?thesis
      using survivors_below [OF served split] c survivors_pairs by metis
  qed
qed

lemma page_limit_pos: "0 < page_limit flt"
  by (simp add: page_limit_def DEFAULT_WINDOW_SIZE_def)

lemma cursor_below:
  assumes "cursor_pair c' \<in> set (query_pairs flt es (map_option cursor_pair cursor))" "cursor = Some cur"
  shows "cursor_pair c' < cursor_pair cur"
  using assms query_pairs_all_below by auto

lemma no_prefix_no_pairs:
  "start_prefixes flt (select_index flt) = {} \<Longrightarrow> query_pairs flt es b = []"
  by (simp add: query_pairs_def in_scope_def newest_first_def)

lemma query_loop_no_prefix:
  "start_prefixes flt (select_index flt) = {} \<Longrightarrow>
   query_loop n cd env now flt limit emit_limit batch_size rs st = (Inr rs, st)"
  using set_build_start_keys [of "round_filter flt (rs_boundary rs)" "select_index flt" Reverse]
  by (cases n) simp_all

lemma MAX_ROUNDS_Suc: "MAX_ROUNDS = Suc 7"
  by (simp add: MAX_ROUNDS_def)

lemma execute_query_shape:
  assumes served: "query_served env flt c es" and coherent: "cache_coherent cd env cache"
  shows "\<exists>(rs :: round_state) n cache'. cache_coherent cd env cache' \<and>
    execute_query cd env now flt cursor cache =
      (Inr (map (snd \<circ> snd) (rs_valid rs), next_cursor (page_limit flt) (rs_valid rs) (rs_exhausted rs) (rs_deepest rs)),
       (n, cache')) \<and>
    ((start_prefixes flt (select_index flt) = {} \<and> rs_valid rs = [] \<and> rs_deepest rs = None) \<or>
     (\<exists>ps rest. query_pairs flt es (map_option cursor_pair cursor) = ps @ rest \<and>
       rs_valid rs = take (page_limit flt) (survivors cd env now flt ps) \<and>
       (rs_exhausted rs \<longrightarrow> rest = []) \<and> (\<not> rs_exhausted rs \<longrightarrow> ps \<noteq> [] \<and> rs_deepest rs = Some (last ps))))"
proof -
  let ?limit = "page_limit flt"
  let ?emit = "usize_saturating_add (usize_saturating_add ?limit DEFAULT_WINDOW_SIZE) ?limit"
  let ?rs = "\<lparr> rs_valid = [], rs_boundary = map_option cursor_pair cursor, rs_exhausted = False, rs_deepest = None \<rparr>"
  let ?loop = "query_loop MAX_ROUNDS cd env now flt ?limit ?emit DEFAULT_WINDOW_SIZE ?rs (0, cache)"
  have exec: "execute_query cd env now flt cursor cache =
      (Inr (map (snd \<circ> snd) (rs_valid rs), next_cursor ?limit (rs_valid rs) (rs_exhausted rs) (rs_deepest rs)), st)"
    if "?loop = (Inr rs, st)" "length (rs_valid rs) \<le> ?limit" for rs st
  proof -
    have "take ?limit (rs_valid rs) = rs_valid rs"
      using that(2) by simp
    then show ?thesis
      using that(1) by (simp add: execute_query_def execute_query_internal_def page_limit_def [symmetric]
          cursor_pair_def [abs_def] Let_def)
  qed
  show ?thesis
  proof (cases "start_prefixes flt (select_index flt) = {}")
    case True
    then have "execute_query cd env now flt cursor cache =
        (Inr (map (snd \<circ> snd) (rs_valid ?rs), next_cursor ?limit (rs_valid ?rs) (rs_exhausted ?rs) (rs_deepest ?rs)), (0, cache))"
      by (intro exec) (simp_all add: query_loop_no_prefix)
    then show ?thesis
      using coherent True by (intro exI [of _ ?rs] exI [of _ 0] exI [of _ cache]) simp
  next
    case False
    have "0 < DEFAULT_WINDOW_SIZE" "0 < ?emit" "length (rs_valid ?rs) < ?limit"
      using page_limit_pos [of flt] by (simp_all add: DEFAULT_WINDOW_SIZE_def usize_saturating_add_def usize_MAX_def)
    from query_loop_spec [OF served this(1,2) False coherent this(3), of 7 now 0]
    obtain rs' n' cache' ps rest where loop: "cache_coherent cd env cache'" "?loop = (Inr rs', (n', cache'))"
      "query_pairs flt es (map_option cursor_pair cursor) = ps @ rest"
      "rs_valid rs' = take ?limit (survivors cd env now flt ps)"
      "rs_exhausted rs' \<longrightarrow> rest = []" "\<not> rs_exhausted rs' \<longrightarrow> ps \<noteq> [] \<and> rs_deepest rs' = Some (last ps)"
      unfolding MAX_ROUNDS_Suc [symmetric] round_state.simps append_Nil by blast
    have "length (rs_valid rs') \<le> ?limit"
      using loop(4) by simp
    from exec [OF loop(2) this] show ?thesis
      using loop by blast
  qed
qed

section \<open>Soundness without assumptions\<close>

lemma collect_valid_sound:
  "all_residual now flt valid \<Longrightarrow> all_residual now flt (collect_valid now flt limit ps hydrated valid)"
proof (induction ps arbitrary: hydrated valid)
  case (Cons p ps)
  have "all_residual now flt (if residual_ok now flt (dec_event d) then valid @ [(ts, lev_id, d)] else valid)" for ts lev_id d
    using Cons.prems by (simp add: all_residual_def)
  then show ?case
    using Cons by (cases p; cases "hydrated (snd p)") simp_all
qed simp

lemma hydrate_round_sound:
  assumes "all_residual now flt valid" "hydrate_round cd env now flt limit ps valid st = (Inr valid', st')"
  shows "all_residual now flt valid'"
  using assms(2) collect_valid_sound [OF assms(1)] assms(1)
  by (auto simp: hydrate_round_def split: if_splits prod.splits sum.splits)

lemma query_loop_sound:
  assumes "all_residual now flt (rs_valid rs)"
    and "query_loop n cd env now flt limit emit_limit batch_size rs st = (Inr rs', st')"
  shows "all_residual now flt (rs_valid rs')"
  using assms
proof (induction n arbitrary: rs st)
  case (Suc n)
  let ?keys = "build_start_keys (round_filter flt (rs_boundary rs)) (select_index flt) Reverse"
  let ?merge = "merge_windowed env (index_short_name (select_index flt)) ?keys batch_size emit_limit
         (case f_since flt of None \<Rightarrow> 0 | Some t \<Rightarrow> t) (rs_boundary rs)"
  show ?case
  proof (cases "?keys = []")
    case False
    then obtain batch where batch: "?merge = Inr batch"
      using Suc.prems(2) by (cases ?merge) (auto simp: Let_def)
    then obtain valid st2 where
      hyd: "hydrate_round cd env now flt limit (exclude_emitted (rs_boundary rs) batch) (rs_valid rs) st = (Inr valid, st2)"
      using Suc.prems(2) False
      by (cases "hydrate_round cd env now flt limit (exclude_emitted (rs_boundary rs) batch) (rs_valid rs) st";
          cases "fst (hydrate_round cd env now flt limit (exclude_emitted (rs_boundary rs) batch) (rs_valid rs) st)")
        (auto simp: Let_def)
    have "all_residual now flt valid"
      by (rule hydrate_round_sound [OF Suc.prems(1) hyd])
    have "all_residual now flt (rs_valid rs')"
      if "all_residual now flt (rs_valid rs2)"
        "query_loop n cd env now flt limit emit_limit batch_size rs2 st2 = (Inr rs', st')" for rs2
      using that by (rule Suc.IH)
    from this [rotated] show ?thesis
      using Suc.prems(2) False batch hyd \<open>all_residual now flt valid\<close>
      by (simp add: Let_def split: if_splits option.splits prod.splits) auto
  qed (use Suc.prems in simp)
qed simp

lemma execute_query_bounded:
  assumes "execute_query cd env now flt cursor cache = (Inr (events, next), st)"
  shows "length events \<le> page_limit flt \<and> (\<forall>d\<in>set events. residual_ok now flt (dec_event d))"
proof -
  let ?limit = "page_limit flt"
  let ?emit = "usize_saturating_add (usize_saturating_add ?limit DEFAULT_WINDOW_SIZE) ?limit"
  let ?rs = "\<lparr> rs_valid = [], rs_boundary = map_option cursor_pair cursor, rs_exhausted = False, rs_deepest = None \<rparr>"
  obtain rs where loop: "query_loop MAX_ROUNDS cd env now flt ?limit ?emit DEFAULT_WINDOW_SIZE ?rs (0, cache) = (Inr rs, st)"
    and events: "events = map (snd \<circ> snd) (take ?limit (rs_valid rs))"
    using assms by (auto simp: execute_query_def execute_query_internal_def page_limit_def [symmetric]
          cursor_pair_def [abs_def] Let_def split: prod.splits sum.splits)
  have "all_residual now flt (rs_valid rs)"
    by (rule query_loop_sound [OF _ loop]) (simp add: all_residual_def)
  then show ?thesis
    unfolding events by (auto simp: all_residual_def list_all_iff dest!: in_set_takeD)
qed

text \<open>A page, and what its cursor still delivers.\<close>

lemma page_cut:
  assumes served: "query_served env flt c es"
    and shape: "(start_prefixes flt (select_index flt) = {} \<and> rs_valid rs = [] \<and> rs_deepest rs = None) \<or>
     (\<exists>ps rest. query_pairs flt es (map_option cursor_pair cursor) = ps @ rest \<and>
       rs_valid rs = take (page_limit flt) (survivors cd env now flt ps) \<and>
       (rs_exhausted rs \<longrightarrow> rest = []) \<and> (\<not> rs_exhausted rs \<longrightarrow> ps \<noteq> [] \<and> rs_deepest rs = Some (last ps)))"
  defines "T \<equiv> survivors cd env now flt (query_pairs flt es (map_option cursor_pair cursor))"
    and "nxt \<equiv> next_cursor (page_limit flt) (rs_valid rs) (rs_exhausted rs) (rs_deepest rs)"
  shows "length (rs_valid rs) \<le> page_limit flt \<and> take (length (rs_valid rs)) T = rs_valid rs \<and>
    (nxt = None \<longrightarrow> rs_valid rs = T) \<and>
    (\<forall>cur. nxt = Some cur \<longrightarrow> survivors cd env now flt (query_pairs flt es (Some (cursor_pair cur))) =
       drop (length (rs_valid rs)) T \<and> cursor_pair cur \<in> set (query_pairs flt es (map_option cursor_pair cursor)))"
  using shape
proof (elim disjE exE conjE)
  assume "start_prefixes flt (select_index flt) = {}" "rs_valid rs = []" "rs_deepest rs = None"
  then show ?thesis
    using page_limit_pos [of flt] by (simp add: no_prefix_no_pairs next_cursor_def Let_def T_def nxt_def)
next
  fix ps rest
  assume Q: "query_pairs flt es (map_option cursor_pair cursor) = ps @ rest"
    and st: "rs_valid rs = take (page_limit flt) (survivors cd env now flt ps)" "rs_exhausted rs \<longrightarrow> rest = []"
      "\<not> rs_exhausted rs \<longrightarrow> ps \<noteq> [] \<and> rs_deepest rs = Some (last ps)"
  have "take (length (rs_valid rs)) T = rs_valid rs" "length (rs_valid rs) \<le> page_limit flt"
    unfolding T_def Q using st(1) by (simp_all add: min_def)
  then show ?thesis
    using next_cursor_spec [OF served Q st page_limit_pos] unfolding T_def nxt_def by blast
qed

lemma execute_query_pages:
  assumes "query_served env flt c es" "cache_coherent cd env cache"
  shows "\<exists>events next n cache'. execute_query cd env now flt cursor cache = (Inr (events, next), (n, cache')) \<and>
    cache_coherent cd env cache' \<and> length events \<le> page_limit flt \<and>
    remaining cd env now flt es cursor = events @ (case next of None \<Rightarrow> [] | Some cur \<Rightarrow> remaining cd env now flt es (Some cur)) \<and>
    (\<forall>cur cur'. next = Some cur' \<longrightarrow> cursor = Some cur \<longrightarrow> cursor_pair cur' < cursor_pair cur)"
proof -
  let ?T = "survivors cd env now flt (query_pairs flt es (map_option cursor_pair cursor))"
  obtain rs :: round_state and n cache' where coh: "cache_coherent cd env cache'"
    and exec: "execute_query cd env now flt cursor cache =
      (Inr (map (snd \<circ> snd) (rs_valid rs), next_cursor (page_limit flt) (rs_valid rs) (rs_exhausted rs) (rs_deepest rs)),
       (n, cache'))"
    and shape: "(start_prefixes flt (select_index flt) = {} \<and> rs_valid rs = [] \<and> rs_deepest rs = None) \<or>
     (\<exists>ps rest. query_pairs flt es (map_option cursor_pair cursor) = ps @ rest \<and>
       rs_valid rs = take (page_limit flt) (survivors cd env now flt ps) \<and>
       (rs_exhausted rs \<longrightarrow> rest = []) \<and> (\<not> rs_exhausted rs \<longrightarrow> ps \<noteq> [] \<and> rs_deepest rs = Some (last ps)))"
    using execute_query_shape [OF assms, of now cursor] by blast
  let ?next = "next_cursor (page_limit flt) (rs_valid rs) (rs_exhausted rs) (rs_deepest rs)"
  note facts = page_cut [OF assms(1) shape]
  show ?thesis
  proof (intro exI conjI)
    show "execute_query cd env now flt cursor cache = (Inr (map (snd \<circ> snd) (rs_valid rs), ?next), (n, cache'))"
      by (rule exec)
    show "remaining cd env now flt es cursor = map (snd \<circ> snd) (rs_valid rs) @
        (case ?next of None \<Rightarrow> [] | Some cur \<Rightarrow> remaining cd env now flt es (Some cur))"
    proof (cases ?next)
      case None
      then have "rs_valid rs = ?T"
        using facts by blast
      then show ?thesis
        using None by (simp add: remaining_def)
    next
      case (Some cur)
      then have "?T = rs_valid rs @ survivors cd env now flt (query_pairs flt es (Some (cursor_pair cur)))"
        using facts append_take_drop_id [of "length (rs_valid rs)" ?T] by metis
      then show ?thesis
        using Some unfolding remaining_def by simp
    qed
    show "\<forall>cur cur'. ?next = Some cur' \<longrightarrow> cursor = Some cur \<longrightarrow> cursor_pair cur' < cursor_pair cur"
      using facts cursor_below by blast
  qed (use coh facts in simp_all)
qed

section \<open>Properties\<close>

lemma example_kind_values: "value_lev_id (nat_le 8 k) = word_of_nat k"  if "k < 1000"
  using that by (simp add: value_lev_id_def u64_from_le_def le_nat_nat_le)

lemma example_served:
  "query_served example_events_env example_filter Uint64Uint64Cmp (mem_entries Uint64Uint64Cmp example_kinds)"
proof -
  have sel: "index_short_name (select_index example_filter) = ''Event__kind''"
    by code_simp
  have "list_all (\<lambda>e. length (fst e) = 16 \<and> created_at_from_key (fst e) \<noteq> u64_MAX)
      (mem_entries Uint64Uint64Cmp example_kinds)"
    by code_simp
  moreover have "distinct (map snd (mem_entries Uint64Uint64Cmp example_kinds))"
    by code_simp
  moreover have "\<forall>e\<in>set example_kinds. \<exists>raw. get_event_payload example_events_env (value_lev_id (snd e)) = Inr raw"
    by (simp add: example_kinds_def example_kind_values example_payload_present)
  ultimately show ?thesis
    using example_events_env_serves unfolding query_served_def sel
    by (simp add: index_width_def list_all_iff)
qed

lemma example_survivors:
  "stored_event example_codec example_events_env 7 = Some (example_decoded 1)"
  "stored_event example_codec example_events_env 300 = Some (example_decoded 1)"
  "stored_event example_codec example_events_env 2 = Some (example_decoded 256)"
  "stored_event example_codec example_events_env 4 = None"
  by (simp_all add: stored_event_def example_payload_present decode_fresh_example)

lemma example_residual: "residual_ok 0 example_filter (dec_event (example_decoded 1))"
  "residual_ok 0 example_filter (dec_event (example_decoded 256))"
  by code_simp+

lemma example_pairs:
  "query_pairs example_filter (mem_entries Uint64Uint64Cmp example_kinds) None = [(10, 300), (10, 7), (10, 2), (9, 4)]"
proof -
  have "select_index example_filter = Multi ''Event__kind''"
    by code_simp
  then have "start_prefixes example_filter (select_index example_filter) = {u64_to_le 1, u64_to_le 256}"
    by (auto simp: start_prefixes_def example_filter_def unwrap_or_empty_def)
  then have scope: "in_scope example_filter = (\<lambda>e. list_ex (\<lambda>p. in_prefix p e) [u64_to_le 1, u64_to_le 256])"
    by (simp add: fun_eq_iff in_scope_def example_filter_def)
  show ?thesis
    unfolding query_pairs_def scope by code_simp
qed

lemma example_remaining:
  "remaining example_codec example_events_env 0 example_filter (mem_entries Uint64Uint64Cmp example_kinds) None =
    [example_decoded 1, example_decoded 1, example_decoded 256]"
  by (simp add: remaining_def example_pairs survivors_Cons example_survivors example_residual del: One_nat_def)




end
