(* ===== verification/Buckets.thy ===== *)
theory Buckets
  imports QueryPages
begin

text \<open>
  \<^verbatim>\<open>latest_per_author\<close> of \<^verbatim>\<open>query/engine.rs\<close>: per-author buckets of the newest events of a kind, and the
  proof that each bucket is the front of the author's records in the \<^verbatim>\<open>Event__pubkeyKind\<close> index.
\<close>

section \<open>Per-author buckets\<close>

definition decode_hex_32 :: "string \<Rightarrow> bytes option" where
  "decode_hex_32 s =
     (if length s \<noteq> 64 then None
      else case decode_hex s of
             Inr bytes \<Rightarrow> if length bytes = 32 then Some bytes else None
           | Inl _ \<Rightarrow> None)"

definition bucket_matches :: "bytes \<Rightarrow> u64 \<Rightarrow> pairs \<Rightarrow> LevId list" where
  "bucket_matches pubkey_bytes kind scan_results =
     List.map_filter (\<lambda>(key_bytes, lev_id).
       if length key_bytes = 48 \<and> take 32 key_bytes = pubkey_bytes \<and>
          take 8 (drop 32 key_bytes) = u64_to_le kind
       then Some lev_id else None) scan_results"

text \<open>\<^const>\<open>None\<close> is a scan that does not return, which a positive \<open>per_author\<close> excludes.\<close>

fun latest_loop ::
  "'dd codec \<Rightarrow> heed_env \<Rightarrow> u64 \<Rightarrow> u64 \<Rightarrow> nat \<Rightarrow> string list \<Rightarrow> (string \<rightharpoonup> DecodedEvent list) \<Rightarrow> 'dd dict_cache
   \<Rightarrow> ((query_error, string \<rightharpoonup> DecodedEvent list) result \<times> 'dd dict_cache) option" where
  "latest_loop cd env now kind per_author [] acc cache = Some (Inr acc, cache)"
| "latest_loop cd env now kind per_author (author_hex # authors) acc cache =
     (case decode_hex_32 author_hex of
        None \<Rightarrow> latest_loop cd env now kind per_author authors acc cache
      | Some pubkey_bytes \<Rightarrow>
          (let start_key = pubkey_bytes @ u64_to_le kind @ u64_to_le u64_MAX
           in case scan_index_bounded env ''Event__pubkeyKind'' Reverse start_key per_author of
                None \<Rightarrow> None
              | Some (Inl e) \<Rightarrow> Some (Inl (Lmdb e), cache)
              | Some (Inr scan_results) \<Rightarrow>
                  (let matching = bucket_matches pubkey_bytes kind scan_results
                   in if matching = [] then latest_loop cd env now kind per_author authors acc cache
                      else case hydrate_lev_ids_batch cd env matching (0, cache) of
                             (Inl e, st) \<Rightarrow> Some (Inl e, snd st)
                           | (Inr hydrated_pairs, st) \<Rightarrow>
                               (let events = map snd (filter (\<lambda>p. \<not> is_expired now (dec_event (snd p))) hydrated_pairs)
                                in latest_loop cd env now kind per_author authors
                                     (if events \<noteq> [] then acc(author_hex \<mapsto> events) else acc) (snd st)))))"

definition latest_per_author ::
  "'dd codec \<Rightarrow> heed_env \<Rightarrow> u64 \<Rightarrow> u64 \<Rightarrow> nat \<Rightarrow> string list \<Rightarrow> 'dd dict_cache
   \<Rightarrow> ((query_error, string \<rightharpoonup> DecodedEvent list) result \<times> 'dd dict_cache) option" where
  "latest_per_author cd env now kind per_author authors cache =
     (if per_author = 0 then Some (Inr Map.empty, cache)
      else latest_loop cd env now kind per_author authors Map.empty cache)"

section \<open>What a bucket holds\<close>

text \<open>
  The bucket of an author: of the newest \<open>per_author\<close> records under the (pubkey, kind) prefix, the
  events that decode and are not expired.
\<close>

definition bucket_entries :: "u64 \<Rightarrow> nat \<Rightarrow> entry list \<Rightarrow> string \<Rightarrow> entry list" where
  "bucket_entries kind per_author es author_hex =
     (case decode_hex_32 author_hex of
        None \<Rightarrow> []
      | Some pk \<Rightarrow> take per_author (rev (filter (in_prefix (pk @ u64_to_le kind)) es)))"

definition bucket ::
  "'dd codec \<Rightarrow> heed_env \<Rightarrow> u64 \<Rightarrow> u64 \<Rightarrow> nat \<Rightarrow> entry list \<Rightarrow> string \<Rightarrow> DecodedEvent list" where
  "bucket cd env now kind per_author es author_hex =
     filter (\<lambda>d. \<not> is_expired now (dec_event d))
       (List.map_filter (\<lambda>e. stored_event cd env (value_lev_id (snd e))) (bucket_entries kind per_author es author_hex))"

text \<open>
  The index is served, its keys have the documented width, no event lies at the end of time and
  every indexed event has a payload.
\<close>

definition buckets_served :: "heed_env \<Rightarrow> entry list \<Rightarrow> bool" where
  "buckets_served env es \<longleftrightarrow>
     serves_index env ''Event__pubkeyKind'' StringUint64Uint64Cmp es \<and>
     (\<forall>e\<in>set es. length (fst e) = 48 \<and> created_at_from_key (fst e) \<noteq> u64_MAX \<and>
        (\<exists>raw. get_event_payload env (value_lev_id (snd e)) = Inr raw))"

text \<open>The start key of a bucket.\<close>

definition bucket_key :: "bytes \<Rightarrow> u64 \<Rightarrow> bytes" where
  "bucket_key pk kind = (pk @ u64_to_le kind) @ u64_to_le u64_MAX"

text \<open>Two authors of \<^verbatim>\<open>Event__pubkeyKind\<close>, one with records of two kinds.\<close>

definition example_author :: "nat \<Rightarrow> bytes" where
  "example_author n = nat_le 32 n"

definition example_pubkey_kinds :: "entry list" where
  "example_pubkey_kinds =
     [(example_author 5 @ nat_le 8 1 @ nat_le 8 10, nat_le 8 7), (example_author 5 @ nat_le 8 1 @ nat_le 8 11, nat_le 8 300),
      (example_author 5 @ nat_le 8 0 @ nat_le 8 50, nat_le 8 2), (example_author 6 @ nat_le 8 1 @ nat_le 8 9, nat_le 8 4)]"

definition example_authors_env :: heed_env where
  "example_authors_env = with_store EVENT_PAYLOAD_DB_NAME example_payloads
     (mem_env [(''Event__pubkeyKind'', StringUint64Uint64Cmp, example_pubkey_kinds)])"

definition example_hex :: string where
  "example_hex = ''05'' @ replicate 62 (CHR ''0'')"

section \<open>The scan of one bucket\<close>

lemma decode_hex_32_length: "decode_hex_32 s = Some pk \<Longrightarrow> length pk = 32"
  by (auto simp: decode_hex_32_def split: if_splits sum.splits)

lemma bucket_key_ts: "created_at_from_key (bucket_key pk kind) = u64_MAX"
  unfolding bucket_key_def by (rule created_at_from_key_append)

lemma length_bucket_key: "length (bucket_key pk kind) = length pk + 16"
  by (simp add: bucket_key_def)

lemma bucket_key_ok:
  assumes "buckets_served env es" "length pk = 32"
  shows "start_key_ok StringUint64Uint64Cmp es (bucket_key pk kind)"
  unfolding start_key_ok_def
  using assms bucket_key_ts [of pk kind] by (auto simp: buckets_served_def length_bucket_key)

lemma bucket_range:
  assumes served: "buckets_served env es" and pk: "length pk = 32"
  shows "\<exists>rest. scan_range StringUint64Uint64Cmp Reverse (bucket_key pk kind) es =
    rev (filter (in_prefix (pk @ u64_to_le kind)) es) @ rest \<and> (\<forall>e\<in>set rest. \<not> in_prefix (pk @ u64_to_le kind) e)"
proof -
  let ?c = StringUint64Uint64Cmp and ?p = "pk @ u64_to_le kind" and ?k = "bucket_key pk kind"
  let ?g = "\<lambda>e. key_group StringUint64Uint64Cmp (fst e)"
  have srv: "serves_index env ''Event__pubkeyKind'' ?c es"
    using served by (simp add: buckets_served_def)
  then obtain db where idx: "lmdb_index ?c db es"
    by (auto simp: serves_index_def)
  have ok: "start_key_ok ?c es ?k"
    by (rule bucket_key_ok [OF served pk])
  have "take (length ?k - 8) ?k = ?p"
    by (simp add: bucket_key_def)
  then have group: "in_prefix ?p e \<longleftrightarrow> ?g e = key_group ?c ?k" if "e \<in> set es" for e
    using prefix_group [OF srv ok that] by simp
  have "key_ts (fst e) \<le> key_ts ?k" if "e \<in> set es" for e
    using served that created_at_from_key_ts [of "fst e"] created_at_from_key_ts [of ?k] u64_le_MAX [of "created_at_from_key (fst e)"]
    by (simp add: buckets_served_def bucket_key_ts length_bucket_key word_le_nat_alt)
  then have le: "key_rank ?c (fst e) \<le> key_rank ?c ?k \<longleftrightarrow> ?g e \<le> key_group ?c ?k" if "e \<in> set es" for e
    using that by (auto simp: key_rank_def simp del: key_group.simps)
  let ?P = "\<lambda>e. ?g e < key_group ?c ?k"
  have split: "es = filter ?P es @ filter (\<lambda>e. \<not> ?P e) es"
    by (rule sorted_wrt_filter_split [OF lmdb_index.keys_sorted [OF idx]])
      (auto simp: key_rank_def simp del: key_group.simps)
  have "filter (\<lambda>e. ?g e \<le> key_group ?c ?k) es =
      filter (\<lambda>e. ?g e \<le> key_group ?c ?k) (filter ?P es @ filter (\<lambda>e. \<not> ?P e) es)"
    by (simp only: split [symmetric])
  also have "\<dots> = filter ?P es @ filter (\<lambda>e. ?g e = key_group ?c ?k) es"
    unfolding filter_append filter_filter
    by (intro arg_cong2 [of _ _ _ _ "(@)"] filter_cong) (auto simp del: key_group.simps)
  finally have "filter (\<lambda>e. ?g e \<le> key_group ?c ?k) es = filter ?P es @ filter (\<lambda>e. ?g e = key_group ?c ?k) es" .
  then have "filter (\<lambda>e. key_rank ?c (fst e) \<le> key_rank ?c ?k) es = filter ?P es @ filter (in_prefix ?p) es"
    using le group by (simp cong: filter_cong del: key_group.simps)
  then show ?thesis
    using group by (intro exI [of _ "rev (filter ?P es)"]) (auto simp del: key_group.simps)
qed

lemma bucket_matches_decode:
  assumes "\<forall>e\<in>set es. length (fst e) = 48" "length pk = 32"
  shows "bucket_matches pk kind (map decode_entry es) =
    map (\<lambda>e. value_lev_id (snd e)) (filter (in_prefix (pk @ u64_to_le kind)) es)"
  using assms
proof (induction es)
  case (Cons e es)
  have "take 40 (fst e) = take 32 (fst e) @ take 8 (drop 32 (fst e))"
    using take_add [of 32 8 "fst e"] by simp
  then have "in_prefix (pk @ u64_to_le kind) e \<longleftrightarrow>
      length (fst e) = 48 \<and> take 32 (fst e) = pk \<and> take 8 (drop 32 (fst e)) = u64_to_le kind"
    using Cons.prems by (simp add: in_prefix_def starts_with_def)
  then show ?case
    using Cons by (auto simp: bucket_matches_def List.map_filter_def decode_entry_def)
qed (simp add: bucket_matches_def List.map_filter_def)

lemma filter_take_append:
  assumes "\<forall>x\<in>set xs. P x" "\<forall>y\<in>set ys. \<not> P y"
  shows "filter P (take n (xs @ ys)) = take n xs"
proof -
  have "filter P (take n xs) = take n xs" "filter P (take (n - length xs) ys) = []"
    using assms by (auto simp: filter_id_conv filter_empty_conv dest: in_set_takeD)
  then show ?thesis
    by simp
qed

lemma scan_bounded_start:
  assumes "serves_index env short_name c es" "start_key_ok c es k" "0 < limit"
  shows "scan_index_bounded env short_name Reverse k limit =
    Some (Inr (map decode_entry (take limit (scan_range c Reverse k es))))"
proof -
  have k: "valid_key c k" and len: "8 \<le> length k"
    using assms serves_index_golpe length_valid_key by (auto simp: start_key_ok_def)
  then have "created_at_from_key k = u64_from_le (drop (length k - 8) k)"
    by (simp add: created_at_from_key_def)
  then show ?thesis
    using scan_bounded_range [OF assms(1) k assms(3), of Reverse] assms(2) by (simp add: start_key_ok_def)
qed

lemma bucket_scan:
  assumes served: "buckets_served env es" and pk: "length pk = 32" and "0 < per_author"
  shows "\<exists>results. scan_index_bounded env ''Event__pubkeyKind'' Reverse (bucket_key pk kind) per_author = Some (Inr results) \<and>
    bucket_matches pk kind results =
      map (\<lambda>e. value_lev_id (snd e)) (take per_author (rev (filter (in_prefix (pk @ u64_to_le kind)) es)))"
proof -
  let ?c = StringUint64Uint64Cmp and ?k = "bucket_key pk kind"
  let ?range = "take per_author (scan_range ?c Reverse ?k es)"
  have ok: "start_key_ok ?c es ?k"
    by (rule bucket_key_ok [OF served pk])
  have "\<forall>e\<in>set ?range. length (fst e) = 48"
    using served by (auto simp: buckets_served_def dest!: in_set_takeD)
  then have "bucket_matches pk kind (map decode_entry ?range) =
      map (\<lambda>e. value_lev_id (snd e)) (filter (in_prefix (pk @ u64_to_le kind)) ?range)"
    using pk by (rule bucket_matches_decode)
  also obtain rest where "scan_range ?c Reverse ?k es = rev (filter (in_prefix (pk @ u64_to_le kind)) es) @ rest"
    "\<forall>e\<in>set rest. \<not> in_prefix (pk @ u64_to_le kind) e"
    using bucket_range [OF served pk] by blast
  then have "filter (in_prefix (pk @ u64_to_le kind)) ?range = take per_author (rev (filter (in_prefix (pk @ u64_to_le kind)) es))"
    by (simp only:) (rule filter_take_append, auto)
  finally show ?thesis
    using scan_bounded_start [OF _ ok assms(3)] served by (simp add: buckets_served_def)
qed

section \<open>The loop over the authors\<close>

lemma decoded_pairs_stored:
  assumes "\<forall>l\<in>set ls. \<exists>raw. get_event_payload env l = Inr raw"
  shows "map snd (decoded_pairs cd env (map (\<lambda>l. (l, projr (get_event_payload env l))) ls)) =
    List.map_filter (stored_event cd env) ls"
  using assms
proof (induction ls)
  case (Cons l ls)
  then show ?case
    by (cases "decode_fresh cd env (projr (get_event_payload env l))")
      (auto simp: decoded_pairs_def List.map_filter_def stored_event_def)
qed (simp add: decoded_pairs_def List.map_filter_def)

lemma hydrate_batch_stored:
  assumes "cache_coherent cd env cache" "\<forall>l\<in>set ls. \<exists>raw. get_event_payload env l = Inr raw"
  shows "\<exists>pairs n' cache'. cache_coherent cd env cache' \<and>
    hydrate_lev_ids_batch cd env ls (n, cache) = (Inr pairs, (n', cache')) \<and>
    map snd pairs = List.map_filter (stored_event cd env) ls"
proof -
  let ?raws = "map (\<lambda>l. (l, projr (get_event_payload env l))) ls"
  have "batch_get_event_payloads env ls = Inr ?raws"
    unfolding batch_get_collect by (rule collect_present [OF assms(2)])
  then show ?thesis
    using hydrate_decode_loop_spec [OF assms(1), of ?raws n] assms(1) decoded_pairs_stored [OF assms(2), of cd]
    by (auto simp: hydrate_lev_ids_batch_def decoded_pairs_def List.map_filter_def)
qed

lemma filter_map_snd: "map snd (filter (\<lambda>p. P (snd p)) ps) = filter P (map snd ps)"
  by (induction ps) auto

lemma latest_step:
  assumes served: "buckets_served env es" and "0 < per_author" and coherent: "cache_coherent cd env cache"
  shows "\<exists>cache'. cache_coherent cd env cache' \<and>
    latest_loop cd env now kind per_author (a # authors) acc cache =
    latest_loop cd env now kind per_author authors
      (if bucket cd env now kind per_author es a \<noteq> [] then acc(a \<mapsto> bucket cd env now kind per_author es a) else acc) cache'"
proof (cases "decode_hex_32 a")
  case None
  then show ?thesis
    using coherent by (intro exI [of _ cache]) (simp add: bucket_def bucket_entries_def List.map_filter_def)
next
  case (Some pk)
  let ?sel = "take per_author (rev (filter (in_prefix (pk @ u64_to_le kind)) es))"
  let ?ls = "map (\<lambda>e. value_lev_id (snd e)) ?sel"
  obtain results where scan: "scan_index_bounded env ''Event__pubkeyKind'' Reverse (bucket_key pk kind) per_author = Some (Inr results)"
    "bucket_matches pk kind results = ?ls"
    using bucket_scan [OF served decode_hex_32_length [OF Some] assms(2)] by blast
  have key: "pk @ u64_to_le kind @ u64_to_le u64_MAX = bucket_key pk kind"
    by (simp add: bucket_key_def)
  have "\<forall>l\<in>set ?ls. \<exists>raw. get_event_payload env l = Inr raw"
    using served by (auto simp: buckets_served_def dest!: in_set_takeD)
  then obtain pairs n' cache' where hyd: "cache_coherent cd env cache'"
    "hydrate_lev_ids_batch cd env ?ls (0, cache) = (Inr pairs, (n', cache'))"
    "map snd pairs = List.map_filter (stored_event cd env) ?ls"
    using hydrate_batch_stored [OF coherent] by blast
  have bucket: "bucket cd env now kind per_author es a = map snd (filter (\<lambda>p. \<not> is_expired now (dec_event (snd p))) pairs)"
    using hyd(3) Some filter_map_snd [of "\<lambda>d. \<not> is_expired now (dec_event d)" pairs]
    by (simp add: bucket_def bucket_entries_def List.map_filter_def filter_map comp_def)
  show ?thesis
  proof (cases "?ls = []")
    case True
    then have "bucket cd env now kind per_author es a = []"
      using Some by (auto simp: bucket_def bucket_entries_def List.map_filter_def)
    then show ?thesis
      using True Some scan key coherent by (intro exI [of _ cache]) simp
  next
    case False
    then show ?thesis
      using Some scan key hyd bucket by (intro exI [of _ cache']) (simp add: Let_def)
  qed
qed

lemma latest_loop_spec:
  assumes "buckets_served env es" "0 < per_author" "cache_coherent cd env cache"
  shows "\<exists>cache'. cache_coherent cd env cache' \<and>
    latest_loop cd env now kind per_author authors acc cache =
      Some (Inr (\<lambda>a. if a \<in> set authors \<and> bucket cd env now kind per_author es a \<noteq> []
                     then Some (bucket cd env now kind per_author es a) else acc a), cache')"
  using assms(3)
proof (induction authors arbitrary: acc cache)
  case (Cons a authors)
  let ?b = "bucket cd env now kind per_author es"
  let ?acc = "if ?b a \<noteq> [] then acc(a \<mapsto> ?b a) else acc"
  obtain cache' where step: "cache_coherent cd env cache'"
    "latest_loop cd env now kind per_author (a # authors) acc cache =
     latest_loop cd env now kind per_author authors ?acc cache'"
    using latest_step [OF assms(1,2) Cons.prems] by blast
  have "(\<lambda>x. if x \<in> set authors \<and> ?b x \<noteq> [] then Some (?b x) else ?acc x) =
      (\<lambda>x. if x \<in> set (a # authors) \<and> ?b x \<noteq> [] then Some (?b x) else acc x)"
    by (auto simp: fun_eq_iff)
  then show ?case
    using Cons.IH [OF step(1), of ?acc] unfolding step(2) by simp
qed simp

lemma latest_per_author_eq:
  assumes "buckets_served env es" "0 < per_author" "cache_coherent cd env cache"
  shows "\<exists>cache'. cache_coherent cd env cache' \<and>
    latest_per_author cd env now kind per_author authors cache =
      Some (Inr (\<lambda>a. if a \<in> set authors \<and> bucket cd env now kind per_author es a \<noteq> []
                     then Some (bucket cd env now kind per_author es a) else None), cache')"
  using latest_loop_spec [OF assms, of now kind authors Map.empty] assms(2)
  by (simp add: latest_per_author_def)

section \<open>Properties\<close>

text \<open>
  C4: on a served index, \<^verbatim>\<open>latestPerAuthor\<close> succeeds and its map holds, for each requested author
  with a well-formed key, exactly the newest \<open>per_author\<close> indexed events of the kind that decode
  and are unexpired, newest first; authors without such an event and malformed keys are absent.
\<close>

theorem latest_per_author_exact:
  assumes "buckets_served env es" "0 < per_author" "cache_coherent cd env cache"
  shows "\<exists>cache'. cache_coherent cd env cache' \<and>
    latest_per_author cd env now kind per_author authors cache =
      Some (Inr (\<lambda>a. if a \<in> set authors \<and> bucket cd env now kind per_author es a \<noteq> []
                     then Some (bucket cd env now kind per_author es a) else None), cache')"
  using assms by (rule latest_per_author_eq)

lemma example_hex: "decode_hex_32 example_hex = Some (example_author 5)"
  by code_simp

lemma example_author_keys:
  "list_all (\<lambda>e. length (fst e) = 48 \<and> created_at_from_key (fst e) \<noteq> u64_MAX) example_pubkey_kinds"
  by code_simp

lemma example_authors_payload:
  "get_event_payload example_authors_env lev_id = get_event_payload example_events_env lev_id"
  by (simp add: get_event_payload_def open_event_payload_db_def example_authors_env_def example_events_env_def
      with_store_def mem_env_def example_env_def)

lemma example_buckets_served:
  "buckets_served example_authors_env (mem_entries StringUint64Uint64Cmp example_pubkey_kinds)"
proof -
  have "serves_index example_authors_env ''Event__pubkeyKind'' StringUint64Uint64Cmp
      (mem_entries StringUint64Uint64Cmp example_pubkey_kinds)"
    unfolding example_authors_env_def
    by (intro with_store_serves mem_env_serves)
      (simp_all add: index_comparator_def full_db_name_def RASGUEADB_PREFIX_def EVENT_PAYLOAD_DB_NAME_def)
  moreover have "\<forall>e\<in>set example_pubkey_kinds. \<exists>raw. get_event_payload example_authors_env (value_lev_id (snd e)) = Inr raw"
    by (simp add: example_pubkey_kinds_def example_kind_values example_authors_payload example_payload_present)
  ultimately show ?thesis
    using example_author_keys by (simp add: buckets_served_def list_all_iff)
qed

lemma example_bucket:
  "bucket example_codec example_authors_env 0 1 1 (mem_entries StringUint64Uint64Cmp example_pubkey_kinds) example_hex =
   [example_decoded 1]"
proof -
  have "take 1 (rev (filter (in_prefix (example_author 5 @ u64_to_le 1)) (mem_entries StringUint64Uint64Cmp example_pubkey_kinds)))
    = [(example_author 5 @ nat_le 8 1 @ nat_le 8 11, nat_le 8 300)]"
    by code_simp
  moreover have "decode_fresh example_codec example_authors_env (0 # nat_le 2 1) = Some (example_decoded 1)"
    by (rule decode_fresh_example) simp
  moreover have "\<not> is_expired 0 (dec_event (example_decoded 1))"
    by code_simp
  ultimately show ?thesis
    by (simp add: bucket_def bucket_entries_def example_hex List.map_filter_def example_kind_values stored_event_def
        example_authors_payload example_payload_present del: One_nat_def)
qed

theorem latest_per_author_exact_witness:
  "\<exists>m cache'. latest_per_author example_codec example_authors_env 0 1 1 [''zz'', example_hex] Map.empty = Some (Inr m, cache') \<and>
     m example_hex = Some [example_decoded 1] \<and> m ''05'' = None"
  using latest_per_author_exact [OF example_buckets_served _ cache_coherent_empty, of 1 example_codec 0 1 "[''zz'', example_hex]"]
    example_bucket by (auto simp: example_hex_def)
end
