(* ===== verification/Authors.thy ===== *)
theory Authors
  imports QueryFilter
begin

text \<open>
  \<^verbatim>\<open>query/authors.rs\<close>: enumerating the distinct pubkeys of the \<^verbatim>\<open>Event__pubkey\<close> index by seek-skip.
  The big-endian successor walks the bytes from the least significant end; the page loop is a
  recursion on the remaining limit.  The lemmas show that the successor is the next key of the byte
  order, so that one seek per author visits every author once, in ascending order, across pages.
\<close>

section \<open>Big-endian successor\<close>

text \<open>The loop of \<^verbatim>\<open>increment_be\<close> on the bytes from the last one; a zero byte is the carry.\<close>

fun increment_loop :: "bytes \<Rightarrow> bytes option" where
  "increment_loop [] = None"
| "increment_loop (b # bs) =
     (let new_byte = b + 1
      in if new_byte \<noteq> 0 then Some (new_byte # bs) else map_option (Cons new_byte) (increment_loop bs))"

definition increment_be :: "bytes \<Rightarrow> bytes option" where
  "increment_be pk = map_option rev (increment_loop (rev pk))"

section \<open>Seek-skip\<close>

definition make_seek_key :: "bytes \<Rightarrow> bytes" where
  "make_seek_key pk = pk @ replicate 8 0"

fun authors_loop :: "nat \<Rightarrow> heed_db \<Rightarrow> bytes \<Rightarrow> (query_error, bytes list) result" where
  "authors_loop 0 db seek_key = Inr []"
| "authors_loop (Suc n) db seek_key =
     bind_r (map_err (Lmdb \<circ> Heed) (db_range db DefaultMode (Included seek_key) Unbounded)) (\<lambda>iter.
       case iter of
         [] \<Rightarrow> Inr []
       | entry # _ \<Rightarrow>
           bind_r (map_err (Lmdb \<circ> Heed) entry) (\<lambda>(key, value).
             if length key < 32 then Inr []
             else let pubkey = take 32 key
                  in map_ok (Cons pubkey)
                       (case increment_be pubkey of
                          Some next_pk \<Rightarrow> authors_loop n db (make_seek_key next_pk)
                        | None \<Rightarrow> Inr [])))"

definition distinct_authors ::
  "heed_env \<Rightarrow> bytes option \<Rightarrow> nat \<Rightarrow> (query_error, bytes list \<times> bytes option) result" where
  "distinct_authors env after limit =
     bind_r (map_err (Lmdb \<circ> Heed) (env_read_txn env)) (\<lambda>_.
     bind_r (map_err Lmdb (open_index_string_uint64 env ''Event__pubkey'')) (\<lambda>db.
       let initial = (case after of Some pk \<Rightarrow> increment_be pk | None \<Rightarrow> Some (replicate 32 0))
       in case initial of
            None \<Rightarrow> Inr ([], None)
          | Some pk \<Rightarrow>
              map_ok (\<lambda>result. (result, if length result = limit \<and> result \<noteq> [] then Some (last result) else None))
                (authors_loop limit db (make_seek_key pk))))"

section \<open>What the enumeration promises\<close>

definition be_nat :: "bytes \<Rightarrow> nat" where
  "be_nat bs = le_nat (rev bs)"

text \<open>The distinct pubkeys of an index in byte order, and those behind a cursor.\<close>

definition author_list :: "entry list \<Rightarrow> bytes list" where
  "author_list es = remdups_adj (map (\<lambda>e. take 32 (fst e)) es)"

definition authors_after :: "entry list \<Rightarrow> bytes option \<Rightarrow> bytes list" where
  "authors_after es after =
     filter (\<lambda>p. case after of None \<Rightarrow> True | Some a \<Rightarrow> a < p) (author_list es)"

definition authors_served :: "heed_env \<Rightarrow> entry list \<Rightarrow> bool" where
  "authors_served env es \<longleftrightarrow>
     serves_index env ''Event__pubkey'' StringUint64Cmp es \<and> (\<forall>e\<in>set es. length (fst e) = 40)"

text \<open>Four records of three authors, whose byte order is not their numeric order.\<close>

definition example_pubkeys :: "entry list" where
  "example_pubkeys =
     [(nat_le 32 5 @ nat_le 8 10, nat_le 8 7), (nat_le 32 5 @ nat_le 8 9, nat_le 8 300),
      (nat_le 32 255 @ nat_le 8 1, nat_le 8 2), (nat_le 32 256 @ nat_le 8 50, nat_le 8 4)]"

definition example_pubkey_env :: heed_env where
  "example_pubkey_env = mem_env [(''Event__pubkey'', StringUint64Cmp, example_pubkeys)]"

section \<open>The successor\<close>

lemma u8_succ:
  fixes b :: u8
  shows "b + 1 \<noteq> 0 \<Longrightarrow> unat (b + 1) = unat b + 1" and "b + 1 = 0 \<Longrightarrow> unat b = 255"
proof -
  show "unat (b + 1) = unat b + 1" if "b + 1 \<noteq> 0"
    using that by (simp add: unatSuc add.commute)
  show "unat b = 255" if "b + 1 = 0"
    using that unat_less_u8 [of b] by (auto simp: unat_word_ariths word_unat_eq_iff mod_Suc split: if_splits)
qed

lemma increment_loop_spec:
  "(case increment_loop bs of
      Some cs \<Rightarrow> length cs = length bs \<and> le_nat cs = le_nat bs + 1
    | None \<Rightarrow> le_nat bs + 1 = 256 ^ length bs)"
proof (induction bs)
  case (Cons b bs)
  show ?case
  proof (cases "b + 1 = 0")
    case True
    then show ?thesis
      using Cons u8_succ(2) [OF True] by (cases "increment_loop bs") auto
  next
    case False
    then show ?thesis
      using u8_succ(1) [OF False] by simp
  qed
qed simp

lemma le_nat_append: "le_nat (a @ b) = le_nat a + 256 ^ length a * le_nat b"
  by (induction a) (simp_all add: algebra_simps)

lemma increment_loop_None: "increment_loop bs = None \<Longrightarrow> bs = replicate (length bs) 255"
proof (induction bs)
  case (Cons b bs)
  then have "b + 1 = 0" "increment_loop bs = None"
    by (auto simp: Let_def split: if_splits)
  moreover have "b = 255"
    using u8_succ(2) [OF \<open>b + 1 = 0\<close>] by (simp add: word_unat_eq_iff)
  ultimately show ?case
    using Cons.IH by simp
qed simp

lemma be_nat_less: "length a = length b \<Longrightarrow> be_nat a < be_nat b \<longleftrightarrow> a < b"
proof (induction a b rule: list_induct2)
  case (Cons x xs y ys)
  let ?B = "256 ^ length xs :: nat"
  have bound: "be_nat xs < ?B" "be_nat ys < ?B"
    using le_nat_bound [of "rev xs"] le_nat_bound [of "rev ys"] Cons(1) by (simp_all add: be_nat_def)
  have "be_nat (x # xs) = be_nat xs + ?B * unat x" "be_nat (y # ys) = be_nat ys + ?B * unat y"
    using Cons(1) by (simp_all add: be_nat_def le_nat_append)
  moreover have "be_nat xs + ?B * unat x < be_nat ys + ?B * unat y" if "unat x < unat y"
  proof -
    have "be_nat xs + ?B * unat x < ?B * (unat x + 1)"
      using bound by simp
    also have "\<dots> \<le> ?B * unat y"
      using that by (intro mult_left_mono) auto
    finally show ?thesis
      by simp
  qed
  moreover have "be_nat ys + ?B * unat y < be_nat xs + ?B * unat x" if "unat y < unat x"
  proof -
    have "be_nat ys + ?B * unat y < ?B * (unat y + 1)"
      using bound by simp
    also have "\<dots> \<le> ?B * unat x"
      using that by (intro mult_left_mono) auto
    finally show ?thesis
      by simp
  qed
  ultimately show ?case
    using Cons.IH by (cases "unat x" "unat y" rule: linorder_cases)
      (auto simp: word_less_nat_alt word_unat_eq_iff)
qed simp

lemma increment_be_spec:
  assumes "increment_be pk = Some q"
  shows "length q = length pk" "be_nat q = be_nat pk + 1"
  using assms increment_loop_spec [of "rev pk"] by (auto simp: increment_be_def be_nat_def)

lemma increment_be_None: "increment_be pk = None \<Longrightarrow> be_nat pk + 1 = 256 ^ length pk"
  using increment_loop_spec [of "rev pk"] by (auto simp: increment_be_def be_nat_def split: option.splits)

text \<open>The successor is the least key above, and a key without successor is the greatest.\<close>

lemma increment_be_next:
  assumes "increment_be pk = Some q" "length p = length pk"
  shows "q \<le> p \<longleftrightarrow> pk < p"
  using be_nat_less [of pk p] be_nat_less [of p q] increment_be_spec [OF assms(1)] assms(2)
  by (auto simp: not_less [symmetric])

lemma increment_be_last:
  assumes "increment_be pk = None" "length p = length pk"
  shows "\<not> pk < p"
  using be_nat_less [of pk p] increment_be_None [OF assms(1)] le_nat_bound [of "rev p"] assms(2)
  by (simp add: be_nat_def)

section \<open>The loop\<close>

lemma sorted_filter_tail:
  fixes A :: "'a::linorder list"
  assumes "sorted_wrt (<) A" "filter (\<lambda>p. s \<le> p) A = h # tail"
  shows "filter (\<lambda>p. h < p) A = tail"
  using assms
proof (induction A)
  case (Cons a A)
  show ?case
  proof (cases "s \<le> a")
    case True
    then have "h = a" "filter (\<lambda>p. s \<le> p) A = tail"
      using Cons.prems(2) by auto
    moreover have "filter (\<lambda>p. a < p) A = A" "filter (\<lambda>p. s \<le> p) A = A"
      using Cons.prems(1) True by (auto simp: filter_id_conv)
    ultimately show ?thesis
      by simp
  next
    case False
    then have "filter (\<lambda>p. h < p) A = tail"
      using Cons by simp
    moreover have "h \<in> set (filter (\<lambda>p. s \<le> p) A)"
      using False Cons.prems(2) by simp
    then have "\<not> h < a"
      using Cons.prems(1) False by auto
    ultimately show ?thesis
      by simp
  qed
qed simp

lemma author_list_sorted:
  assumes "authors_served env es"
  shows "sorted_wrt (<) (author_list es)" "\<forall>p\<in>set (author_list es). length p = 32"
proof -
  obtain db where idx: "lmdb_index StringUint64Cmp db es"
    using assms by (auto simp: authors_served_def serves_index_def)
  have "sorted_wrt (\<lambda>e f. take 32 (fst e) \<le> take 32 (fst f)) es"
    by (rule sorted_wrt_mono_rel [OF _ lmdb_index.keys_sorted [OF idx]])
      (use assms in \<open>auto simp: authors_served_def key_rank_def\<close>)
  then have "sorted (map (\<lambda>e. take 32 (fst e)) es)"
    by (simp add: sorted_wrt_map)
  then show "sorted_wrt (<) (author_list es)"
    unfolding author_list_def by (rule sorted_remdups_adj_strict)
  show "\<forall>p\<in>set (author_list es). length p = 32"
    using assms by (auto simp: author_list_def authors_served_def)
qed

text \<open>A seek for a pubkey lands on its first record or on the first record above.\<close>

lemma le_nat_zeros: "le_nat (replicate n 0) = 0"
  by (induction n) simp_all

lemma zeros_least: "length p = n \<Longrightarrow> replicate n 0 \<le> (p :: bytes)"
  using be_nat_less [of p "replicate n 0"] by (simp add: be_nat_def le_nat_zeros not_less [symmetric])

lemma seek_rank:
  assumes "length s = 32" "length k = 40"
  shows "key_rank StringUint64Cmp (make_seek_key s) \<le> key_rank StringUint64Cmp k \<longleftrightarrow> s \<le> take 32 k"
  using assms by (auto simp: key_rank_def make_seek_key_def key_ts_def le_nat_zeros order_le_less)

lemma hd_filter_author_list:
  "take 1 (map (\<lambda>e. take 32 (fst e)) (filter (\<lambda>e. P (take 32 (fst e))) es)) = take 1 (filter P (author_list es))"
proof -
  have "take 1 (filter P xs) = take 1 (filter P (remdups_adj xs))" for xs :: "bytes list"
    by (induction xs rule: remdups_adj.induct) auto
  then show ?thesis
    by (simp add: author_list_def filter_map comp_def)
qed

lemma seek_author:
  assumes served: "authors_served env es" and idx: "lmdb_index StringUint64Cmp db es" and s: "length s = 32"
  obtains xs where "db_range db DefaultMode (Included (make_seek_key s)) Unbounded = Inr xs"
    "take 1 xs = map Inr (take 1 (filter (\<lambda>e. s \<le> take 32 (fst e)) es))"
proof -
  have "filter (\<lambda>e. key_rank StringUint64Cmp (make_seek_key s) \<le> key_rank StringUint64Cmp (fst e)) es =
      filter (\<lambda>e. s \<le> take 32 (fst e)) es"
    using served s by (intro filter_cong) (auto simp: authors_served_def seek_rank)
  moreover have "valid_key StringUint64Cmp (make_seek_key s)"
    by (simp add: make_seek_key_def)
  ultimately show thesis
    using lmdb_index.seek_first [OF idx] that by metis
qed

text \<open>The seek key after an author: the authors from it on are those above the author.\<close>

lemma next_author_seek:
  assumes served: "authors_served env es" and a: "length a = 32" "filter (\<lambda>p. s \<le> p) (author_list es) = a # tail"
  shows "increment_be a = None \<Longrightarrow> tail = []"
    and "increment_be a = Some q \<Longrightarrow> length q = 32 \<and> filter (\<lambda>p. q \<le> p) (author_list es) = tail"
proof -
  note len = author_list_sorted(2) [OF served]
  have above: "filter (\<lambda>p. a < p) (author_list es) = tail"
    using author_list_sorted(1) [OF served] a(2) by (rule sorted_filter_tail)
  show "tail = []" if "increment_be a = None"
    using above increment_be_last [OF that] len a(1) by (auto simp: filter_empty_conv)
  have "filter (\<lambda>p. q \<le> p) (author_list es) = filter (\<lambda>p. a < p) (author_list es)" if "increment_be a = Some q"
    using increment_be_next [OF that] len a(1) by (intro filter_cong) auto
  then show "length q = 32 \<and> filter (\<lambda>p. q \<le> p) (author_list es) = tail" if "increment_be a = Some q"
    using that above a(1) increment_be_spec(1) [OF that] by simp
qed

lemma authors_loop_spec:
  assumes served: "authors_served env es" and idx: "lmdb_index StringUint64Cmp db es" and s: "length s = 32"
  shows "authors_loop n db (make_seek_key s) = Inr (take n (filter (\<lambda>p. s \<le> p) (author_list es)))"
  using s
proof (induction n arbitrary: s)
  case (Suc n)
  let ?A = "filter (\<lambda>p. s \<le> p) (author_list es)" and ?es = "filter (\<lambda>e. s \<le> take 32 (fst e)) es"
  obtain xs where xs: "db_range db DefaultMode (Included (make_seek_key s)) Unbounded = Inr xs"
    "take 1 xs = map Inr (take 1 ?es)"
    by (rule seek_author [OF served idx Suc.prems])
  have hd: "take 1 (map (\<lambda>e. take 32 (fst e)) ?es) = take 1 ?A"
    by (rule hd_filter_author_list)
  show ?case
  proof (cases ?es)
    case Nil
    then have "?A = []" "xs = []"
      using hd xs(2) by auto
    then show ?thesis
      using xs(1) by simp
  next
    case (Cons e rest)
    then obtain ys tail where ys: "xs = Inr e # ys" and tail: "?A = take 32 (fst e) # tail"
      using xs(2) hd by (cases xs; cases ?A) auto
    have "e \<in> set ?es"
      unfolding Cons by simp
    then have len: "length (fst e) = 40" "length (take 32 (fst e)) = 32"
      using served by (auto simp: authors_served_def)
    have "(case increment_be (take 32 (fst e)) of
        Some next_pk \<Rightarrow> authors_loop n db (make_seek_key next_pk) | None \<Rightarrow> Inr []) = Inr (take n tail)"
      using next_author_seek [OF served len(2) tail] Suc.IH by (cases "increment_be (take 32 (fst e))") simp_all
    then show ?thesis
      using ys tail len(1) xs(1) by (cases e) simp
  qed
qed simp

lemma distinct_authors_spec:
  assumes served: "authors_served env es" and "\<And>a. after = Some a \<Longrightarrow> length a = 32"
  shows "distinct_authors env after limit =
    (let page = take limit (authors_after es after)
     in Inr (page, if length page = limit \<and> page \<noteq> [] then Some (last page) else None))"
proof -
  obtain db where db: "env_read_txn env = Inr ()" "lmdb_index StringUint64Cmp db es"
    "open_index_string_uint64 env ''Event__pubkey'' = Inr db"
    using served by (auto simp: authors_served_def serves_index_def open_index_defs Let_def)
  let ?initial = "case after of Some pk \<Rightarrow> increment_be pk | None \<Rightarrow> Some (replicate 32 0)"
  note len = author_list_sorted(2) [OF served]
  show ?thesis
  proof (cases ?initial)
    case None
    then obtain a where "after = Some a" "increment_be a = None"
      by (cases after) auto
    then have "authors_after es after = []"
      using increment_be_last [of a] assms(2) len by (auto simp: authors_after_def filter_empty_conv)
    then show ?thesis
      using None db by (simp add: distinct_authors_def Let_def)
  next
    case (Some s)
    have "length s = 32"
      using Some assms(2) increment_be_spec(1) by (auto split: option.splits)
    moreover have "filter (\<lambda>p. s \<le> p) (author_list es) = authors_after es after"
      unfolding authors_after_def
      using Some assms(2) len increment_be_next zeros_least [of _ 32]
      by (intro filter_cong) (auto split: option.splits)
    ultimately show ?thesis
      using Some db authors_loop_spec [OF served db(2), of s limit] by (simp add: distinct_authors_def Let_def)
  qed
qed

lemma authors_after_last:
  assumes served: "authors_served env es" and split: "authors_after es after = xs @ a # ys"
  shows "authors_after es (Some a) = ys"
proof -
  have "a \<in> set (authors_after es after)"
    using split by simp
  then have "authors_after es (Some a) = filter (\<lambda>p. a < p) (authors_after es after)"
    unfolding authors_after_def filter_filter
    by (intro filter_cong) (auto split: option.splits)
  moreover have "sorted_wrt (<) (authors_after es after)"
    unfolding authors_after_def by (rule sorted_wrt_filter [OF author_list_sorted(1) [OF served]])
  ultimately show ?thesis
    unfolding split by (auto simp: sorted_wrt_append filter_empty_conv intro!: filter_True dest: less_asym)
qed

lemma distinct_authors_pages:
  assumes "authors_served env es" "\<And>a. after = Some a \<Longrightarrow> length a = 32" "0 < limit"
  shows "\<exists>page next. distinct_authors env after limit = Inr (page, next) \<and> length page \<le> limit \<and>
    authors_after es after = page @ (case next of None \<Rightarrow> [] | Some a \<Rightarrow> authors_after es (Some a)) \<and>
    sorted_wrt (<) (authors_after es after) \<and>
    set (authors_after es None) = (\<lambda>e. take 32 (fst e)) ` set es"
proof -
  let ?all = "authors_after es after"
  let ?page = "take limit ?all"
  let ?next = "if length ?page = limit \<and> ?page \<noteq> [] then Some (last ?page) else None"
  have "?all = ?page @ (case ?next of None \<Rightarrow> [] | Some a \<Rightarrow> authors_after es (Some a))"
  proof (cases "length ?page = limit")
    case True
    then have page: "?page \<noteq> []"
      using assms(3) by auto
    then have "?all = butlast ?page @ last ?page # drop limit ?all"
      by (metis append_butlast_last_id append_take_drop_id append.assoc append_Cons append_Nil)
    then have "authors_after es (Some (last ?page)) = drop limit ?all"
      by (rule authors_after_last [OF assms(1)])
    then show ?thesis
      using True page by simp
  next
    case False
    then have "length ?all \<le> limit"
      by (simp add: min_def split: if_splits)
    then show ?thesis
      using False by simp
  qed
  moreover have "sorted_wrt (<) ?all"
    unfolding authors_after_def by (rule sorted_wrt_filter [OF author_list_sorted(1) [OF assms(1)]])
  moreover have "set (authors_after es None) = (\<lambda>e. take 32 (fst e)) ` set es"
    by (simp add: authors_after_def author_list_def)
  moreover have "distinct_authors env after limit = Inr (?page, ?next)"
    using distinct_authors_spec [OF assms(1), of after limit] assms(2) by (simp add: Let_def)
  moreover have "length ?page \<le> limit"
    by simp
  ultimately show ?thesis
    by blast
qed

section \<open>Properties\<close>

lemma example_authors_served: "authors_served example_pubkey_env (mem_entries StringUint64Cmp example_pubkeys)"
proof -
  have "list_all (\<lambda>e. length (fst e) = 40) example_pubkeys"
    by code_simp
  then show ?thesis
    unfolding example_pubkey_env_def
    by (auto simp: authors_served_def list_all_iff index_comparator_def intro!: mem_env_serves)
qed

lemma example_author_list:
  "author_list (mem_entries StringUint64Cmp example_pubkeys) = [nat_le 32 256, nat_le 32 5, nat_le 32 255]"
  by code_simp

text \<open>
  A page of \<^verbatim>\<open>authors\<close> and the pages behind its cursor are together exactly the distinct pubkeys
  of the index above the given cursor, in strictly ascending byte order, each once, with at most
  \<open>limit\<close> of them on the page, although every author costs a single seek.
\<close>

theorem distinct_authors_page:
  assumes "authors_served env es" "\<And>a. after = Some a \<Longrightarrow> length a = 32" "0 < limit"
  shows "\<exists>page next. distinct_authors env after limit = Inr (page, next) \<and> length page \<le> limit \<and>
    authors_after es after = page @ (case next of None \<Rightarrow> [] | Some a \<Rightarrow> authors_after es (Some a)) \<and>
    sorted_wrt (<) (authors_after es after) \<and>
    set (authors_after es None) = (\<lambda>e. take 32 (fst e)) ` set es"
  using assms by (rule distinct_authors_pages)

theorem distinct_authors_page_witness:
  "\<exists>page next. distinct_authors example_pubkey_env None 2 = Inr (page, next) \<and> length page \<le> 2 \<and>
    page @ (case next of None \<Rightarrow> [] | Some a \<Rightarrow> authors_after (mem_entries StringUint64Cmp example_pubkeys) (Some a)) =
      [nat_le 32 256, nat_le 32 5, nat_le 32 255]"
proof -
  have "authors_after (mem_entries StringUint64Cmp example_pubkeys) None = [nat_le 32 256, nat_le 32 5, nat_le 32 255]"
    by (simp add: authors_after_def example_author_list)
  then show ?thesis
    using distinct_authors_page [OF example_authors_served, of None 2] by auto
qed

text \<open>
  The big-endian successor of a key is the least key above it in byte order, and only the key of
  all 0xFF bytes has none.
\<close>

theorem increment_be_successor:
  "case increment_be pk of
     Some q \<Rightarrow> length q = length pk \<and> (\<forall>p. length p = length pk \<longrightarrow> (q \<le> p \<longleftrightarrow> pk < p))
   | None \<Rightarrow> pk = replicate (length pk) 255"
proof (cases "increment_be pk")
  case None
  then show ?thesis
    using increment_loop_None [of "rev pk"] by (simp add: increment_be_def rev_swap)
next
  case (Some q)
  then show ?thesis
    using increment_be_spec [OF Some] increment_be_next [OF Some] by simp
qed

theorem increment_be_successor_witness:
  "case increment_be [0, 255 :: u8] of
     Some q \<Rightarrow> q = [1, 0] \<and> (q \<le> [1, 5] \<longleftrightarrow> [0, 255] < [1, 5 :: u8]) | None \<Rightarrow> False"
proof -
  have "increment_be [0, 255 :: u8] = Some [1, 0]"
    by (simp add: increment_be_def)
  then show ?thesis
    using increment_be_successor [of "[0, 255]"] by simp
qed

end
