(* ===== verification/SelfCheck.thy ===== *)
theory SelfCheck
  imports Router
begin

text \<open>
  \<^verbatim>\<open>lmdb/self_check.rs\<close>: the fail-closed comparator self-check of the startup gate.  The physical
  order of the B-tree is what \<^verbatim>\<open>db.iter()\<close> yields; \<^verbatim>\<open>C::compare\<close> of \<^verbatim>\<open>heed::IntegerComparator\<close> is the
  parameter \<open>int_cmp\<close>.  The result is \<^const>\<open>None\<close> when a golpe comparator aborts the process.  The
  lemmas show that the check accepts every database that is ordered by the registered comparators,
  and that a database it accepts passed both phases on the sampled keys of all six indexes.
\<close>

section \<open>Constants, errors, rendering\<close>

definition SELF_CHECK_SAMPLE_CAP :: nat where "SELF_CHECK_SAMPLE_CAP = 10000"
definition HEX_EDGE :: nat where "HEX_EDGE = 8"

datatype self_check_error =
  MonotonicityViolation string nat string string
| SeekRoundTripMismatch string string string
| IndexScan string index_error

definition hex_of :: "bytes \<Rightarrow> string" where
  "hex_of bs = string_of_bytes (hex_bytes bs)"

text \<open>Decimal rendering of a \<^verbatim>\<open>usize\<close>.\<close>

fun show_nat :: "nat \<Rightarrow> string" where
  "show_nat n = (if n < 10 then [char_of (48 + n)] else show_nat (n div 10) @ [char_of (48 + n mod 10)])"

declare show_nat.simps [simp del]

text \<open>The ellipsis is its three UTF-8 bytes.\<close>

definition ellipsis :: string where
  "ellipsis = [char_of (226 :: nat), char_of (128 :: nat), char_of (166 :: nat)]"

definition hex_trunc :: "bytes \<Rightarrow> string" where
  "hex_trunc key =
     (if length key \<le> 2 * HEX_EDGE then hex_of key
      else hex_of (take HEX_EDGE key) @ ellipsis @ hex_of (drop (length key - HEX_EDGE) key) @
        '' (len='' @ show_nat (length key) @ '')'')"

section \<open>The sample\<close>

fun collect_keys_loop :: "nat \<Rightarrow> string \<Rightarrow> items \<Rightarrow> bytes list \<Rightarrow> (self_check_error, bytes list) result" where
  "collect_keys_loop cap index [] keys = Inr keys"
| "collect_keys_loop cap index (item # items) keys =
     (case item of
        Inl e \<Rightarrow> Inl (IndexScan index (Heed e))
      | Inr (key, value) \<Rightarrow>
          let keys = keys @ [key]
          in if cap \<le> length keys then Inr keys else collect_keys_loop cap index items keys)"

definition collect_keys_bounded :: "heed_db \<Rightarrow> nat \<Rightarrow> string \<Rightarrow> (self_check_error, bytes list) result" where
  "collect_keys_bounded db cap index =
     bind_r (map_err (IndexScan index \<circ> Heed) (db_iter db)) (\<lambda>iter. collect_keys_loop cap index iter [])"

section \<open>The two phases\<close>

type_synonym compare = "bytes \<Rightarrow> bytes \<Rightarrow> ordering option"

record IndexCheckReport =
  rep_sampled :: nat
  rep_witnesses :: nat

text \<open>Phase A from position \<open>pos\<close>: the witness positions, or the first descent.\<close>

fun phase_a :: "compare \<Rightarrow> string \<Rightarrow> nat \<Rightarrow> bytes list \<Rightarrow> (self_check_error, nat list) result option" where
  "phase_a cmp index pos (prev # cur # keys) =
     (case cmp prev cur of
        None \<Rightarrow> None
      | Some ord \<Rightarrow>
          if ord = Greater
          then Some (Inl (MonotonicityViolation index pos (hex_trunc prev) (hex_trunc cur)))
          else map_option (map_ok (if cur < prev then Cons pos else id))
                 (phase_a cmp index (pos + 1) (cur # keys)))"
| "phase_a cmp index pos keys = Some (Inr [])"

text \<open>The spread of positions for a sample without witnesses; the step is at least one.\<close>

function spread_from :: "nat \<Rightarrow> nat \<Rightarrow> nat \<Rightarrow> nat list" where
  "spread_from step len i = (if i < len then i # spread_from step len (i + max 1 step) else [])"
  by pat_completeness auto

termination
  by (relation "measure (\<lambda>(step, len, i). len - i)") auto

declare spread_from.simps [simp del]

definition seek_targets :: "nat \<Rightarrow> nat list \<Rightarrow> nat list" where
  "seek_targets n_keys witness_positions =
     (let targets = remdups_adj (sort (concat (map (\<lambda>pos. [pos - 1, pos]) witness_positions)))
      in if targets = [] \<and> n_keys \<noteq> 0 then spread_from ((n_keys + 63) div 64) n_keys 0 else targets)"

fun phase_b :: "heed_db \<Rightarrow> string \<Rightarrow> bytes list \<Rightarrow> nat list \<Rightarrow> (self_check_error, unit) result" where
  "phase_b db index keys [] = Inr ()"
| "phase_b db index keys (idx # targets) =
     (let sought = keys ! idx
      in bind_r (map_err (IndexScan index \<circ> Heed) (db_range db DefaultMode (Included sought) Unbounded)) (\<lambda>iter.
           case iter of
             [] \<Rightarrow> Inl (SeekRoundTripMismatch index (hex_trunc sought) ''<empty range>'')
           | result # _ \<Rightarrow>
               bind_r (map_err (IndexScan index \<circ> Heed) result) (\<lambda>(landed, value).
                 if landed \<noteq> sought
                 then Inl (SeekRoundTripMismatch index (hex_trunc sought) (hex_trunc landed))
                 else phase_b db index keys targets)))"

definition check_index ::
  "compare \<Rightarrow> heed_db \<Rightarrow> string \<Rightarrow> bytes list \<Rightarrow> (self_check_error, IndexCheckReport) result option" where
  "check_index cmp db index keys =
     map_option (\<lambda>a. bind_r a (\<lambda>witness_positions.
        map_ok (\<lambda>_. \<lparr> rep_sampled = length keys, rep_witnesses = length witness_positions \<rparr>)
          (phase_b db index keys (seek_targets (length keys) witness_positions))))
       (phase_a cmp index 1 keys)"

text \<open>The comparator type the dispatch passes for each index.\<close>

definition check_opened ::
  "compare \<Rightarrow> (index_error, heed_db) result \<Rightarrow> string \<Rightarrow> (self_check_error, IndexCheckReport) result option" where
  "check_opened cmp opened short_name =
     (case bind_r (map_err (IndexScan short_name) opened) (\<lambda>db.
             map_ok (Pair db) (collect_keys_bounded db SELF_CHECK_SAMPLE_CAP short_name)) of
        Inl e \<Rightarrow> Some (Inl e)
      | Inr (db, keys) \<Rightarrow> check_index cmp db short_name keys)"

definition check_index_by_name ::
  "compare \<Rightarrow> heed_env \<Rightarrow> string \<Rightarrow> (self_check_error, IndexCheckReport) result option" where
  "check_index_by_name int_cmp env short_name =
     (case map_err (IndexScan short_name \<circ> Heed) (env_read_txn env) of
        Inl e \<Rightarrow> Some (Inl e)
      | Inr _ \<Rightarrow>
          if short_name = ''Event__id'' \<or> short_name = ''Event__pubkey'' \<or> short_name = ''Event__tag''
          then check_opened StringUint64Cmp_compare (open_index_string_uint64 env short_name) short_name
          else if short_name = ''Event__kind''
          then check_opened Uint64Uint64Cmp_compare (open_index_uint64_uint64 env short_name) short_name
          else if short_name = ''Event__pubkeyKind''
          then check_opened StringUint64Uint64Cmp_compare (open_index_string_uint64_uint64 env short_name) short_name
          else if short_name = ''Event__created_at''
          then check_opened int_cmp (open_index_created_at env) short_name
          else Some (Inl (IndexScan short_name (SubDbNotFound short_name))))"

fun check_all :: "compare \<Rightarrow> heed_env \<Rightarrow> string list \<Rightarrow> (self_check_error, unit) result option" where
  "check_all int_cmp env [] = Some (Inr ())"
| "check_all int_cmp env (short_name # names) =
     (case check_index_by_name int_cmp env short_name of
        None \<Rightarrow> None
      | Some (Inl e) \<Rightarrow> Some (Inl e)
      | Some (Inr report) \<Rightarrow> check_all int_cmp env names)"

definition run_comparator_self_check :: "compare \<Rightarrow> heed_env \<Rightarrow> (self_check_error, unit) result option" where
  "run_comparator_self_check int_cmp env = check_all int_cmp env ALL_EVENT_INDEXES"

section \<open>What a sample proves\<close>

definition registered_compare :: "compare \<Rightarrow> comparator \<Rightarrow> compare" where
  "registered_compare int_cmp c =
     (case c of StringUint64Cmp \<Rightarrow> StringUint64Cmp_compare | Uint64Uint64Cmp \<Rightarrow> Uint64Uint64Cmp_compare
      | StringUint64Uint64Cmp \<Rightarrow> StringUint64Uint64Cmp_compare | _ \<Rightarrow> int_cmp)"

text \<open>
  Adjacent keys of a sample do not descend; a seek for a key lands on it; and it does so for both
  keys of every adjacent pair that \<^verbatim>\<open>memcmp\<close> would order the other way.
\<close>

definition ascending_keys :: "compare \<Rightarrow> bytes list \<Rightarrow> bool" where
  "ascending_keys cmp keys \<longleftrightarrow>
     (\<forall>i. Suc i < length keys \<longrightarrow> (\<exists>ord. cmp (keys ! i) (keys ! Suc i) = Some ord \<and> ord \<noteq> Greater))"

definition seek_lands :: "heed_db \<Rightarrow> bytes \<Rightarrow> bool" where
  "seek_lands db k \<longleftrightarrow>
     (\<exists>value rest. db_range db DefaultMode (Included k) Unbounded = Inr (Inr (k, value) # rest))"

definition witnesses_land :: "heed_db \<Rightarrow> bytes list \<Rightarrow> bool" where
  "witnesses_land db keys \<longleftrightarrow>
     (\<forall>i. Suc i < length keys \<longrightarrow> keys ! Suc i < keys ! i \<longrightarrow>
        seek_lands db (keys ! i) \<and> seek_lands db (keys ! Suc i))"

text \<open>\<^verbatim>\<open>heed::IntegerComparator\<close> compares 8-byte keys as native-endian integers.\<close>

definition int_cmp_ok :: "compare \<Rightarrow> bool" where
  "int_cmp_ok int_cmp \<longleftrightarrow>
     (\<forall>a b. length a = 8 \<longrightarrow> length b = 8 \<longrightarrow>
        int_cmp a b = Some (if le_nat a < le_nat b then Less else if le_nat a = le_nat b then Equal else Greater))"

text \<open>An environment with all six indexes, one of them filled, and a concrete integer comparator.\<close>

definition example_int_cmp :: compare where
  "example_int_cmp a b = Some (if le_nat a < le_nat b then Less else if le_nat a = le_nat b then Equal else Greater)"

definition example_six_env :: heed_env where
  "example_six_env = mem_env (map (\<lambda>n. (n, the (index_comparator n), if n = ''Event__kind'' then example_kinds else []))
     ALL_EVENT_INDEXES)"

definition descents :: "nat \<Rightarrow> bytes list \<Rightarrow> nat set" where
  "descents pos keys = {pos + i | i. Suc i < length keys \<and> keys ! Suc i < keys ! i}"

section \<open>Lemmas\<close>

lemma ascending_keys_Cons:
  "ascending_keys cmp (prev # cur # keys) \<longleftrightarrow>
   (\<exists>ord. cmp prev cur = Some ord \<and> ord \<noteq> Greater) \<and> ascending_keys cmp (cur # keys)"
  unfolding ascending_keys_def by (auto simp: less_Suc_eq_0_disj nth_Cons split: nat.splits)

lemma ex_nat_Suc_split: "(\<exists>i. P i) \<longleftrightarrow> P 0 \<or> (\<exists>i. P (Suc i))"
  by (metis not0_implies_Suc)

lemma descents_Cons:
  "descents pos (prev # cur # keys) =
   (if cur < prev then insert pos else id) (descents (pos + 1) (cur # keys))"
proof (rule set_eqI)
  fix x
  have "x \<in> descents pos (prev # cur # keys) \<longleftrightarrow>
      (\<exists>i. x = pos + i \<and> Suc i < length (prev # cur # keys) \<and> (prev # cur # keys) ! Suc i < (prev # cur # keys) ! i)"
    by (simp add: descents_def)
  also have "\<dots> \<longleftrightarrow> x = pos \<and> cur < prev \<or> x \<in> descents (pos + 1) (cur # keys)"
    by (subst ex_nat_Suc_split) (simp add: descents_def)
  finally show "x \<in> descents pos (prev # cur # keys) \<longleftrightarrow>
      x \<in> (if cur < prev then insert pos else id) (descents (pos + 1) (cur # keys))"
    by simp
qed

lemma phase_a_sound:
  "phase_a cmp index pos keys = Some (Inr ws) \<Longrightarrow> ascending_keys cmp keys \<and> set ws = descents pos keys"
proof (induction cmp index pos keys arbitrary: ws rule: phase_a.induct)
  case (1 cmp index pos prev cur keys)
  then show ?case
    by (auto simp: ascending_keys_Cons descents_Cons map_ok_eq_Inr split: option.splits if_splits)
qed (simp_all add: ascending_keys_def descents_def)

lemma phase_a_complete:
  "ascending_keys cmp keys \<Longrightarrow> \<exists>ws. phase_a cmp index pos keys = Some (Inr ws)"
proof (induction cmp index pos keys rule: phase_a.induct)
  case (1 cmp index pos prev cur keys)
  then show ?case
    by (auto simp: ascending_keys_Cons)
qed simp_all

lemma phase_b_iff:
  "phase_b db index keys targets = Inr () \<longleftrightarrow> (\<forall>idx\<in>set targets. seek_lands db (keys ! idx))"
proof (induction targets)
  case (Cons idx targets)
  show ?case
  proof (cases "db_range db DefaultMode (Included (keys ! idx)) Unbounded")
    case (Inr iter)
    then show ?thesis
      using Cons.IH by (cases iter; cases "hd iter") (auto simp: seek_lands_def result_eqs Let_def split: if_splits)
  qed (auto simp: seek_lands_def)
qed simp

lemma set_spread: "set (spread_from step len i) \<subseteq> {i..<len}"
proof (induction step len i rule: spread_from.induct)
  case (1 step len i)
  then show ?case
    by (subst spread_from.simps) (auto dest!: subsetD)
qed

lemma set_witness_targets:
  "set (remdups_adj (sort (concat (map (\<lambda>pos. [pos - 1, pos]) ws)))) = (\<Union>pos\<in>set ws. {pos - 1, pos})" for ws :: "nat list"
  by simp

lemma seek_targets_bound:
  assumes "set ws \<subseteq> {1..<n}"
  shows "set (seek_targets n ws) \<subseteq> {..<n}"
proof -
  have "(\<Union>pos\<in>set ws. {pos - 1, pos}) \<subseteq> {..<n}"
    using assms by (auto dest!: subsetD)
  then show ?thesis
    using set_witness_targets [of ws] set_spread [of "(n + 63) div 64" n 0]
    by (simp add: seek_targets_def Let_def lessThan_atLeast0)
qed

lemma seek_targets_witness:
  assumes "pos \<in> set ws"
  shows "{pos - 1, pos} \<subseteq> set (seek_targets n ws)"
proof -
  have "{pos - 1, pos} \<subseteq> set (remdups_adj (sort (concat (map (\<lambda>pos. [pos - 1, pos]) ws))))"
    unfolding set_witness_targets using assms by blast
  moreover from this have "remdups_adj (sort (concat (map (\<lambda>pos. [pos - 1, pos]) ws))) \<noteq> []"
    by (metis empty_set insert_not_empty subset_empty)
  ultimately show ?thesis
    by (simp only: seek_targets_def Let_def if_False simp_thms)
qed

lemma check_index_sound:
  assumes "check_index cmp db index keys = Some (Inr report)"
  shows "ascending_keys cmp keys \<and> witnesses_land db keys"
proof -
  obtain ws where ws: "phase_a cmp index 1 keys = Some (Inr ws)"
    "phase_b db index keys (seek_targets (length keys) ws) = Inr ()"
    using assms by (auto simp: check_index_def result_eqs)
  have "seek_lands db (keys ! i) \<and> seek_lands db (keys ! Suc i)"
    if "Suc i < length keys" "keys ! Suc i < keys ! i" for i
  proof -
    have "Suc i \<in> set ws"
      using phase_a_sound [OF ws(1)] that by (auto simp: descents_def)
    then have "{i, Suc i} \<subseteq> set (seek_targets (length keys) ws)"
      using seek_targets_witness [of "Suc i" ws] by simp
    then show ?thesis
      using ws(2) unfolding phase_b_iff by simp
  qed
  then show ?thesis
    using phase_a_sound [OF ws(1)] by (simp add: witnesses_land_def)
qed

lemma check_index_complete:
  assumes "ascending_keys cmp keys" "\<forall>k\<in>set keys. seek_lands db k"
  shows "\<exists>report. check_index cmp db index keys = Some (Inr report)"
proof -
  obtain ws where ws: "phase_a cmp index 1 keys = Some (Inr ws)"
    using phase_a_complete [OF assms(1)] by blast
  then have "set ws \<subseteq> {1..<length keys}"
    using phase_a_sound [OF ws] by (auto simp: descents_def)
  then have "\<forall>idx\<in>set (seek_targets (length keys) ws). keys ! idx \<in> set keys"
    using seek_targets_bound by (force intro: nth_mem)
  then have "phase_b db index keys (seek_targets (length keys) ws) = Inr ()"
    unfolding phase_b_iff using assms(2) by blast
  then show ?thesis
    using ws by (simp add: check_index_def)
qed

section \<open>Databases ordered by the registered comparators\<close>

lemma collect_keys_loop_valid:
  assumes "0 < cap" "length keys < cap"
  shows "collect_keys_loop cap index (map Inr xs) keys = Inr (keys @ take (cap - length keys) (map fst xs))"
  using assms(2)
proof (induction xs arbitrary: keys)
  case (Cons x xs)
  show ?case
  proof (cases "cap \<le> Suc (length keys)")
    case True
    then have "cap - length keys = 1"
      using Cons.prems by simp
    then show ?thesis
      using True by (cases x) simp
  next
    case False
    then have "cap - length keys = Suc (cap - Suc (length keys))"
      by simp
    then show ?thesis
      using False Cons.IH [of "keys @ [fst x]"] by (cases x) simp
  qed
qed simp

lemma registered_rank:
  assumes "int_cmp_ok int_cmp" "c \<noteq> DefaultComparator" "valid_key c a" "valid_key c b"
  shows "registered_compare int_cmp c a b =
    Some (if key_rank c a < key_rank c b then Less else if key_rank c a = key_rank c b then Equal else Greater)"
  using assms su.compare_rank uu.compare_rank suu.compare_rank
  by (cases c) (auto simp: registered_compare_def int_cmp_ok_def key_rank_def key_ts_def)

context lmdb_index
begin

lemma seek_existing:
  assumes "k \<in> fst ` set es"
  shows "seek_lands db k"
proof -
  have valid: "valid_key c k"
    using assms key_valid by auto
  let ?above = "filter (\<lambda>e. key_rank c k \<le> key_rank c (fst e)) es"
  obtain xs where xs: "db_range db DefaultMode (Included k) Unbounded = Inr xs" "take 1 xs = map Inr (take 1 ?above)"
    using seek_first [OF valid] by blast
  obtain f where f: "f \<in> set ?above" "fst f = k"
    using assms by fastforce
  obtain e rest where e: "?above = e # rest"
    using f(1) by (metis list.exhaust list.set(1) empty_iff)
  have "sorted_wrt (\<lambda>e f. key_rank c (fst e) \<le> key_rank c (fst f)) (e # rest)"
    using sorted_wrt_filter [OF keys_sorted, of "\<lambda>e. key_rank c k \<le> key_rank c (fst e)"] unfolding e .
  then have "key_rank c (fst e) \<le> key_rank c k"
    using f unfolding e by auto
  moreover have mem: "e \<in> set es" "key_rank c k \<le> key_rank c (fst e)"
    using list.set_intros(1) [of e rest] unfolding e [symmetric] by simp_all
  ultimately have key: "fst e = k"
    using rank_eq_iff [OF mem(1) valid] antisym by blast
  have "take 1 xs = [Inr e]"
    using xs(2) unfolding e by simp
  then obtain ys where "xs = Inr e # ys"
    by (cases xs) simp_all
  then have "xs = Inr (k, snd e) # ys"
    using key by (simp add: prod_eq_iff)
  then show ?thesis
    using xs(1) unfolding seek_lands_def by blast
qed

lemma sample_checks:
  assumes "int_cmp_ok int_cmp" "c \<noteq> DefaultComparator"
  shows "\<exists>keys report. collect_keys_bounded db SELF_CHECK_SAMPLE_CAP index = Inr keys \<and>
    check_index (registered_compare int_cmp c) db index keys = Some (Inr report)"
proof -
  obtain xs where xs: "db_iter db = Inr (map Inr xs)" "set xs \<subseteq> set es"
    "sorted_wrt (\<lambda>e f. key_rank c (fst e) \<le> key_rank c (fst f)) xs"
    using iter_sorted by blast
  let ?keys = "take SELF_CHECK_SAMPLE_CAP (map fst xs)"
  have collect: "collect_keys_bounded db SELF_CHECK_SAMPLE_CAP index = Inr ?keys"
    using xs(1) collect_keys_loop_valid [of SELF_CHECK_SAMPLE_CAP "[]" index xs]
    by (simp add: collect_keys_bounded_def SELF_CHECK_SAMPLE_CAP_def)
  have sub: "set ?keys \<subseteq> fst ` set es"
    using image_mono [OF xs(2), of fst] set_take_subset [of SELF_CHECK_SAMPLE_CAP "map fst xs"] by simp
  have sorted: "sorted_wrt (\<lambda>a b. key_rank c a \<le> key_rank c b) ?keys"
    using xs(3) by (intro sorted_wrt_take) (simp add: sorted_wrt_map)
  have "ascending_keys (registered_compare int_cmp c) ?keys"
    unfolding ascending_keys_def
  proof (intro allI impI)
    fix i
    assume i: "Suc i < length ?keys"
    then have "key_rank c (?keys ! i) \<le> key_rank c (?keys ! Suc i)"
      using sorted by (intro sorted_wrt_nth_less [where P = "\<lambda>a b. key_rank c a \<le> key_rank c b"]) auto
    moreover have "valid_key c (?keys ! i)" "valid_key c (?keys ! Suc i)"
      using i sub key_valid nth_mem [of i ?keys] nth_mem [of "Suc i" ?keys] by auto
    ultimately show "\<exists>ord. registered_compare int_cmp c (?keys ! i) (?keys ! Suc i) = Some ord \<and> ord \<noteq> Greater"
      using registered_rank [OF assms] by auto
  qed
  moreover have "\<forall>k\<in>set ?keys. seek_lands db k"
    using sub seek_existing by blast
  ultimately show ?thesis
    using collect check_index_complete by blast
qed

end

lemma check_index_by_name_registered:
  assumes "index_comparator name = Some c" "env_read_txn env = Inr ()"
  shows "check_index_by_name int_cmp env name =
    check_opened (registered_compare int_cmp c) (open_index env c name) name"
  using assms by (auto simp: check_index_by_name_def index_comparator_def registered_compare_def
      open_index_string_uint64_def open_index_uint64_uint64_def open_index_string_uint64_uint64_def
      open_index_created_at_def split: if_splits)

lemma check_all_iff:
  "check_all int_cmp env names = Some (Inr ()) \<longleftrightarrow>
   (\<forall>name\<in>set names. \<exists>report. check_index_by_name int_cmp env name = Some (Inr report))"
  by (induction names) (auto split: option.splits sum.splits)

lemma self_check_healthy:
  assumes "int_cmp_ok int_cmp"
    and "\<And>name. name \<in> set ALL_EVENT_INDEXES \<Longrightarrow> \<exists>c es. serves_index env name c es"
  shows "run_comparator_self_check int_cmp env = Some (Inr ())"
  unfolding run_comparator_self_check_def check_all_iff
proof
  fix name
  assume "name \<in> set ALL_EVENT_INDEXES"
  then obtain c es where srv: "serves_index env name c es"
    using assms(2) by blast
  then obtain db where db: "env_read_txn env = Inr ()" "index_comparator name = Some c"
    "open_index env c name = Inr db" "lmdb_index c db es"
    by (auto simp: serves_index_def open_index_def Let_def)
  have "c \<noteq> DefaultComparator"
    by (rule serves_index_golpe [OF srv])
  then obtain keys report where "collect_keys_bounded db SELF_CHECK_SAMPLE_CAP name = Inr keys"
    "check_index (registered_compare int_cmp c) db name keys = Some (Inr report)"
    using lmdb_index.sample_checks [OF db(4) assms(1)] by blast
  then show "\<exists>report. check_index_by_name int_cmp env name = Some (Inr report)"
    using db by (simp add: check_index_by_name_registered check_opened_def)
qed

lemma example_int_cmp_ok: "int_cmp_ok example_int_cmp"
  by (simp add: int_cmp_ok_def example_int_cmp_def)

lemma find_index_entry:
  assumes "name \<in> set names" "f name = c"
  shows "find (\<lambda>(n, c', es). full_db_name n = full_db_name name \<and> c' = c) (map (\<lambda>n. (n, f n, g n)) names) =
    Some (name, c, g name)"
  using assms by (induction names) (auto simp: full_db_name_def)

lemma example_six_served:
  assumes "name \<in> set ALL_EVENT_INDEXES"
  shows "\<exists>c es. serves_index example_six_env name c es"
proof -
  obtain c where c: "index_comparator name = Some c"
    using assms index_comparator_defined by auto
  then have "the (index_comparator name) = c"
    by simp
  note find_index_entry [of name ALL_EVENT_INDEXES "\<lambda>n. the (index_comparator n)" c
      "\<lambda>n. if n = ''Event__kind'' then example_kinds else []", OF assms this]
  from mem_env_serves [OF this c]
  show ?thesis
    unfolding example_six_env_def by blast
qed

section \<open>Properties\<close>

text \<open>
  C21: the self-check accepts every environment whose six indexes are ordered by the comparators the
  code registers: the gate never refuses a healthy database.
\<close>

theorem self_check_accepts:
  assumes "int_cmp_ok int_cmp"
    and "\<And>name. name \<in> set ALL_EVENT_INDEXES \<Longrightarrow> \<exists>c es. serves_index env name c es"
  shows "run_comparator_self_check int_cmp env = Some (Inr ())"
  using assms by (rule self_check_healthy)

theorem self_check_accepts_witness:
  "run_comparator_self_check example_int_cmp example_six_env = Some (Inr ())"
  using self_check_accepts [OF example_int_cmp_ok example_six_served] by simp

text \<open>
  C20: the self-check is fail-closed: when it accepts, every index was opened with its registered
  comparator, the sampled keys ascend under it, and both keys of every adjacent pair that plain
  \<^verbatim>\<open>memcmp\<close> would order the other way were found by a seek through LMDB.
\<close>

theorem self_check_fail_closed:
  assumes "run_comparator_self_check int_cmp env = Some (Inr ())"
    and "name \<in> set ALL_EVENT_INDEXES" "index_comparator name = Some c"
  shows "\<exists>db keys. open_index env c name = Inr db \<and>
    collect_keys_bounded db SELF_CHECK_SAMPLE_CAP name = Inr keys \<and>
    ascending_keys (registered_compare int_cmp c) keys \<and> witnesses_land db keys"
proof -
  obtain report where rep: "check_index_by_name int_cmp env name = Some (Inr report)"
    using assms(1,2) unfolding run_comparator_self_check_def check_all_iff by blast
  then have "env_read_txn env = Inr ()"
    by (cases "env_read_txn env") (simp_all add: check_index_by_name_def)
  then have "check_opened (registered_compare int_cmp c) (open_index env c name) name = Some (Inr report)"
    using rep check_index_by_name_registered [OF assms(3)] by simp
  then obtain db keys where "open_index env c name = Inr db"
    "collect_keys_bounded db SELF_CHECK_SAMPLE_CAP name = Inr keys"
    "check_index (registered_compare int_cmp c) db name keys = Some (Inr report)"
    by (auto simp: check_opened_def result_eqs split: sum.splits prod.splits)
  then show ?thesis
    using check_index_sound by blast
qed

theorem self_check_fail_closed_witness:
  "\<exists>db keys. open_index example_six_env Uint64Uint64Cmp ''Event__kind'' = Inr db \<and>
    collect_keys_bounded db SELF_CHECK_SAMPLE_CAP ''Event__kind'' = Inr keys \<and>
    ascending_keys Uint64Uint64Cmp_compare keys \<and> witnesses_land db keys"
  using self_check_fail_closed [OF self_check_healthy [OF example_int_cmp_ok example_six_served],
      of "''Event__kind''" Uint64Uint64Cmp]
  by (simp add: ALL_EVENT_INDEXES_def index_comparator_def registered_compare_def)

end
