(* ===== verification/Utf8.thy ===== *)
theory Utf8
  imports Prelude
begin

text \<open>
  \<^verbatim>\<open>String::from_utf8_lossy\<close> of the standard library, which \<^verbatim>\<open>graphql/types.rs\<close> applies to the stored JSON:
  well-formed sequences are kept, each maximal ill-formed chunk becomes U+FFFD.
\<close>

section \<open>Decoding\<close>

text \<open>
  \<^verbatim>\<open>String::from_utf8_lossy\<close>: the length of the well-formed sequence a byte string starts with, or of
  the ill-formed chunk that is replaced.
\<close>

definition in_range :: "u8 \<Rightarrow> u8 \<Rightarrow> u8 \<Rightarrow> bool" where
  "in_range lo hi b \<longleftrightarrow> lo \<le> b \<and> b \<le> hi"

definition byte_at :: "bytes \<Rightarrow> nat \<Rightarrow> u8" where
  "byte_at bs i = (if i < length bs then bs ! i else 0)"

definition second_ok :: "u8 \<Rightarrow> u8 \<Rightarrow> bool" where
  "second_ok b0 b1 \<longleftrightarrow>
     (if b0 = 0xE0 then in_range 0xA0 0xBF b1
      else if b0 = 0xED then in_range 0x80 0x9F b1
      else if b0 = 0xF0 then in_range 0x90 0xBF b1
      else if b0 = 0xF4 then in_range 0x80 0x8F b1
      else in_range 0x80 0xBF b1)"

definition utf8_width :: "u8 \<Rightarrow> nat" where
  "utf8_width b =
     (if b < 0x80 then 1 else if in_range 0xC2 0xDF b then 2 else if in_range 0xE0 0xEF b then 3
      else if in_range 0xF0 0xF4 b then 4 else 0)"

definition utf8_chunk :: "bytes \<Rightarrow> bool \<times> nat" where
  "utf8_chunk bs =
     (let w = utf8_width (byte_at bs 0)
      in if w = 1 then (True, 1)
         else if w = 0 \<or> \<not> second_ok (byte_at bs 0) (byte_at bs 1) then (False, 1)
         else if w = 2 then (True, 2)
         else if \<not> in_range 0x80 0xBF (byte_at bs 2) then (False, 2)
         else if w = 3 then (True, 3)
         else if \<not> in_range 0x80 0xBF (byte_at bs 3) then (False, 3)
         else (True, 4))"

lemma utf8_chunk_pos: "(ok, n) = utf8_chunk bs \<Longrightarrow> 0 < n"
  by (auto simp: utf8_chunk_def Let_def split: if_splits)

function from_utf8_lossy :: "bytes \<Rightarrow> bytes" where
  "from_utf8_lossy bs =
     (if bs = [] then []
      else let (ok, n) = utf8_chunk bs
           in (if ok then take n bs else [0xEF, 0xBF, 0xBD]) @ from_utf8_lossy (drop n bs))"
  by pat_completeness auto

termination
  by (relation "measure length") (auto dest: utf8_chunk_pos)

declare from_utf8_lossy.simps [simp del]

text \<open>Well-formed byte strings.\<close>

function utf8_valid :: "bytes \<Rightarrow> bool" where
  "utf8_valid bs = (if bs = [] then True else let (ok, n) = utf8_chunk bs in ok \<and> utf8_valid (drop n bs))"
  by pat_completeness auto

termination
  by (relation "measure length") (auto dest: utf8_chunk_pos)

declare utf8_valid.simps [simp del]

section \<open>Lemmas\<close>

lemma in_range_zero: "in_range lo hi 0 \<longleftrightarrow> lo = 0"
  by (auto simp: in_range_def)

lemma utf8_chunk_length:
  assumes "bs \<noteq> []" "utf8_chunk bs = (True, n)"
  shows "0 < n" "n \<le> length bs"
proof -
  have out: "byte_at bs i = 0" if "length bs \<le> i" for i
    using that by (simp add: byte_at_def)
  have len: "1 \<le> length bs"
    using assms(1) by (simp add: Suc_le_eq)
  show "0 < n"
    using assms(2) by (auto simp: utf8_chunk_def Let_def split: if_splits)
  have in_bounds: "i < length bs" if "in_range 0x80 0xBF (byte_at bs i)" for i
    using that out [of i] by (cases "i < length bs") (auto simp: in_range_zero)
  have "2 \<le> length bs" if "second_ok b (byte_at bs 1)" for b
    using that out [of 1] by (cases "2 \<le> length bs") (auto simp: second_ok_def in_range_zero split: if_splits)
  moreover have "3 \<le> length bs" if "in_range 0x80 0xBF (byte_at bs 2)"
    using in_bounds [OF that] by simp
  moreover have "4 \<le> length bs" if "in_range 0x80 0xBF (byte_at bs 3)"
    using in_bounds [OF that] by simp
  ultimately show "n \<le> length bs"
    using assms(2) len unfolding utf8_chunk_def Let_def by (simp split: if_splits)
qed

lemma utf8_chunk_append:
  assumes "bs \<noteq> []" "utf8_chunk bs = (True, n)"
  shows "utf8_chunk (take n bs @ cs) = (True, n)"
proof -
  have "n \<le> length bs"
    using utf8_chunk_length [OF assms] by simp
  then have "byte_at (take n bs @ cs) i = byte_at bs i" if "i < n" for i
    using that by (simp add: byte_at_def nth_append)
  then show ?thesis
    using assms(2) utf8_chunk_length(1) [OF assms] unfolding utf8_chunk_def Let_def
    by (auto split: if_splits)
qed

lemma utf8_chunk_replacement: "utf8_chunk (0xEF # 0xBF # 0xBD # cs) = (True, 3)"
  by (simp add: utf8_chunk_def byte_at_def utf8_width_def second_ok_def in_range_def)

lemma from_utf8_lossy_valid: "utf8_valid bs \<Longrightarrow> from_utf8_lossy bs = bs"
proof (induction bs rule: from_utf8_lossy.induct)
  case (1 bs)
  obtain ok n where chunk: "utf8_chunk bs = (ok, n)"
    by (cases "utf8_chunk bs")
  show ?case
  proof (cases "bs = []")
    case False
    then have "ok" "utf8_valid (drop n bs)"
      using 1(2) chunk utf8_valid.simps [of bs] by auto
    then show ?thesis
      using 1(1) [OF False refl chunk [symmetric]] False chunk from_utf8_lossy.simps [of bs] by simp
  qed (simp add: from_utf8_lossy.simps)
qed

lemma utf8_valid_lossy: "utf8_valid (from_utf8_lossy bs)"
proof (induction bs rule: from_utf8_lossy.induct)
  case (1 bs)
  obtain ok n where chunk: "utf8_chunk bs = (ok, n)"
    by (cases "utf8_chunk bs")
  show ?case
  proof (cases "bs = []")
    case False
    have IH: "utf8_valid (from_utf8_lossy (drop n bs))"
      by (rule 1 [OF False refl chunk [symmetric]])
    show ?thesis
    proof (cases ok)
      case True
      let ?out = "take n bs @ from_utf8_lossy (drop n bs)"
      have "utf8_chunk ?out = (True, n)" "drop n ?out = from_utf8_lossy (drop n bs)"
        using utf8_chunk_append [OF False] utf8_chunk_length [OF False] chunk True by simp_all
      then have "utf8_valid ?out"
        using IH by (subst utf8_valid.simps) simp
      then show ?thesis
        using False True chunk from_utf8_lossy.simps [of bs] by simp
    next
      case fail: False
      then have "from_utf8_lossy bs = 0xEF # 0xBF # 0xBD # from_utf8_lossy (drop n bs)"
        using False chunk from_utf8_lossy.simps [of bs] by simp
      moreover have "utf8_valid (0xEF # 0xBF # 0xBD # from_utf8_lossy (drop n bs))"
        using IH by (subst utf8_valid.simps) (simp add: utf8_chunk_replacement)
      ultimately show ?thesis
        by simp
    qed
  qed (simp add: from_utf8_lossy.simps utf8_valid.simps)
qed

end
