(* ===== verification/Resolvers.thy ===== *)
theory Resolvers
  imports Buckets Authors SelfCheck Utf8
begin

text \<open>
  \<^verbatim>\<open>graphql/types.rs\<close> and \<^verbatim>\<open>graphql/resolvers.rs\<close>: the GraphQL values, the conversion of arguments, the
  four resolvers and the translation of errors.  \<^verbatim>\<open>i64\<close> and \<^verbatim>\<open>i32\<close> are words read with \<^const>\<open>sint\<close>; the
  groups of \<^verbatim>\<open>latestPerAuthor\<close> come out of a \<^verbatim>\<open>HashMap\<close> and are a map, without an order.  The error
  of a panicking blocking task is not modelled: no modelled operation behind it panics.
\<close>


section \<open>GraphQL values\<close>

record Event =
  g_id :: string
  g_pubkey :: string
  g_kind :: i64
  g_created_at :: i64
  g_content :: string
  g_sig :: string
  g_tags :: "string list list"
  g_raw :: bytes

record EventsPage =
  ep_events :: "Event list"
  ep_end_cursor :: "string option"
  ep_has_more :: bool

record AuthorsPage =
  ap_authors :: "string list"
  ap_end_cursor :: "string option"
  ap_has_more :: bool

type_synonym AuthorGroups = "string \<rightharpoonup> Event list"

record StatsResult =
  st_event_count :: i64
  st_max_lev_id :: i64
  st_db_version :: i32
  st_pinned_strfry_version :: string

record TagFilterInput =
  ti_name :: string
  ti_values :: "string list"

record EventFilterInput =
  fi_ids :: "string list option"
  fi_authors :: "string list option"
  fi_kinds :: "i64 list option"
  fi_since :: "i64 option"
  fi_until :: "i64 option"
  fi_tag :: "TagFilterInput option"

definition EventFilterInput_default :: EventFilterInput where
  "EventFilterInput_default = \<lparr> fi_ids = None, fi_authors = None, fi_kinds = None, fi_since = None,
     fi_until = None, fi_tag = None \<rparr>"

text \<open>\<^verbatim>\<open>async_graphql::Error\<close>: the message and the extension code the code sets.\<close>

record gql_error =
  err_message :: string
  err_code :: "string option"

definition gql_plain :: "string \<Rightarrow> gql_error" where
  "gql_plain msg = \<lparr> err_message = msg, err_code = None \<rparr>"

section \<open>Converting results\<close>

definition decoded_event_to_gql :: "DecodedEvent \<Rightarrow> Event" where
  "decoded_event_to_gql d =
     (let e = dec_event d
      in \<lparr> g_id = ev_id e, g_pubkey = ev_pubkey e, g_kind = ev_kind e, g_created_at = ev_created_at e,
           g_content = ev_content e, g_sig = ev_sig e, g_tags = ev_tags e,
           g_raw = from_utf8_lossy (dec_raw_json d) \<rparr>)"

definition show_reason :: "cursor_reason \<Rightarrow> string" where
  "show_reason r = (case r of Base64Error msg \<Rightarrow> msg
     | ExpectedSixteenBytes n \<Rightarrow> ''expected 16 bytes, got '' @ show_nat n)"

definition map_query_error :: "query_error \<Rightarrow> gql_error" where
  "map_query_error e =
     (case e of
        CursorDecode reason \<Rightarrow> \<lparr> err_message = ''invalid cursor: '' @ show_reason reason, err_code = Some ''INVALID_CURSOR'' \<rparr>
      | Lmdb inner \<Rightarrow> gql_plain ''internal error''
      | Payload inner \<Rightarrow> gql_plain ''internal error'')"

definition hex_encode_lowercase :: "bytes \<Rightarrow> string" where
  "hex_encode_lowercase pk = string_of_bytes (hex_bytes pk)"

section \<open>Converting arguments\<close>

text \<open>\<^verbatim>\<open>(l.max(1) as usize).min(500)\<close>.\<close>

definition clamp_page :: "i32 \<Rightarrow> nat" where
  "clamp_page l = min (nat (max (sint l) 1)) 500"

definition effective_limit :: "i32 option \<Rightarrow> nat" where
  "effective_limit limit = (case limit of Some l \<Rightarrow> clamp_page l | None \<Rightarrow> 100)"

text \<open>\<^verbatim>\<open>u64::try_from(k)\<close> of an \<^verbatim>\<open>i64\<close>.\<close>

definition u64_try_from :: "i64 \<Rightarrow> u64 option" where
  "u64_try_from k = (if sint k < 0 then None else Some k)"

definition nonneg_ts :: "i64 option \<Rightarrow> string \<Rightarrow> (gql_error, u64 option) result" where
  "nonneg_ts v field =
     (case v of
        Some x \<Rightarrow> if sint x < 0 then Inl (gql_plain (field @ '' must be a non-negative Unix timestamp''))
                  else Inr (Some x)
      | None \<Rightarrow> Inr None)"

definition kind_error :: gql_error where
  "kind_error = gql_plain ''kind must be a non-negative integer''"

definition build_nostr_filter :: "EventFilterInput option \<Rightarrow> nat \<Rightarrow> (gql_error, NostrFilter) result" where
  "build_nostr_filter filter_input lim =
     (let f = (case filter_input of Some f \<Rightarrow> f | None \<Rightarrow> EventFilterInput_default)
      in bind_r (case fi_kinds f of
             Some ks \<Rightarrow> map_ok Some (collect_r (map (\<lambda>k. ok_or kind_error (u64_try_from k)) ks))
           | None \<Rightarrow> Inr None) (\<lambda>kinds.
         bind_r (nonneg_ts (fi_since f) ''since'') (\<lambda>since.
         bind_r (nonneg_ts (fi_until f) ''until'') (\<lambda>until.
           if (case (since, until) of (Some s, Some u) \<Rightarrow> u < s | _ \<Rightarrow> False)
           then Inl (gql_plain ''since must be <= until'')
           else Inr \<lparr> f_ids = fi_ids f, f_authors = fi_authors f, f_kinds = kinds,
                      f_tags = map_option (\<lambda>t. [\<lparr> tag_name = ti_name t, tag_values = ti_values t \<rparr>]) (fi_tag f),
                      f_since = since, f_until = until, f_limit = lim \<rparr>))))"

section \<open>The resolvers\<close>

definition decode_after :: "base64 \<Rightarrow> string option \<Rightarrow> (gql_error, PageCursor option) result" where
  "decode_after b64 after =
     (case after of
        Some s \<Rightarrow> map_ok Some (map_err map_query_error (PageCursor_decode b64 s))
      | None \<Rightarrow> Inr None)"

definition events ::
  "'dd codec \<Rightarrow> base64 \<Rightarrow> heed_env \<Rightarrow> u64 \<Rightarrow> EventFilterInput option \<Rightarrow> string option \<Rightarrow> i32 option \<Rightarrow> 'dd dict_cache
   \<Rightarrow> (gql_error, EventsPage) result \<times> 'dd dict_cache" where
  "events cd b64 env now filter_input after limit cache =
     (case decode_after b64 after of
        Inl e \<Rightarrow> (Inl e, cache)
      | Inr cursor \<Rightarrow>
          (case build_nostr_filter filter_input (effective_limit limit) of
             Inl e \<Rightarrow> (Inl e, cache)
           | Inr nostr_filter \<Rightarrow>
               (case execute_query cd env now nostr_filter cursor cache of
                  (Inl e, st) \<Rightarrow> (Inl (map_query_error e), snd st)
                | (Inr (decoded_events, nxt), st) \<Rightarrow>
                    (Inr \<lparr> ep_events = map decoded_event_to_gql decoded_events,
                           ep_end_cursor = map_option (PageCursor_encode b64) nxt,
                           ep_has_more = (nxt \<noteq> None) \<rparr>, snd st))))"

definition MAX_AUTHORS :: nat where "MAX_AUTHORS = 1000"

definition latest_per_author_resolver ::
  "'dd codec \<Rightarrow> heed_env \<Rightarrow> u64 \<Rightarrow> i64 \<Rightarrow> i32 \<Rightarrow> string list \<Rightarrow> 'dd dict_cache
   \<Rightarrow> ((gql_error, AuthorGroups) result \<times> 'dd dict_cache) option" where
  "latest_per_author_resolver cd env now kind per_author authors cache =
     (if MAX_AUTHORS < length authors
      then Some (Inl \<lparr> err_message = ''too many authors: max '' @ show_nat MAX_AUTHORS,
                       err_code = Some ''TOO_MANY_AUTHORS'' \<rparr>, cache)
      else case u64_try_from kind of
             None \<Rightarrow> Some (Inl kind_error, cache)
           | Some kind_u64 \<Rightarrow>
               map_option (\<lambda>(r, cache'). (map_ok (\<lambda>groups a. map_option (map decoded_event_to_gql) (groups a))
                   (map_err map_query_error r), cache'))
                 (latest_per_author cd env now kind_u64 (clamp_page per_author) authors cache))"

definition cursor_error :: "string \<Rightarrow> gql_error" where
  "cursor_error msg = \<lparr> err_message = msg, err_code = Some ''INVALID_CURSOR'' \<rparr>"

definition decode_author_cursor :: "string option \<Rightarrow> (gql_error, bytes option) result" where
  "decode_author_cursor after =
     (case after of
        None \<Rightarrow> Inr None
      | Some s \<Rightarrow>
          bind_r (map_err (\<lambda>_. cursor_error ''invalid cursor: malformed hex'') (decode_hex s)) (\<lambda>bytes.
            if length bytes = 32 then Inr (Some bytes)
            else Inl (cursor_error ''invalid cursor: expected 64-character hex pubkey'')))"

definition authors_resolver :: "heed_env \<Rightarrow> string option \<Rightarrow> i32 option \<Rightarrow> (gql_error, AuthorsPage) result" where
  "authors_resolver env after limit =
     bind_r (decode_author_cursor after) (\<lambda>after_bytes.
     bind_r (map_err map_query_error (distinct_authors env after_bytes (effective_limit limit))) (\<lambda>(pubkeys, nxt).
       Inr \<lparr> ap_authors = map hex_encode_lowercase pubkeys,
             ap_end_cursor = map_option hex_encode_lowercase nxt,
             ap_has_more = (nxt \<noteq> None) \<rparr>))"

text \<open>\<^verbatim>\<open>i64::try_from(x).unwrap_or(i64::MAX)\<close>.\<close>

definition i64_MAX :: i64 where "i64_MAX = 0x7FFFFFFFFFFFFFFF"

definition i64_saturate :: "u64 \<Rightarrow> i64" where
  "i64_saturate x = (if x \<le> i64_MAX then x else i64_MAX)"

definition read_stats :: "heed_env \<Rightarrow> u32 \<Rightarrow> string \<Rightarrow> (query_error, StatsResult) result" where
  "read_stats env dbv pinned =
     bind_r (map_err (Lmdb \<circ> Heed) (env_read_txn env)) (\<lambda>_.
     bind_r (bind_r (map_err (Lmdb \<circ> Heed) (env_open env IntegerComparator EVENT_PAYLOAD_DB_NAME))
               (ok_or (Lmdb (SubDbNotFound EVENT_PAYLOAD_DB_NAME)))) (\<lambda>db.
     bind_r (map_err (Lmdb \<circ> Heed) (db_len db)) (\<lambda>entries.
     bind_r (map_err (Lmdb \<circ> Heed) (db_last db)) (\<lambda>last.
     bind_r (case last of
               Some (k, _) \<Rightarrow> if length k = 8 then Inr (i64_saturate (u64_from_le k))
                              else Inl (Lmdb (MalformedKey EVENT_PAYLOAD_DB_NAME 8 (length k)))
             | None \<Rightarrow> Inr 0) (\<lambda>max_lev_id.
       Inr \<lparr> st_event_count = i64_saturate entries, st_max_lev_id = max_lev_id, st_db_version = dbv,
             st_pinned_strfry_version = pinned \<rparr>)))))"

definition stats :: "heed_env \<Rightarrow> MetaRecord \<Rightarrow> string \<Rightarrow> (gql_error, StatsResult) result" where
  "stats env meta pinned = map_err map_query_error (read_stats env (db_version meta) pinned)"

section \<open>What the arguments must satisfy\<close>

definition input_ok :: "EventFilterInput \<Rightarrow> bool" where
  "input_ok f \<longleftrightarrow>
     (case fi_kinds f of None \<Rightarrow> True | Some ks \<Rightarrow> \<forall>k\<in>set ks. 0 \<le> sint k) \<and>
     (case fi_since f of None \<Rightarrow> True | Some s \<Rightarrow> 0 \<le> sint s) \<and>
     (case fi_until f of None \<Rightarrow> True | Some u \<Rightarrow> 0 \<le> sint u) \<and>
     (case (fi_since f, fi_until f) of (Some s, Some u) \<Rightarrow> sint s \<le> sint u | _ \<Rightarrow> True)"

text \<open>The errors whose text stays on the server.\<close>

definition internal_error :: "query_error \<Rightarrow> bool" where
  "internal_error e \<longleftrightarrow> (case e of CursorDecode _ \<Rightarrow> False | _ \<Rightarrow> True)"

text \<open>An input for the records of \<^const>\<open>example_kinds\<close>.\<close>

definition example_input :: EventFilterInput where
  "example_input = EventFilterInput_default\<lparr> fi_kinds := Some [1, 256], fi_until := Some 100 \<rparr>"

section \<open>Arguments\<close>

lemma clamp_page_range: "1 \<le> clamp_page l" "clamp_page l \<le> 500"
  by (auto simp: clamp_page_def)

lemma effective_limit_range: "1 \<le> effective_limit l" "effective_limit l \<le> 500"
  using clamp_page_range [of "the l"] by (auto simp: effective_limit_def split: option.splits)

lemma sint_nonneg_unat: "0 \<le> sint (x :: i64) \<Longrightarrow> sint x = int (unat x)"
proof -
  assume "0 \<le> sint x"
  moreover have "sint x < 2 ^ 63"
    using signed_take_bit_int_less_exp [of 63 "uint x"] by (simp add: sint_uint)
  ultimately have "take_bit 64 (sint x) = sint x"
    by (simp add: take_bit_int_eq_self)
  then show "sint x = int (unat x)"
    using uint_sint [of x] by simp
qed

lemma sint_less_iff: "0 \<le> sint (a :: i64) \<Longrightarrow> 0 \<le> sint b \<Longrightarrow> a < b \<longleftrightarrow> sint a < sint b"
  using sint_nonneg_unat [of a] sint_nonneg_unat [of b] by (simp add: word_less_def)

lemma collect_kinds:
  "collect_r (map (\<lambda>k. ok_or kind_error (u64_try_from k)) ks) =
   (if \<forall>k\<in>set ks. 0 \<le> sint k then Inr ks else Inl kind_error)"
  by (induction ks) (auto simp: u64_try_from_def)

lemma nonneg_ts_eq:
  "nonneg_ts v field = (if (case v of None \<Rightarrow> True | Some x \<Rightarrow> 0 \<le> sint x) then Inr v
     else Inl (gql_plain (field @ '' must be a non-negative Unix timestamp'')))"
  by (auto simp: nonneg_ts_def split: option.splits)

lemma length_string_of_bytes [simp]: "length (string_of_bytes bs) = length bs"
  by (simp add: string_of_bytes_def)

lemma hex_encode_decode: "decode_hex (hex_encode_lowercase pk) = Inr pk"
proof -
  have "length (hex_bytes pk) = 2 * length pk"
    by (induction pk) (simp_all add: hex_bytes_def)
  then show ?thesis
    by (simp add: decode_hex_def hex_encode_lowercase_def decode_hex_loop_hex_bytes)
qed

lemma build_nostr_filter_eq:
  "build_nostr_filter (Some f) lim =
   (if input_ok f
    then Inr \<lparr> f_ids = fi_ids f, f_authors = fi_authors f, f_kinds = fi_kinds f,
               f_tags = map_option (\<lambda>t. [\<lparr> tag_name = ti_name t, tag_values = ti_values t \<rparr>]) (fi_tag f),
               f_since = fi_since f, f_until = fi_until f, f_limit = lim \<rparr>
    else Inl (if \<not> (case fi_kinds f of None \<Rightarrow> True | Some ks \<Rightarrow> \<forall>k\<in>set ks. 0 \<le> sint k) then kind_error
              else if \<not> (case fi_since f of None \<Rightarrow> True | Some s \<Rightarrow> 0 \<le> sint s)
              then gql_plain ''since must be a non-negative Unix timestamp''
              else if \<not> (case fi_until f of None \<Rightarrow> True | Some u \<Rightarrow> 0 \<le> sint u)
              then gql_plain ''until must be a non-negative Unix timestamp''
              else gql_plain ''since must be <= until''))"
proof -
  let ?K = "case fi_kinds f of None \<Rightarrow> True | Some ks \<Rightarrow> \<forall>k\<in>set ks. 0 \<le> sint k"
  let ?S = "case fi_since f of None \<Rightarrow> True | Some s \<Rightarrow> 0 \<le> sint s"
  let ?U = "case fi_until f of None \<Rightarrow> True | Some u \<Rightarrow> 0 \<le> sint u"
  have kinds: "(case fi_kinds f of
             Some ks \<Rightarrow> map_ok Some (collect_r (map (\<lambda>k. ok_or kind_error (u64_try_from k)) ks))
           | None \<Rightarrow> Inr None) = (if ?K then Inr (fi_kinds f) else Inl kind_error)"
    by (auto simp: collect_kinds split: option.splits)
  show ?thesis
    unfolding build_nostr_filter_def Let_def option.case kinds nonneg_ts_eq
    by (cases ?K; cases ?S; cases ?U)
      (simp_all add: input_ok_def, auto simp: sint_less_iff not_le split: option.splits)
qed

lemma build_nostr_filter_default: "build_nostr_filter None lim = build_nostr_filter (Some EventFilterInput_default) lim"
  by (simp add: build_nostr_filter_def)

section \<open>Results of the resolvers\<close>

lemma hydrate_internal: "fst (hydrate_lev_ids cd env ls st) = Inl e \<Longrightarrow> internal_error e"
  by (auto simp: hydrate_lev_ids_result internal_error_def split: sum.splits)

lemma hydrate_round_internal:
  "hydrate_round cd env now flt limit ps valid st = (Inl e, st') \<Longrightarrow> internal_error e"
  using hydrate_internal [of cd env "map snd ps" st]
  by (auto simp: hydrate_round_def split: if_splits prod.splits sum.splits)

lemma query_loop_internal:
  "query_loop n cd env now flt limit emit_limit batch_size rs st = (Inl e, st') \<Longrightarrow> internal_error e"
proof (induction n arbitrary: rs st)
  case (Suc n)
  let ?keys = "build_start_keys (round_filter flt (rs_boundary rs)) (select_index flt) Reverse"
  let ?merge = "merge_windowed env (index_short_name (select_index flt)) ?keys batch_size emit_limit
         (case f_since flt of None \<Rightarrow> 0 | Some t \<Rightarrow> t) (rs_boundary rs)"
  show ?case
  proof (cases ?merge)
    case (Inl err)
    then show ?thesis
      using Suc.prems by (auto simp: Let_def internal_error_def split: if_splits)
  next
    case (Inr batch)
    obtain r st2 where hyd: "hydrate_round cd env now flt limit (exclude_emitted (rs_boundary rs) batch) (rs_valid rs) st = (r, st2)"
      by (rule prod.exhaust)
    have IH: "internal_error e"
      if "query_loop n cd env now flt limit emit_limit batch_size rs2 st2 = (Inl e, st')" for rs2
      using that by (rule Suc.IH)
    show ?thesis
    proof (cases r)
      case err: (Inl err)
      then show ?thesis
        using Suc.prems Inr hyd hydrate_round_internal [of cd env now flt limit _ _ st err st2]
        by (auto simp: Let_def split: if_splits)
    next
      case (Inr valid)
      then show ?thesis
        using Suc.prems \<open>?merge = Inr batch\<close> hyd IH
        by (simp add: Let_def split: if_splits option.splits prod.splits)
    qed
  qed
qed simp

lemma execute_query_internal_error:
  "execute_query cd env now flt cursor cache = (Inl e, st) \<Longrightarrow> internal_error e"
  using query_loop_internal
  by (fastforce simp: execute_query_def execute_query_internal_def Let_def split: prod.splits sum.splits)

lemma build_nostr_filter_limit: "build_nostr_filter fi lim = Inr flt \<Longrightarrow> f_limit flt = lim"
  by (cases fi) (auto simp: build_nostr_filter_default build_nostr_filter_eq split: if_splits)

lemma build_nostr_filter_errors:
  "build_nostr_filter fi lim = Inl e \<Longrightarrow>
   e \<in> {kind_error, gql_plain ''since must be a non-negative Unix timestamp'',
        gql_plain ''until must be a non-negative Unix timestamp'', gql_plain ''since must be <= until''}"
  by (cases fi) (auto simp: build_nostr_filter_default build_nostr_filter_eq split: if_splits)

lemma page_limit_effective: "f_limit flt = effective_limit limit \<Longrightarrow> page_limit flt = effective_limit limit"
  using effective_limit_range(1) [of limit] by (simp add: page_limit_def)

lemma events_success:
  assumes "events cd b64 env now fi after limit cache = (Inr page, cache')"
  obtains cursor flt decoded nxt st where "decode_after b64 after = Inr cursor"
    "build_nostr_filter fi (effective_limit limit) = Inr flt"
    "execute_query cd env now flt cursor cache = (Inr (decoded, nxt), st)"
    "page = \<lparr> ep_events = map decoded_event_to_gql decoded, ep_end_cursor = map_option (PageCursor_encode b64) nxt,
       ep_has_more = (nxt \<noteq> None) \<rparr>" "cache' = snd st"
  using assms by (auto simp: events_def split: sum.splits prod.splits)

lemma sint_small: "uint (x :: i64) < 2 ^ 63 \<Longrightarrow> sint x = uint x"
proof -
  assume "uint x < 2 ^ 63"
  moreover have "- (2 ^ 63) \<le> uint x"
    by (rule order_trans [OF _ uint_ge_0]) simp
  ultimately have "signed_take_bit 63 (uint x) = uint x"
    by (intro signed_take_bit_int_eq_self) simp_all
  then show "sint x = uint x"
    by (simp add: sint_uint)
qed

lemma sint_i64_saturate: "sint (i64_saturate x) = min (int (unat x)) (2 ^ 63 - 1)"
proof -
  have "x \<le> i64_MAX \<longleftrightarrow> uint x < 2 ^ 63"
    by (simp add: i64_MAX_def word_le_def) presburger
  moreover have "sint i64_MAX = 2 ^ 63 - 1"
    using sint_small [of i64_MAX] by (simp add: i64_MAX_def)
  ultimately show ?thesis
    using sint_small [of x] by (auto simp: i64_saturate_def min_def)
qed

lemma decode_after_encoded:
  assumes "b64_inverse b64"
  shows "decode_after b64 (map_option (PageCursor_encode b64) cursor) = Inr cursor"
  using assms by (cases cursor) (simp_all add: decode_after_def PageCursor_decode_def PageCursor_encode_def b64_inverse_def)

lemma example_input_filter: "build_nostr_filter (Some example_input) (effective_limit (Some 1)) = Inr example_filter"
  by (simp add: build_nostr_filter_def example_input_def EventFilterInput_default_def u64_try_from_def nonneg_ts_def
      effective_limit_def clamp_page_def example_filter_def)

section \<open>Properties\<close>

text \<open>
  A page of \<^verbatim>\<open>events\<close> holds at most the clamped limit, which lies between 1 and 500 whatever the
  client asks for; every event on it passed the residual checks of the filter that was built; and
  \<^verbatim>\<open>hasMore\<close> says whether there is an \<^verbatim>\<open>endCursor\<close>.
\<close>

theorem events_bounded:
  assumes "events cd b64 env now fi after limit cache = (Inr page, cache')"
  shows "1 \<le> effective_limit limit \<and> effective_limit limit \<le> 500 \<and>
    length (ep_events page) \<le> effective_limit limit \<and> (ep_has_more page \<longleftrightarrow> ep_end_cursor page \<noteq> None) \<and>
    (\<exists>flt decoded. build_nostr_filter fi (effective_limit limit) = Inr flt \<and>
       ep_events page = map decoded_event_to_gql decoded \<and> (\<forall>d\<in>set decoded. residual_ok now flt (dec_event d)))"
proof -
  obtain cursor flt decoded nxt st where ok: "build_nostr_filter fi (effective_limit limit) = Inr flt"
    "execute_query cd env now flt cursor cache = (Inr (decoded, nxt), st)"
    "page = \<lparr> ep_events = map decoded_event_to_gql decoded, ep_end_cursor = map_option (PageCursor_encode b64) nxt,
       ep_has_more = (nxt \<noteq> None) \<rparr>"
    using assms by (rule events_success)
  have "page_limit flt = effective_limit limit"
    by (rule page_limit_effective [OF build_nostr_filter_limit [OF ok(1)]])
  then have "length decoded \<le> effective_limit limit" "\<forall>d\<in>set decoded. residual_ok now flt (dec_event d)"
    using execute_query_bounded [OF ok(2)] by simp_all
  then show ?thesis
    using ok(1,3) effective_limit_range [of limit] by auto
qed

text \<open>
  An error of \<^verbatim>\<open>events\<close> is either the rejection of the client's cursor, with code
  \<^verbatim>\<open>INVALID_CURSOR\<close>, or one of five fixed messages: nothing of the database reaches the client.
\<close>

theorem events_errors_opaque:
  assumes "events cd b64 env now fi after limit cache = (Inl e, cache')"
  shows "(\<exists>s reason. after = Some s \<and> PageCursor_decode b64 s = Inl (CursorDecode reason) \<and>
      e = \<lparr> err_message = ''invalid cursor: '' @ show_reason reason, err_code = Some ''INVALID_CURSOR'' \<rparr>) \<or>
    e \<in> {gql_plain ''internal error'', kind_error, gql_plain ''since must be a non-negative Unix timestamp'',
        gql_plain ''until must be a non-negative Unix timestamp'', gql_plain ''since must be <= until''}"
proof (cases "decode_after b64 after")
  case (Inl err)
  then obtain s qe where s: "after = Some s" "PageCursor_decode b64 s = Inl qe" "err = map_query_error qe"
    by (auto simp: decode_after_def result_eqs split: option.splits)
  then obtain reason where "qe = CursorDecode reason"
    by (auto simp: PageCursor_decode_def result_eqs split: if_splits)
  then show ?thesis
    using s Inl assms by (simp add: events_def map_query_error_def)
next
  case (Inr cursor)
  show ?thesis
  proof (cases "build_nostr_filter fi (effective_limit limit)")
    case (Inl err)
    then show ?thesis
      using assms Inr build_nostr_filter_errors [OF Inl] by (auto simp: events_def)
  next
    case flt: (Inr flt)
    then obtain qe st where qe: "execute_query cd env now flt cursor cache = (Inl qe, st)" "e = map_query_error qe"
      using assms Inr by (auto simp: events_def split: sum.splits prod.splits)
    then show ?thesis
      using execute_query_internal_error [OF qe(1)] by (cases qe) (auto simp: map_query_error_def internal_error_def)
  qed
qed

text \<open>
  The filter arguments are accepted exactly when no kind and no bound is negative and the bounds
  are in order, and then the engine's filter carries the same numbers, as unsigned words.
\<close>

theorem build_nostr_filter_spec:
  "case build_nostr_filter (Some f) lim of
     Inl e \<Rightarrow> \<not> input_ok f
   | Inr flt \<Rightarrow> input_ok f \<and> f_limit flt = lim \<and> f_ids flt = fi_ids f \<and> f_authors flt = fi_authors f \<and>
       map_option (map (\<lambda>k. int (unat k))) (f_kinds flt) = map_option (map sint) (fi_kinds f) \<and>
       map_option (\<lambda>t. int (unat t)) (f_since flt) = map_option sint (fi_since f) \<and>
       map_option (\<lambda>t. int (unat t)) (f_until flt) = map_option sint (fi_until f)"
proof (cases "input_ok f")
  case True
  have "map_option (map (\<lambda>k. int (unat k))) (fi_kinds f) = map_option (map sint) (fi_kinds f)"
    using True sint_nonneg_unat by (auto simp: input_ok_def split: option.splits)
  moreover have "map_option (\<lambda>t. int (unat t)) (fi_since f) = map_option sint (fi_since f)"
    using True sint_nonneg_unat by (auto simp: input_ok_def split: option.splits)
  moreover have "map_option (\<lambda>t. int (unat t)) (fi_until f) = map_option sint (fi_until f)"
    using True sint_nonneg_unat by (auto simp: input_ok_def split: option.splits)
  ultimately show ?thesis
    using True by (simp add: build_nostr_filter_eq)
qed (simp add: build_nostr_filter_eq)

text \<open>
  The statistics never report a negative count or levId: a value above the signed range
  saturates instead of wrapping, the largest levId is read from the last key of the payload table,
  and a last key that is not 8 bytes is an error.
\<close>

theorem read_stats_saturates:
  assumes "read_stats env dbv pinned = Inr s"
  shows "\<exists>db entries last. env_open env IntegerComparator EVENT_PAYLOAD_DB_NAME = Inr (Some db) \<and>
    db_len db = Inr entries \<and> db_last db = Inr last \<and>
    sint (st_event_count s) = min (int (unat entries)) (2 ^ 63 - 1) \<and>
    (case last of None \<Rightarrow> st_max_lev_id s = 0
     | Some (k, _) \<Rightarrow> length k = 8 \<and> sint (st_max_lev_id s) = min (int (le_nat k)) (2 ^ 63 - 1))"
proof -
  obtain db entries last mx where db: "env_open env IntegerComparator EVENT_PAYLOAD_DB_NAME = Inr (Some db)"
    "db_len db = Inr entries" "db_last db = Inr last"
    and mx: "(case last of
               Some (k, _) \<Rightarrow> if length k = 8 then Inr (i64_saturate (u64_from_le k))
                              else Inl (Lmdb (MalformedKey EVENT_PAYLOAD_DB_NAME 8 (length k)))
             | None \<Rightarrow> Inr 0) = Inr mx"
    and s: "s = \<lparr> st_event_count = i64_saturate entries, st_max_lev_id = mx, st_db_version = dbv,
             st_pinned_strfry_version = pinned \<rparr>"
    using assms by (auto simp: read_stats_def result_eqs)
  have "case last of None \<Rightarrow> st_max_lev_id s = 0
     | Some (k, _) \<Rightarrow> length k = 8 \<and> sint (st_max_lev_id s) = min (int (le_nat k)) (2 ^ 63 - 1)"
    using mx s by (auto simp: sint_i64_saturate unat_u64_from_le split: option.splits if_splits)
  moreover have "sint (st_event_count s) = min (int (unat entries)) (2 ^ 63 - 1)"
    using s by (simp add: sint_i64_saturate)
  ultimately show ?thesis
    using db by blast
qed

text \<open>
  The \<^verbatim>\<open>raw\<close> field of an event is always well-formed UTF-8, and it is byte for byte the stored JSON
  when that is well-formed.
\<close>

theorem raw_passthrough:
  "utf8_valid (g_raw (decoded_event_to_gql d)) \<and>
   (utf8_valid (dec_raw_json d) \<longrightarrow> g_raw (decoded_event_to_gql d) = dec_raw_json d)"
  by (simp add: decoded_event_to_gql_def Let_def utf8_valid_lossy from_utf8_lossy_valid)

theorem raw_passthrough_witness:
  "g_raw (decoded_event_to_gql \<lparr> dec_event = example_event 1, dec_raw_json = [0x7B, 0xC3, 0xA9, 0x7D] \<rparr>) = [0x7B, 0xC3, 0xA9, 0x7D]"
proof -
  have "utf8_valid [0x7B, 0xC3, 0xA9, 0x7D]"
    by (simp add: utf8_valid.simps utf8_chunk_def byte_at_def utf8_width_def in_range_def second_ok_def)
  then show ?thesis
    using raw_passthrough [of "\<lparr> dec_event = example_event 1, dec_raw_json = [0x7B, 0xC3, 0xA9, 0x7D] \<rparr>"] by simp
qed

theorem read_stats_saturates_witness:
  "\<exists>s. read_stats example_events_env 3 ''v'' = Inr s \<and> sint (st_event_count s) = 5"
proof -
  have "\<exists>s. read_stats example_events_env 3 ''v'' = Inr s"
    by (simp add: read_stats_def example_events_env_def with_store_def example_env_def mem_env_def mem_db_def
        example_payloads_def)
  then obtain s where s: "read_stats example_events_env 3 ''v'' = Inr s"
    by blast
  show ?thesis
    using read_stats_saturates [OF s] s
    by (auto simp: example_events_env_def with_store_def mem_db_def example_payloads_def)
qed


text \<open>A page of \<^verbatim>\<open>authors\<close>, over the keys themselves.\<close>

lemma author_length: "authors_served env es \<Longrightarrow> a \<in> set (authors_after es after) \<Longrightarrow> length a = 32"
  by (auto simp: authors_served_def authors_after_def author_list_def)

lemma authors_resolver_page:
  assumes "authors_served env es" "\<And>a. after = Some a \<Longrightarrow> length a = 32"
  obtains pks nxt where
    "authors_resolver env (map_option hex_encode_lowercase after) limit =
       Inr \<lparr> ap_authors = map hex_encode_lowercase pks, ap_end_cursor = map_option hex_encode_lowercase nxt,
             ap_has_more = (nxt \<noteq> None) \<rparr>"
    "length pks \<le> 500" "authors_after es after = pks @ (case nxt of None \<Rightarrow> [] | Some a \<Rightarrow> authors_after es (Some a))"
    "\<And>a. nxt = Some a \<Longrightarrow> pks \<noteq> [] \<and> length a = 32"
proof -
  have "0 < effective_limit limit"
    using effective_limit_range(1) [of limit] by simp
  then obtain pks nxt where q: "distinct_authors env after (effective_limit limit) = Inr (pks, nxt)"
    "length pks \<le> effective_limit limit"
    "authors_after es after = pks @ (case nxt of None \<Rightarrow> [] | Some a \<Rightarrow> authors_after es (Some a))"
    using distinct_authors_pages [OF assms] by blast
  have "decode_author_cursor (map_option hex_encode_lowercase after) = Inr after"
    using assms(2) by (cases after) (simp_all add: decode_author_cursor_def hex_encode_decode)
  then have "authors_resolver env (map_option hex_encode_lowercase after) limit =
      Inr \<lparr> ap_authors = map hex_encode_lowercase pks, ap_end_cursor = map_option hex_encode_lowercase nxt,
            ap_has_more = (nxt \<noteq> None) \<rparr>"
    using q(1) by (simp add: authors_resolver_def)
  moreover have "pks \<noteq> [] \<and> length a = 32" if "nxt = Some a" for a
  proof -
    have "pks \<noteq> [] \<and> a = last pks"
      using q(1) that by (auto simp: distinct_authors_def Let_def result_eqs split: option.splits if_splits)
    moreover from this have "a \<in> set (authors_after es after)"
      unfolding q(3) by simp
    ultimately show ?thesis
      using author_length [OF assms(1)] by blast
  qed
  ultimately show thesis
    using q(2,3) effective_limit_range(2) [of limit] by (intro that [of pks nxt]) auto
qed

text \<open>
  C16: the \<^verbatim>\<open>authors\<close> query end to end: called without a cursor or with an \<^verbatim>\<open>endCursor\<close> it returned, it
  lists the distinct pubkeys of the index in hex, ascending, each on exactly one page.
\<close>

theorem authors_pages:
  assumes "authors_served env es" "\<And>a. after = Some a \<Longrightarrow> length a = 32"
  shows "\<exists>page nxt. authors_resolver env (map_option hex_encode_lowercase after) limit = Inr page \<and>
    ap_end_cursor page = map_option hex_encode_lowercase nxt \<and> length (ap_authors page) \<le> 500 \<and>
    map hex_encode_lowercase (authors_after es after) =
      ap_authors page @ (case nxt of None \<Rightarrow> [] | Some a \<Rightarrow> map hex_encode_lowercase (authors_after es (Some a)))"
proof -
  obtain pks nxt where page: "authors_resolver env (map_option hex_encode_lowercase after) limit =
       Inr \<lparr> ap_authors = map hex_encode_lowercase pks, ap_end_cursor = map_option hex_encode_lowercase nxt,
             ap_has_more = (nxt \<noteq> None) \<rparr>"
    "length pks \<le> 500" "authors_after es after = pks @ (case nxt of None \<Rightarrow> [] | Some a \<Rightarrow> authors_after es (Some a))"
    using authors_resolver_page [OF assms] by metis
  then have "map hex_encode_lowercase (authors_after es after) = map hex_encode_lowercase pks @
      (case nxt of None \<Rightarrow> [] | Some a \<Rightarrow> map hex_encode_lowercase (authors_after es (Some a)))"
    by (simp split: option.splits)
  then show ?thesis
    using page(1,2) by fastforce
qed

theorem events_bounded_witness:
  "\<exists>page cache'. events example_codec plain_engine example_events_env 0 (Some example_input) None (Some 1) Map.empty = (Inr page, cache') \<and>
    length (ep_events page) \<le> effective_limit (Some 1)"
proof -
  obtain page cache' where "events example_codec plain_engine example_events_env 0 (Some example_input) None (Some 1) Map.empty = (Inr page, cache')"
    using execute_query_pages [OF example_served cache_coherent_empty, of example_codec 0 None] example_input_filter
    by (auto simp: events_def decode_after_def)
  then show ?thesis
    using events_bounded [of example_codec plain_engine example_events_env 0 "Some example_input" None "Some 1" Map.empty] by blast
qed


theorem authors_pages_witness:
  "\<exists>page nxt. authors_resolver example_pubkey_env None (Some 2) = Inr page \<and>
    ap_authors page @ (case nxt of None \<Rightarrow> [] | Some a \<Rightarrow> map hex_encode_lowercase
       (authors_after (mem_entries StringUint64Cmp example_pubkeys) (Some a))) =
    map hex_encode_lowercase [nat_le 32 256, nat_le 32 5, nat_le 32 255]"
  using authors_pages [OF example_authors_served, of None "Some 2"]
  by (simp add: authors_after_def example_author_list) metis

theorem events_errors_opaque_witness:
  "events example_codec plain_engine example_events_env 0 (Some (example_input\<lparr> fi_since := Some 101 \<rparr>)) None None Map.empty =
     (Inl (gql_plain ''since must be <= until''), Map.empty) \<and>
   gql_plain ''since must be <= until'' \<in> {gql_plain ''internal error'', kind_error, gql_plain ''since must be a non-negative Unix timestamp'',
        gql_plain ''until must be a non-negative Unix timestamp'', gql_plain ''since must be <= until''}"
proof -
  have "events example_codec plain_engine example_events_env 0 (Some (example_input\<lparr> fi_since := Some 101 \<rparr>)) None None Map.empty =
     (Inl (gql_plain ''since must be <= until''), Map.empty)"
    by (simp add: events_def decode_after_def build_nostr_filter_def example_input_def EventFilterInput_default_def
        u64_try_from_def nonneg_ts_def)
  then show ?thesis
    using events_errors_opaque [of example_codec plain_engine example_events_env 0
        "Some (example_input\<lparr> fi_since := Some 101 \<rparr>)" None None Map.empty] by simp
qed

end
