(* ===== verification/Server.thy ===== *)
theory Server
  imports Meta Resolvers
begin

text \<open>
  \<^verbatim>\<open>server.rs\<close>, \<^verbatim>\<open>graphql/schema.rs\<close> and \<^verbatim>\<open>main.rs\<close>: the readiness-gated HTTP surface and the startup gate
  chain.  The process is a step relation: the main task runs the statements of \<^verbatim>\<open>main\<close> one by one in
  source order, and between any two of them the server task may answer requests from the shared
  readiness flag and schema cell.  Loading the configuration, binding the socket and opening the
  environment are input and output: their results are the record \<open>world\<close>.  Body limit and CORS
  headers are layers of the HTTP library around these handlers.
\<close>

section \<open>Shared state\<close>

record Config =
  strfry_db_path :: string
  map_size :: nat
  pinned_strfry_version :: string
  pinned_strfry_commit :: string
  bind_address :: string

record 'dd AppState =
  as_env :: heed_env
  as_dict_cache :: "'dd dict_cache"
  as_meta :: MetaRecord
  as_pinned :: string

text \<open>
  \<^verbatim>\<open>AppRouterState\<close>: the atomic flag and the \<^verbatim>\<open>OnceCell\<close>; a schema is the state it was built with.
\<close>

record 'dd AppRouterState =
  rt_ready :: bool
  rt_schema :: "'dd AppState option"

definition OnceCell_set :: "'dd AppState \<Rightarrow> 'dd AppRouterState \<Rightarrow> 'dd AppRouterState" where
  "OnceCell_set schema s = (case rt_schema s of None \<Rightarrow> s\<lparr> rt_schema := Some schema \<rparr> | Some _ \<Rightarrow> s)"

section \<open>Handlers and routes\<close>

datatype request = PostGraphql string | GetGraphql | GetHealth | GetReady | OtherRequest

text \<open>A response: a status alone, the playground page, or the execution of a query by a schema.\<close>

datatype 'dd response = Status nat | Playground | Executed "'dd AppState" string | Unrouted

definition graphql_handler :: "'dd AppRouterState \<Rightarrow> string \<Rightarrow> 'dd response" where
  "graphql_handler s query = (case rt_schema s of None \<Rightarrow> Status 503 | Some schema \<Rightarrow> Executed schema query)"

definition health_handler :: "'dd response" where
  "health_handler = Status 200"

definition ready_handler :: "'dd AppRouterState \<Rightarrow> 'dd response" where
  "ready_handler s = (if rt_ready s then Status 200 else Status 503)"

definition build_router :: "'dd AppRouterState \<Rightarrow> request \<Rightarrow> 'dd response" where
  "build_router s req =
     (case req of
        PostGraphql query \<Rightarrow> graphql_handler s query
      | GetGraphql \<Rightarrow> Playground
      | GetHealth \<Rightarrow> health_handler
      | GetReady \<Rightarrow> ready_handler s
      | OtherRequest \<Rightarrow> Unrouted)"

section \<open>The startup chain\<close>

record world =
  w_config :: "(string, Config) result"
  w_bind :: "(string, unit) result"
  w_env :: "(heed_error, heed_env) result"

datatype startup_error =
  ConfigError string
| BindError string
| OpenError heed_error
| MetaFailed meta_error
| SelfCheckFailed self_check_error

text \<open>
  Where \<^verbatim>\<open>main\<close> stands, with its local variables.  \<open>Exited\<close> is the return of an error from \<^verbatim>\<open>main\<close>,
  \<open>Crashed\<close> a panic of the Meta parser or an abort of a comparator.
\<close>

datatype 'dd main_pc =
  LoadConfig
| BindListener Config
| OpenEnv Config
| ReadMeta Config heed_env
| AssertVersion Config heed_env MetaRecord
| AssertEndianness Config heed_env MetaRecord
| RunSelfCheck Config heed_env MetaRecord
| SetSchema "'dd AppState"
| StoreReady
| Serving
| Exited startup_error
| Crashed

record 'dd process =
  pr_pc :: "'dd main_pc"
  pr_serving :: bool
  pr_router :: "'dd AppRouterState"

definition initial :: "'dd process" where
  "initial = \<lparr> pr_pc = LoadConfig, pr_serving = False, pr_router = \<lparr> rt_ready = False, rt_schema = None \<rparr> \<rparr>"

definition stop :: "startup_error \<Rightarrow> 'dd process \<Rightarrow> 'dd process" where
  "stop e p = p\<lparr> pr_pc := Exited e, pr_serving := False \<rparr>"

definition goto :: "'dd main_pc \<Rightarrow> 'dd process \<Rightarrow> 'dd process" where
  "goto pc p = p\<lparr> pr_pc := pc \<rparr>"

text \<open>One statement of \<^verbatim>\<open>main\<close>; \<^const>\<open>None\<close> when it has nothing left to do.\<close>

definition main_step :: "compare \<Rightarrow> world \<Rightarrow> 'dd process \<Rightarrow> 'dd process option" where
  "main_step int_cmp w p =
     (case pr_pc p of
        LoadConfig \<Rightarrow> Some (case w_config w of Inl e \<Rightarrow> stop (ConfigError e) p | Inr cfg \<Rightarrow> goto (BindListener cfg) p)
      | BindListener cfg \<Rightarrow>
          Some (case w_bind w of Inl e \<Rightarrow> stop (BindError e) p | Inr _ \<Rightarrow> (goto (OpenEnv cfg) p)\<lparr> pr_serving := True \<rparr>)
      | OpenEnv cfg \<Rightarrow> Some (case w_env w of Inl e \<Rightarrow> stop (OpenError e) p | Inr env \<Rightarrow> goto (ReadMeta cfg env) p)
      | ReadMeta cfg env \<Rightarrow>
          Some (case read_meta env of
                  None \<Rightarrow> (goto Crashed p)\<lparr> pr_serving := False \<rparr>
                | Some (Inl e) \<Rightarrow> stop (MetaFailed e) p
                | Some (Inr meta) \<Rightarrow> goto (AssertVersion cfg env meta) p)
      | AssertVersion cfg env meta \<Rightarrow>
          Some (case assert_db_version meta of
                  Inl e \<Rightarrow> stop (MetaFailed e) p | Inr _ \<Rightarrow> goto (AssertEndianness cfg env meta) p)
      | AssertEndianness cfg env meta \<Rightarrow>
          Some (case assert_endianness meta of
                  Inl e \<Rightarrow> stop (MetaFailed e) p | Inr _ \<Rightarrow> goto (RunSelfCheck cfg env meta) p)
      | RunSelfCheck cfg env meta \<Rightarrow>
          Some (case run_comparator_self_check int_cmp env of
                  None \<Rightarrow> (goto Crashed p)\<lparr> pr_serving := False \<rparr>
                | Some (Inl e) \<Rightarrow> stop (SelfCheckFailed e) p
                | Some (Inr _) \<Rightarrow>
                    goto (SetSchema \<lparr> as_env = env, as_dict_cache = Map.empty, as_meta = meta,
                                      as_pinned = pinned_strfry_version cfg \<rparr>) p)
      | SetSchema app_state \<Rightarrow> Some ((goto StoreReady p)\<lparr> pr_router := OnceCell_set app_state (pr_router p) \<rparr>)
      | StoreReady \<Rightarrow> Some ((goto Serving p)\<lparr> pr_router := (pr_router p)\<lparr> rt_ready := True \<rparr> \<rparr>)
      | Serving \<Rightarrow> None
      | Exited e \<Rightarrow> None
      | Crashed \<Rightarrow> None)"

text \<open>
  The executions of the process: the main task and the server task interleave, and the log records
  the answered requests, latest first.
\<close>

inductive run :: "compare \<Rightarrow> world \<Rightarrow> 'dd process \<Rightarrow> (request \<times> 'dd response) list \<Rightarrow> bool"
  for int_cmp w where
  start: "run int_cmp w initial []"
| main: "run int_cmp w p log \<Longrightarrow> main_step int_cmp w p = Some p' \<Longrightarrow> run int_cmp w p' log"
| answer: "run int_cmp w p log \<Longrightarrow> pr_serving p \<Longrightarrow> run int_cmp w p ((req, build_router (pr_router p) req) # log)"

text \<open>The main task on its own, for at most \<open>n\<close> statements.\<close>

fun main_steps :: "compare \<Rightarrow> world \<Rightarrow> nat \<Rightarrow> 'dd process \<Rightarrow> 'dd process" where
  "main_steps int_cmp w 0 p = p"
| "main_steps int_cmp w (Suc n) p =
     (case main_step int_cmp w p of None \<Rightarrow> p | Some p' \<Rightarrow> main_steps int_cmp w n p')"

definition startup :: "compare \<Rightarrow> world \<Rightarrow> 'dd process" where
  "startup int_cmp w = main_steps int_cmp w 9 initial"

definition startup_ok :: "compare \<Rightarrow> world \<Rightarrow> bool" where
  "startup_ok int_cmp w \<longleftrightarrow>
     (\<exists>cfg env meta. w_config w = Inr cfg \<and> w_bind w = Inr () \<and> w_env w = Inr env \<and>
        read_meta env = Some (Inr meta) \<and> db_version meta = EXPECTED_DB_VERSION \<and>
        endianness meta = STRFRY_LITTLE_ENDIAN_MARKER \<and> run_comparator_self_check int_cmp env = Some (Inr ()))"

text \<open>A world whose database passes every gate.\<close>

definition example_meta :: MetaRecord where
  "example_meta = \<lparr> db_version = 3, endianness = 1, negentropy_mod_counter = 0 \<rparr>"

definition example_world :: world where
  "example_world = \<lparr> w_config = Inr \<lparr> strfry_db_path = ''/db'', map_size = 4096, pinned_strfry_version = ''v'',
       pinned_strfry_commit = ''c'', bind_address = ''127.0.0.1:8080'' \<rparr>,
     w_bind = Inr (), w_env = Inr (with_store META_DB_NAME [(u64_to_le 1, encode_meta example_meta)] example_six_env) \<rparr>"

section \<open>Invariants\<close>

text \<open>What the gates establish of an environment.\<close>

definition gates_passed :: "compare \<Rightarrow> world \<Rightarrow> 'dd AppState \<Rightarrow> bool" where
  "gates_passed int_cmp w a \<longleftrightarrow>
     w_env w = Inr (as_env a) \<and> read_meta (as_env a) = Some (Inr (as_meta a)) \<and>
     db_version (as_meta a) = EXPECTED_DB_VERSION \<and> endianness (as_meta a) = STRFRY_LITTLE_ENDIAN_MARKER \<and>
     run_comparator_self_check int_cmp (as_env a) = Some (Inr ())"

definition pc_inv :: "compare \<Rightarrow> world \<Rightarrow> 'dd main_pc \<Rightarrow> bool" where
  "pc_inv int_cmp w pc \<longleftrightarrow>
     (case pc of
        ReadMeta cfg env \<Rightarrow> w_env w = Inr env
      | AssertVersion cfg env meta \<Rightarrow> w_env w = Inr env \<and> read_meta env = Some (Inr meta)
      | AssertEndianness cfg env meta \<Rightarrow>
          w_env w = Inr env \<and> read_meta env = Some (Inr meta) \<and> db_version meta = EXPECTED_DB_VERSION
      | RunSelfCheck cfg env meta \<Rightarrow>
          w_env w = Inr env \<and> read_meta env = Some (Inr meta) \<and> db_version meta = EXPECTED_DB_VERSION \<and>
          endianness meta = STRFRY_LITTLE_ENDIAN_MARKER
      | SetSchema a \<Rightarrow> gates_passed int_cmp w a
      | _ \<Rightarrow> True)"

definition started :: "'dd main_pc \<Rightarrow> bool" where
  "started pc \<longleftrightarrow> (case pc of StoreReady \<Rightarrow> True | Serving \<Rightarrow> True | _ \<Rightarrow> False)"

definition boot_inv :: "world \<Rightarrow> 'dd main_pc \<Rightarrow> bool" where
  "boot_inv w pc \<longleftrightarrow>
     (case pc of
        LoadConfig \<Rightarrow> True
      | Exited e \<Rightarrow> True
      | Crashed \<Rightarrow> True
      | BindListener cfg \<Rightarrow> w_config w = Inr cfg
      | _ \<Rightarrow> (\<exists>cfg. w_config w = Inr cfg) \<and> w_bind w = Inr ())"

text \<open>The statements \<^verbatim>\<open>main\<close> has left.\<close>

fun statements_left :: "'dd main_pc \<Rightarrow> nat" where
  "statements_left LoadConfig = 9"
| "statements_left (BindListener cfg) = 8"
| "statements_left (OpenEnv cfg) = 7"
| "statements_left (ReadMeta cfg env) = 6"
| "statements_left (AssertVersion cfg env meta) = 5"
| "statements_left (AssertEndianness cfg env meta) = 4"
| "statements_left (RunSelfCheck cfg env meta) = 3"
| "statements_left (SetSchema a) = 2"
| "statements_left StoreReady = 1"
| "statements_left pc = 0"

definition process_inv :: "compare \<Rightarrow> world \<Rightarrow> 'dd process \<Rightarrow> bool" where
  "process_inv int_cmp w p \<longleftrightarrow>
     pc_inv int_cmp w (pr_pc p) \<and> boot_inv w (pr_pc p) \<and>
     (rt_schema (pr_router p) \<noteq> None \<longleftrightarrow> started (pr_pc p)) \<and>
     (rt_ready (pr_router p) \<longleftrightarrow> pr_pc p = Serving) \<and>
     (\<forall>a. rt_schema (pr_router p) = Some a \<longrightarrow> gates_passed int_cmp w a)"

lemmas main_step_simps = main_step_def stop_def goto_def OnceCell_set_def

lemma initial_inv: "process_inv int_cmp w initial"
  by (simp add: process_inv_def initial_def pc_inv_def boot_inv_def started_def)

lemma main_step_inv:
  "process_inv int_cmp w p \<Longrightarrow> main_step int_cmp w p = Some p' \<Longrightarrow> process_inv int_cmp w p'"
  by (cases "pr_pc p")
    (auto simp: process_inv_def main_step_simps pc_inv_def boot_inv_def started_def gates_passed_def assert_db_version_def
      assert_endianness_def split: sum.splits option.splits if_splits)

lemma run_inv: "run int_cmp w p log \<Longrightarrow> process_inv int_cmp w p"
  by (induction rule: run.induct) (auto intro: initial_inv main_step_inv)

text \<open>Once the flag is set the main task rests, so the flag and the schema stay.\<close>

lemma ready_final: "process_inv int_cmp w p \<Longrightarrow> rt_ready (pr_router p) \<Longrightarrow> main_step int_cmp w p = None"
  by (simp add: process_inv_def main_step_def)

lemma run_ready_log:
  assumes "run int_cmp w p log" "(GetReady, Status 200) \<in> set log"
  shows "rt_ready (pr_router p)"
  using assms
proof (induction rule: run.induct)
  case (main p log p')
  then show ?case
    using ready_final [OF run_inv [OF main(1)]] by simp
next
  case (answer p log req)
  then show ?case
    by (auto simp: build_router_def ready_handler_def health_handler_def graphql_handler_def
        split: request.splits option.splits if_splits)
qed simp

section \<open>Progress\<close>

lemma main_step_decreases:
  "main_step int_cmp w p = Some p' \<Longrightarrow> statements_left (pr_pc p') < statements_left (pr_pc p)"
  by (cases "pr_pc p") (auto simp: main_step_simps split: sum.splits option.splits)

lemma main_steps_ends:
  "statements_left (pr_pc p) \<le> n \<Longrightarrow> main_step int_cmp w (main_steps int_cmp w n p) = None"
proof (induction n arbitrary: p)
  case 0
  then show ?case
    using main_step_decreases [of int_cmp w p] by (cases "main_step int_cmp w p") auto
next
  case (Suc n)
  show ?case
  proof (cases "main_step int_cmp w p")
    case (Some p')
    then show ?thesis
      using Suc main_step_decreases [OF Some] by simp
  qed simp
qed

lemma startup_serves:
  "startup_ok int_cmp w \<Longrightarrow>
     pr_pc (startup int_cmp w :: 'dd process) = Serving \<and> pr_serving (startup int_cmp w :: 'dd process)"
  by (auto simp: startup_ok_def startup_def numeral_eq_Suc main_step_simps initial_def assert_db_version_def
      assert_endianness_def)

lemma serving_startup_ok: "process_inv int_cmp w p \<Longrightarrow> pr_pc p = Serving \<Longrightarrow> startup_ok int_cmp w"
  by (auto simp: process_inv_def boot_inv_def started_def startup_ok_def gates_passed_def)

lemma run_main_steps: "run int_cmp w p log \<Longrightarrow> run int_cmp w (main_steps int_cmp w n p) log"
  by (induction n arbitrary: p) (auto split: option.splits intro: run.main)

text \<open>The example world runs to readiness, answers \<^verbatim>\<open>/ready\<close> with 200 and then a query.\<close>

lemma startup_inv: "process_inv int_cmp w (startup int_cmp w :: 'dd process)"
  unfolding startup_def by (rule run_inv [OF run_main_steps [OF run.start]])

lemma startup_ends: "main_step int_cmp w (startup int_cmp w :: 'dd process) = None"
  unfolding startup_def by (rule main_steps_ends) (simp add: initial_def)

lemma example_startup_ok: "startup_ok example_int_cmp example_world"
proof -
  let ?env = "with_store META_DB_NAME [(u64_to_le 1, encode_meta example_meta)] example_six_env"
  have "read_meta ?env = Some (Inr example_meta)"
    using parse_encoded_meta [of example_meta]
    by (simp add: read_meta_def with_store_def example_six_env_def mem_env_def mem_db_def)
  moreover have "run_comparator_self_check example_int_cmp ?env = Some (Inr ())"
  proof (rule self_check_healthy [OF example_int_cmp_ok])
    fix name
    assume name: "name \<in> set ALL_EVENT_INDEXES"
    then have "full_db_name name \<noteq> META_DB_NAME"
      by (auto simp: full_db_name_def RASGUEADB_PREFIX_def META_DB_NAME_def ALL_EVENT_INDEXES_def)
    then show "\<exists>c es. serves_index ?env name c es"
      using example_six_served [OF name] with_store_serves by blast
  qed
  ultimately show ?thesis
    by (simp add: startup_ok_def example_world_def example_meta_def EXPECTED_DB_VERSION_def
        STRFRY_LITTLE_ENDIAN_MARKER_def)
qed

lemma example_run:
  "\<exists>p schema. run example_int_cmp example_world (p :: unit process)
     [(PostGraphql ''q'', Executed schema ''q''), (GetReady, Status 200)]"
proof -
  let ?p = "startup example_int_cmp example_world :: unit process"
  have p: "pr_serving ?p" "rt_ready (pr_router ?p)" "rt_schema (pr_router ?p) \<noteq> None"
    using startup_serves [where 'dd = unit, OF example_startup_ok]
      startup_inv [where 'dd = unit, of example_int_cmp example_world]
    by (simp_all add: process_inv_def started_def)
  then obtain schema where schema: "rt_schema (pr_router ?p) = Some schema"
    by blast
  have "run example_int_cmp example_world ?p []"
    unfolding startup_def by (rule run_main_steps [OF run.start])
  then have "run example_int_cmp example_world ?p [(GetReady, build_router (pr_router ?p) GetReady)]"
    using p(1) by (rule run.answer)
  then have "run example_int_cmp example_world ?p
      [(PostGraphql ''q'', build_router (pr_router ?p) (PostGraphql ''q'')), (GetReady, build_router (pr_router ?p) GetReady)]"
    using p(1) by (rule run.answer)
  then show ?thesis
    using p(2) schema by (auto simp: build_router_def ready_handler_def graphql_handler_def)
qed

section \<open>Properties\<close>

text \<open>
  C17: no interleaving of requests with startup reaches the data before the gates: a POST to the
  GraphQL endpoint is executed only by a schema whose environment was opened, whose Meta record
  has the pinned version and byte order, and whose indexes passed the comparator self-check.
\<close>

theorem graphql_gated:
  assumes "run int_cmp w p log" "(req, Executed schema query) \<in> set log"
  shows "req = PostGraphql query \<and> gates_passed int_cmp w schema"
  using assms
proof (induction rule: run.induct)
  case (answer p log req')
  have "gates_passed int_cmp w a" if "rt_schema (pr_router p) = Some a" for a
    using run_inv [OF answer(1)] that by (simp add: process_inv_def)
  then show ?case
    using answer by (auto simp: build_router_def graphql_handler_def ready_handler_def health_handler_def
        split: request.splits option.splits if_splits)
qed simp_all


text \<open>
  C19: startup always ends within nine statements, and it ends in serving with the flag and the schema
  set exactly when the configuration, the bind, the environment and every gate are good; otherwise
  the process exits or crashes without ever becoming ready.
\<close>

theorem startup_outcome:
  "main_step int_cmp w (startup int_cmp w :: 'dd process) = None \<and>
   (pr_pc (startup int_cmp w :: 'dd process) = Serving \<longleftrightarrow> startup_ok int_cmp w) \<and>
   (rt_ready (pr_router (startup int_cmp w :: 'dd process)) \<longleftrightarrow> startup_ok int_cmp w) \<and>
   (rt_schema (pr_router (startup int_cmp w :: 'dd process)) \<noteq> None \<longleftrightarrow> startup_ok int_cmp w)"
proof -
  define p :: "'dd process" where "p = startup int_cmp w"
  have inv: "process_inv int_cmp w p" and ends: "main_step int_cmp w p = None"
    unfolding p_def by (rule startup_inv startup_ends)+
  have "pr_pc p = Serving \<longleftrightarrow> startup_ok int_cmp w"
    using startup_serves [where 'dd = 'dd] serving_startup_ok [OF inv] unfolding p_def by blast
  moreover have "pr_pc p \<noteq> StoreReady"
    using ends by (auto simp: main_step_def)
  ultimately have "main_step int_cmp w p = None \<and> (pr_pc p = Serving \<longleftrightarrow> startup_ok int_cmp w) \<and>
      (rt_ready (pr_router p) \<longleftrightarrow> startup_ok int_cmp w) \<and> (rt_schema (pr_router p) \<noteq> None \<longleftrightarrow> startup_ok int_cmp w)"
    using inv ends by (auto simp: process_inv_def started_def split: main_pc.splits)
  then show ?thesis
    unfolding p_def .
qed

theorem graphql_gated_witness:
  "\<exists>(p :: unit process) log schema. run example_int_cmp example_world p log \<and>
     (PostGraphql ''q'', Executed schema ''q'') \<in> set log \<and> gates_passed example_int_cmp example_world schema"
proof -
  obtain p :: "unit process" and schema where "run example_int_cmp example_world p
      [(PostGraphql ''q'', Executed schema ''q''), (GetReady, Status 200)]"
    using example_run by blast
  then show ?thesis
    using graphql_gated [of example_int_cmp example_world p _ "PostGraphql ''q''" schema "''q''"] by fastforce
qed


end
