(* ===== verification/GraphqlClient.thy ===== *)
theory GraphqlClient
  imports Prelude
begin

text \<open>
  \<^verbatim>\<open>spamhunter/pubkey_iterator/src/graphql\<close>: the response envelope, the two-layer error dispatch of
  the client, and the bounded retry of \<^verbatim>\<open>enumerate.rs\<close> that every request goes through.  The HTTP
  round trip and the JSON decoder are parameters: what \<^verbatim>\<open>send\<close> returned, and the decoder of a body.
  Time is the number of requests sent so far, so an operation is a function of the clock.
\<close>

section \<open>Envelope\<close>

record Extensions =
  ext_code :: "string option"

record GraphQlError =
  ge_message :: string
  ge_extensions :: "Extensions option"

record 'a GraphQlResponse =
  resp_data :: "'a option"
  resp_errors :: "GraphQlError list option"

record ClientEvent =
  ce_id :: string
  ce_pubkey :: string
  ce_kind :: i64
  ce_created_at :: i64
  ce_content :: string
  ce_tags :: "string list list"

record AuthorGroup =
  ag_author :: string
  ag_events :: "ClientEvent list"

record ClientAuthorsPage =
  cp_authors :: "string list"
  cp_has_more :: bool
  cp_end_cursor :: "string option"

section \<open>Dispatch\<close>

datatype ClientError =
  Unavailable
| PayloadTooLarge
| Transport string
| Graphql "string option" string

definition query ::
  "(string, nat \<times> 'b) result \<Rightarrow> ('b \<Rightarrow> (string, 'a GraphQlResponse) result) \<Rightarrow> (ClientError, 'a) result" where
  "query sent json =
     bind_r (map_err Transport sent) (\<lambda>(status, body).
       if status = 503 then Inl Unavailable
       else if status = 413 then Inl PayloadTooLarge
       else bind_r (map_err Transport (json body)) (\<lambda>env.
         case resp_errors env of
           Some (first # _) \<Rightarrow>
             Inl (Graphql (Option.bind (ge_extensions first) ext_code) (ge_message first))
         | _ \<Rightarrow> ok_or (Graphql None ''response carried null data with no errors'') (resp_data env)))"

section \<open>Bounded retry\<close>

definition MAX_ATTEMPTS :: nat where "MAX_ATTEMPTS = 5"
definition BACKOFF_BASE :: nat where "BACKOFF_BASE = 250"
definition BACKOFF_CAP :: nat where "BACKOFF_CAP = 10000"

fun is_retryable :: "ClientError \<Rightarrow> bool" where
  "is_retryable Unavailable = True"
| "is_retryable (Transport e) = True"
| "is_retryable (Graphql None msg) = True"
| "is_retryable PayloadTooLarge = False"
| "is_retryable (Graphql (Some code) msg) = False"

text \<open>
  The loop of \<^verbatim>\<open>retry\<close>; the third argument is \<^verbatim>\<open>MAX_ATTEMPTS - attempt\<close>.  The result is that of the
  operation, the clock after it, and the sleeps in milliseconds.
\<close>

fun retry_loop ::
  "(nat \<Rightarrow> (ClientError, 'a) result) \<Rightarrow> nat \<Rightarrow> nat \<Rightarrow> nat \<Rightarrow> (ClientError, 'a) result \<times> nat \<times> nat list" where
  "retry_loop op t 0 delay = (op t, t + 1, [])"
| "retry_loop op t (Suc n) delay =
     (case op t of
        Inr v \<Rightarrow> (Inr v, t + 1, [])
      | Inl e \<Rightarrow>
          if is_retryable e
          then (case retry_loop op (t + 1) n (min (delay * 2) BACKOFF_CAP) of
                  (r, t', sleeps) \<Rightarrow> (r, t', delay # sleeps))
          else (Inl e, t + 1, []))"

definition retry ::
  "(nat \<Rightarrow> (ClientError, 'a) result) \<Rightarrow> nat \<Rightarrow> (ClientError, 'a) result \<times> nat \<times> nat list" where
  "retry op t = retry_loop op t (MAX_ATTEMPTS - 1) BACKOFF_BASE"

text \<open>A response that ends the retry: a success or an error that no retry would fix.\<close>

definition decisive :: "(ClientError, 'a) result \<Rightarrow> bool" where
  "decisive r = (case r of Inl e \<Rightarrow> \<not> is_retryable e | Inr _ \<Rightarrow> True)"

text \<open>The sleeps of \<open>n\<close> retries that start at \<open>delay\<close>.\<close>

fun backoff :: "nat \<Rightarrow> nat \<Rightarrow> nat list" where
  "backoff 0 delay = []"
| "backoff (Suc n) delay = delay # backoff n (min (delay * 2) BACKOFF_CAP)"

text \<open>A service that is down for three requests and then answers 7.\<close>

definition example_recovers :: "nat \<Rightarrow> (ClientError, nat) result" where
  "example_recovers t = (if t < 3 then Inl Unavailable else Inr 7)"

section \<open>Facts\<close>

lemma retry_loop_spec:
  "\<exists>k\<le>n. retry_loop op t n delay = (op (t + k), t + k + 1, backoff k delay) \<and>
     (\<forall>j<k. \<not> decisive (op (t + j))) \<and> (k < n \<longrightarrow> decisive (op (t + k)))"
proof (induction n arbitrary: t delay)
  case (Suc n)
  show ?case
  proof (cases "decisive (op t)")
    case True
    then show ?thesis
      by (intro exI [of _ 0]) (auto simp: decisive_def split: sum.splits)
  next
    case False
    then obtain e where e: "op t = Inl e" "is_retryable e"
      by (auto simp: decisive_def split: sum.splits)
    obtain k where k: "k \<le> n" "retry_loop op (t + 1) n (min (delay * 2) BACKOFF_CAP) =
        (op (t + 1 + k), t + 1 + k + 1, backoff k (min (delay * 2) BACKOFF_CAP))"
      "\<forall>j<k. \<not> decisive (op (t + 1 + j))" "k < n \<longrightarrow> decisive (op (t + 1 + k))"
      using Suc.IH by blast
    have "\<not> decisive (op (t + j))" if "j < Suc k" for j
      using k(3) False that by (cases j) simp_all
    then show ?thesis
      using k(1,2,4) e by (intro exI [of _ "Suc k"]) simp
  qed
qed simp

lemma retry_outcome:
  "\<exists>k<MAX_ATTEMPTS. retry op t = (op (t + k), t + k + 1, backoff k BACKOFF_BASE) \<and>
     (\<forall>j<k. \<not> decisive (op (t + j))) \<and> (k + 1 < MAX_ATTEMPTS \<longrightarrow> decisive (op (t + k)))"
  using retry_loop_spec [where op = op and t = t and n = "MAX_ATTEMPTS - 1" and delay = BACKOFF_BASE]
  unfolding retry_def by (auto simp: MAX_ATTEMPTS_def)

lemma retry_clock: "retry op t = (r, t', sleeps) \<Longrightarrow> t < t'"
  using retry_outcome [of op t] by auto

lemma retry_Inr: "retry op t = (Inr v, t', sleeps) \<Longrightarrow> \<exists>k. op k = Inr v"
  using retry_outcome [of op t] by fastforce

lemma retry_Inl: "retry op t = (Inl e, t', sleeps) \<Longrightarrow> \<exists>k. op k = Inl e"
  using retry_outcome [of op t] by fastforce

lemma retry_sure: "(\<And>k. \<exists>v. op k = Inr v) \<Longrightarrow> \<exists>v t' sleeps. retry op t = (Inr v, t', sleeps)"
  using retry_outcome [of op t] by metis

section \<open>Properties\<close>

text \<open>
  A response is trusted only when the transport delivered it with a status other than 503 and 413,
  it decoded, its error list is absent or empty, and its data is not null; in particular an error in
  the body of a 200 is never taken for a success.
\<close>

theorem query_ok_iff:
  "query sent json = Inr d \<longleftrightarrow>
     (\<exists>status body env. sent = Inr (status, body) \<and> status \<noteq> 503 \<and> status \<noteq> 413 \<and> json body = Inr env \<and>
        (resp_errors env = None \<or> resp_errors env = Some []) \<and> resp_data env = Some d)"
proof (cases sent)
  case (Inr r)
  obtain status body where r: "r = (status, body)"
    by (cases r)
  show ?thesis
  proof (cases "json body")
    case (Inr env)
    then show ?thesis
      using \<open>sent = Inr r\<close> r by (cases "resp_errors env"; cases "the (resp_errors env)")
        (auto simp: query_def ok_or_eq_Inr)
  qed (use \<open>sent = Inr r\<close> r in \<open>auto simp: query_def\<close>)
qed (simp add: query_def)

text \<open>
  C28: the retry sends at least one and at most five requests; it returns the first response that is a
  success or a non-retryable error, and the fifth one otherwise; between them it sleeps 250, 500, 1000
  and 2000 milliseconds.
\<close>

theorem retry_spec:
  "\<exists>k<5. retry op t = (op (t + k), t + k + 1, take k [250, 500, 1000, 2000]) \<and>
     (\<forall>j<k. \<not> decisive (op (t + j))) \<and> (k < 4 \<longrightarrow> decisive (op (t + k)))"
proof -
  have "backoff k BACKOFF_BASE = take k [250, 500, 1000, 2000]" if "k < 5" for k
    using that by (auto simp: less_Suc_eq numeral_eq_Suc BACKOFF_BASE_def BACKOFF_CAP_def)
  then show ?thesis
    using retry_outcome [of op t] by (auto simp: MAX_ATTEMPTS_def)
qed

theorem retry_spec_witness: "retry example_recovers 0 = (Inr 7, 4, [250, 500, 1000])"
proof -
  obtain k where k: "k < 5" "retry example_recovers 0 = (example_recovers k, k + 1, take k [250, 500, 1000, 2000])"
    "\<forall>j<k. \<not> decisive (example_recovers j)" "k < 4 \<longrightarrow> decisive (example_recovers k)"
    using retry_spec [of example_recovers 0] by auto
  have d: "decisive (example_recovers j) \<longleftrightarrow> 3 \<le> j" for j
    by (simp add: decisive_def example_recovers_def)
  have "\<not> 3 < k" "k < 4 \<longrightarrow> 3 \<le> k"
    using k(3,4) unfolding d by auto
  then have "k = 3"
    by arith
  then show ?thesis
    using k(2) by (simp add: example_recovers_def)
qed

end
