(* ===== verification/Fetch.thy ===== *)
theory Fetch
  imports GraphqlClient
begin

text \<open>
  \<^verbatim>\<open>spamhunter/pubkey_iterator/src/fetch.rs\<close>: the batched \<^verbatim>\<open>latestPerAuthor\<close> fetch that halves a batch
  the adapter refuses with 413, and the attribution of the answer to the requested authors.  The
  client call, with kind and count applied, is the parameter \<open>lpa\<close>, a function of the request clock.
\<close>

section \<open>Attribution\<close>

text \<open>The \<^verbatim>\<open>map\<close> over the requested list; each hit is removed from the table.\<close>

fun match_loop :: "string list \<Rightarrow> (string \<rightharpoonup> ClientEvent list) \<Rightarrow> (string \<times> ClientEvent list) list" where
  "match_loop [] by_author = []"
| "match_loop (pk # requested) by_author =
     (pk, case by_author pk of None \<Rightarrow> [] | Some events \<Rightarrow> events) # match_loop requested (by_author(pk := None))"

text \<open>Collecting into a \<^verbatim>\<open>HashMap\<close> keeps the last group of an author.\<close>

definition match_groups :: "string list \<Rightarrow> AuthorGroup list \<Rightarrow> (string \<times> ClientEvent list) list" where
  "match_groups requested groups =
     match_loop requested (map_of (rev (map (\<lambda>g. (ag_author g, ag_events g)) groups)))"

section \<open>The batched fetch\<close>

type_synonym latest_call = "nat \<Rightarrow> string list \<Rightarrow> (ClientError, AuthorGroup list) result"

function fetch_batch :: "latest_call \<Rightarrow> string list \<Rightarrow> nat \<Rightarrow> (ClientError, AuthorGroup list) result \<times> nat" where
  "fetch_batch lpa batch t =
     (case retry (\<lambda>t. lpa t batch) t of
        (Inr groups, t1, _) \<Rightarrow> (Inr groups, t1)
      | (Inl e, t1, _) \<Rightarrow>
          if e = PayloadTooLarge \<and> 1 < length batch
          then let mid = length batch div 2
               in case fetch_batch lpa (take mid batch) t1 of
                    (Inl e, t2) \<Rightarrow> (Inl e, t2)
                  | (Inr left, t2) \<Rightarrow>
                      (case fetch_batch lpa (drop mid batch) t2 of
                         (Inl e, t3) \<Rightarrow> (Inl e, t3)
                       | (Inr right, t3) \<Rightarrow> (Inr (left @ right), t3))
          else (Inl e, t1))"
  by pat_completeness auto

termination
  by (relation "measure (\<lambda>(lpa, batch, t). length batch)") auto

declare fetch_batch.simps [simp del]

section \<open>What the adapter promises\<close>

text \<open>
  An answer to a batch: at most one group per requested author, with that author's events, and no
  group only for an author without events.
\<close>

definition covers :: "(string \<Rightarrow> ClientEvent list) \<Rightarrow> string list \<Rightarrow> AuthorGroup list \<Rightarrow> bool" where
  "covers events_of batch groups \<longleftrightarrow>
     distinct (map ag_author groups) \<and>
     (\<forall>g\<in>set groups. ag_author g \<in> set batch \<and> ag_events g = events_of (ag_author g)) \<and>
     (\<forall>a\<in>set batch. a \<notin> ag_author ` set groups \<longrightarrow> events_of a = [])"

lemma covers_append:
  assumes "covers events_of xs gs" "covers events_of ys hs" "distinct (xs @ ys)"
  shows "covers events_of (xs @ ys) (gs @ hs)"
proof -
  have "ag_author ` set gs \<subseteq> set xs" "ag_author ` set hs \<subseteq> set ys"
    using assms(1,2) by (auto simp: covers_def)
  then have "distinct (map ag_author (gs @ hs))"
    using assms by (auto simp: covers_def)
  then show ?thesis
    using assms(1,2) by (auto simp: covers_def)
qed

lemma match_loop_restrict:
  "distinct requested \<Longrightarrow> match_loop requested m = map (\<lambda>a. (a, case m a of None \<Rightarrow> [] | Some events \<Rightarrow> events)) requested"
  by (induction requested arbitrary: m) (auto intro!: map_cong)

lemma match_groups_covers:
  assumes "covers events_of batch groups" "distinct batch"
  shows "match_groups batch groups = map (\<lambda>a. (a, events_of a)) batch"
proof -
  let ?pairs = "map (\<lambda>g. (ag_author g, ag_events g)) groups"
  have d: "distinct (map fst (rev ?pairs))"
    using assms(1) by (simp add: covers_def comp_def rev_map [symmetric])
  have "(case map_of (rev ?pairs) a of None \<Rightarrow> [] | Some events \<Rightarrow> events) = events_of a" if a: "a \<in> set batch" for a
  proof (cases "map_of (rev ?pairs) a")
    case None
    then have "a \<notin> ag_author ` set groups"
      by (simp add: map_of_eq_None_iff image_image)
    then show ?thesis
      using assms(1) a None by (simp add: covers_def)
  next
    case (Some events)
    then have "(a, events) \<in> set ?pairs"
      using map_of_SomeD by fastforce
    then show ?thesis
      using assms(1) Some by (auto simp: covers_def)
  qed
  then show ?thesis
    by (simp add: match_groups_def match_loop_restrict [OF assms(2)])
qed

locale adapter =
  fixes lpa :: latest_call and events_of :: "string \<Rightarrow> ClientEvent list"
  assumes honest: "lpa t batch = Inr groups \<Longrightarrow> distinct batch \<Longrightarrow> covers events_of batch groups"
begin

lemma fetch_covers:
  "fetch_batch lpa batch t = (Inr groups, t') \<Longrightarrow> distinct batch \<Longrightarrow> covers events_of batch groups"
proof (induction "length batch" arbitrary: batch t t' groups rule: less_induct)
  case less
  let ?mid = "length batch div 2"
  obtain r t1 sl where r: "retry (\<lambda>t. lpa t batch) t = (r, t1, sl)"
    by (cases "retry (\<lambda>t. lpa t batch) t")
  show ?case
  proof (cases r)
    case (Inr gs)
    then have "gs = groups"
      using less(2) r by (simp add: fetch_batch.simps [of lpa batch])
    then show ?thesis
      using retry_Inr [OF r [unfolded Inr]] less(3) honest by blast
  next
    case (Inl e)
    then have split: "1 < length batch"
      and "\<exists>t2 gl gr. fetch_batch lpa (take ?mid batch) t1 = (Inr gl, t2) \<and>
        fetch_batch lpa (drop ?mid batch) t2 = (Inr gr, t') \<and> groups = gl @ gr"
      using less(2) r by (auto simp: fetch_batch.simps [of lpa batch] Let_def split: if_splits prod.splits sum.splits)
    then obtain t2 gl gr where
      h: "fetch_batch lpa (take ?mid batch) t1 = (Inr gl, t2)" "fetch_batch lpa (drop ?mid batch) t2 = (Inr gr, t')"
        "groups = gl @ gr"
      by blast
    have "covers events_of (take ?mid batch) gl"
      using split less(3) by (intro less(1) [OF _ h(1)]) auto
    moreover have "covers events_of (drop ?mid batch) gr"
      using split less(3) by (intro less(1) [OF _ h(2)]) auto
    ultimately have "covers events_of (take ?mid batch @ drop ?mid batch) groups"
      unfolding h(3) using less(3) by (intro covers_append) (simp_all only: append_take_drop_id)
    then show ?thesis
      by simp
  qed
qed

end

text \<open>An adapter that answers every batch up to some size and refuses larger ones with 413.\<close>

locale sized_adapter = adapter +
  fixes cap :: nat
  assumes cap_pos: "1 \<le> cap"
    and small: "length batch \<le> cap \<Longrightarrow> \<exists>groups. lpa t batch = Inr groups"
    and large: "cap < length batch \<Longrightarrow> lpa t batch = Inl PayloadTooLarge"
begin

lemma retry_small:
  assumes "length batch \<le> cap"
  shows "\<exists>groups t' sl. retry (\<lambda>t. lpa t batch) t = (Inr groups, t', sl)"
  using small [OF assms] by (intro retry_sure) blast

lemma retry_large:
  assumes "cap < length batch"
  shows "\<exists>t' sl. retry (\<lambda>t. lpa t batch) t = (Inl PayloadTooLarge, t', sl)"
  using retry_outcome [of "\<lambda>t. lpa t batch" t] large [OF assms] by auto

lemma fetch_succeeds: "\<exists>groups t'. fetch_batch lpa batch t = (Inr groups, t')"
proof (induction "length batch" arbitrary: batch t rule: less_induct)
  case less
  show ?case
  proof (cases "length batch \<le> cap")
    case True
    then show ?thesis
      using retry_small [of batch t] by (auto simp: fetch_batch.simps [of lpa batch])
  next
    case False
    let ?mid = "length batch div 2"
    obtain t1 sl where r: "retry (\<lambda>t. lpa t batch) t = (Inl PayloadTooLarge, t1, sl)"
      using retry_large [of batch t] False by auto
    have split: "1 < length batch" "?mid < length batch" "length batch - ?mid < length batch"
      using False cap_pos by auto
    obtain gl t2 where l: "fetch_batch lpa (take ?mid batch) t1 = (Inr gl, t2)"
      using less [of "take ?mid batch" t1] split(2) by auto
    obtain gr t3 where "fetch_batch lpa (drop ?mid batch) t2 = (Inr gr, t3)"
      using less [of "drop ?mid batch" t2] split(3) by auto
    then show ?thesis
      using r l split by (simp add: fetch_batch.simps [of lpa batch])
  qed
qed

lemma fetch_matches:
  assumes "distinct batch"
  shows "\<exists>groups t'. fetch_batch lpa batch t = (Inr groups, t') \<and>
    match_groups batch groups = map (\<lambda>a. (a, events_of a)) batch"
  using fetch_succeeds [of batch t] fetch_covers match_groups_covers assms by blast

end

end
