(* ===== verification/LayerBase.thy ===== *)
theory LayerBase
  imports Complex_Main GraphqlClient
begin

text \<open>
  What the detection layers of \<^verbatim>\<open>spamhunter/pubkey_iterator/src/detect\<close> share: the trait \<^verbatim>\<open>Layer\<close> of
  \<^verbatim>\<open>detect/mod.rs\<close>, and what they compute with, the operations of \<^verbatim>\<open>f64\<close>, the Unicode-aware string functions
  of the standard library and of the crates \<^verbatim>\<open>unicode_segmentation\<close> and \<^verbatim>\<open>url\<close>, and the JSON values of
  \<^verbatim>\<open>serde_json\<close>.  The rounding of \<^verbatim>\<open>f64\<close> and the Unicode tables are not modelled: the operations are
  parameters of the definitions, and a theorem that needs a law of them names it.
\<close>

section \<open>Floating point\<close>

record 'f f64 =
  f_add :: "'f \<Rightarrow> 'f \<Rightarrow> 'f"
  f_sub :: "'f \<Rightarrow> 'f \<Rightarrow> 'f"
  f_mul :: "'f \<Rightarrow> 'f \<Rightarrow> 'f"
  f_div :: "'f \<Rightarrow> 'f \<Rightarrow> 'f"
  f_neg :: "'f \<Rightarrow> 'f"
  f_exp :: "'f \<Rightarrow> 'f"
  f_log2 :: "'f \<Rightarrow> 'f"
  f_max :: "'f \<Rightarrow> 'f \<Rightarrow> 'f"
  f_min :: "'f \<Rightarrow> 'f \<Rightarrow> 'f"
  f_clamp :: "'f \<Rightarrow> 'f \<Rightarrow> 'f \<Rightarrow> 'f"
  f_less :: "'f \<Rightarrow> 'f \<Rightarrow> bool"
  f_of_nat :: "nat \<Rightarrow> 'f"
  f_lit :: "rat \<Rightarrow> 'f"
  f_epsilon :: 'f

text \<open>\<^verbatim>\<open>Iterator::sum\<close> adds from the left.\<close>

definition f_sum :: "'f f64 \<Rightarrow> 'f list \<Rightarrow> 'f" where
  "f_sum F xs = fold (\<lambda>x acc. f_add F acc x) xs (f_lit F 0)"

section \<open>Text and JSON\<close>

record text_ops =
  tx_trim :: "string \<Rightarrow> string"
  tx_to_lowercase :: "string \<Rightarrow> string"
  tx_split_whitespace :: "string \<Rightarrow> string list"
  tx_unicode_words :: "string \<Rightarrow> string list"
  tx_graphemes :: "string \<Rightarrow> string list"
  tx_chars :: "string \<Rightarrow> nat list"
  tx_url_host :: "string \<Rightarrow> string option"

fun join :: "string \<Rightarrow> string list \<Rightarrow> string" where
  "join sep [] = []"
| "join sep [w] = w"
| "join sep (w # v # ws) = w @ sep @ join sep (v # ws)"

datatype 'f json =
  JBool bool
| JUsize nat
| JF64 'f
| JString string
| JObject "(string \<times> 'f json) list"

section \<open>Layers\<close>

record 'f LayerOutput =
  lo_value :: 'f
  lo_evidence :: "'f json"

text \<open>An implementor of \<^verbatim>\<open>Layer\<close>; \<^const>\<open>None\<close> is a call that does not return.\<close>

record 'f Layer =
  ly_name :: string
  ly_score :: "ClientEvent list \<Rightarrow> bool \<Rightarrow> 'f LayerOutput option"

section \<open>An arithmetic to compute with\<close>

text \<open>
  Exact rationals with a not-a-number, and a rational stand-in for the exponential that is positive,
  monotone and 1 at 0.
\<close>

definition nan_op :: "(rat \<Rightarrow> rat \<Rightarrow> rat option) \<Rightarrow> rat option \<Rightarrow> rat option \<Rightarrow> rat option" where
  "nan_op f a b = (case (a, b) of (Some x, Some y) \<Rightarrow> f x y | _ \<Rightarrow> None)"

definition nan_pick :: "(rat \<Rightarrow> rat \<Rightarrow> rat) \<Rightarrow> rat option \<Rightarrow> rat option \<Rightarrow> rat option" where
  "nan_pick f a b = (case a of None \<Rightarrow> b | Some x \<Rightarrow> (case b of None \<Rightarrow> a | Some y \<Rightarrow> Some (f x y)))"

definition example_exp :: "rat \<Rightarrow> rat" where
  "example_exp x = (if x \<le> 0 then 1 / (1 - x) else 1 + x)"

definition example_f64 :: "rat option f64" where
  "example_f64 = \<lparr> f_add = nan_op (\<lambda>x y. Some (x + y)), f_sub = nan_op (\<lambda>x y. Some (x - y)),
     f_mul = nan_op (\<lambda>x y. Some (x * y)), f_div = nan_op (\<lambda>x y. if y = 0 then None else Some (x / y)),
     f_neg = map_option uminus, f_exp = map_option example_exp, f_log2 = map_option (\<lambda>x. x - 1),
     f_max = nan_pick max, f_min = nan_pick min,
     f_clamp = (\<lambda>x lo hi. nan_op (\<lambda>a b. Some (max a b)) lo (nan_op (\<lambda>a b. Some (min a b)) x hi)),
     f_less = (\<lambda>a b. case (a, b) of (Some x, Some y) \<Rightarrow> x < y | _ \<Rightarrow> False),
     f_of_nat = (\<lambda>n. Some (of_nat n)), f_lit = Some, f_epsilon = Some (1 / 2 ^ 52) \<rparr>"

text \<open>Text that is one lower-case word per event, without links.\<close>

definition example_text :: text_ops where
  "example_text = \<lparr> tx_trim = id, tx_to_lowercase = id, tx_split_whitespace = (\<lambda>s. [s]),
     tx_unicode_words = (\<lambda>s. [s]), tx_graphemes = (\<lambda>s. map (\<lambda>c. [c]) s), tx_chars = map of_char,
     tx_url_host = (\<lambda>s. None) \<rparr>"

definition example_event :: "string \<Rightarrow> ClientEvent" where
  "example_event content = \<lparr> ce_id = ''id'', ce_pubkey = ''pk'', ce_kind = 1, ce_created_at = 0, ce_content = content, ce_tags = [] \<rparr>"

end
