(* ===== verification/Whitelist.thy ===== *)
theory Whitelist
  imports LayerBase
begin

text \<open>
  \<^verbatim>\<open>spamhunter/pubkey_iterator/src/detect/whitelist.rs\<close>: the membership resolver with its cache, which lives
  as long as the run, and the layer over the resolved membership.  The HTTP round trips and the JSON
  decoders are parameters: what \<^verbatim>\<open>send\<close> returned, a status and a body, and the decoder of the body.
\<close>

section \<open>Resolving\<close>

type_synonym wl_cache = "string \<rightharpoonup> bool"

definition is_success :: "nat \<Rightarrow> bool" where
  "is_success status \<longleftrightarrow> 200 \<le> status \<and> status < 300"

text \<open>The body of a successful response, if it decodes.\<close>

definition decoded :: "('b \<Rightarrow> (string, 'a) result) \<Rightarrow> (string, nat \<times> 'b) result \<Rightarrow> 'a option" where
  "decoded json sent =
     (case sent of
        Inl _ \<Rightarrow> None
      | Inr (status, body) \<Rightarrow>
          if is_success status then (case json body of Inl _ \<Rightarrow> None | Inr a \<Rightarrow> Some a) else None)"

definition is_whitelisted ::
  "('b \<Rightarrow> (string, bool) result) \<Rightarrow> (string, nat \<times> 'b) result \<Rightarrow> string \<Rightarrow> wl_cache \<Rightarrow> bool \<times> wl_cache" where
  "is_whitelisted json sent pubkey cache =
     (case cache pubkey of
        Some hit \<Rightarrow> (hit, cache)
      | None \<Rightarrow>
          (case decoded json sent of
             Some value \<Rightarrow> (value, cache(pubkey \<mapsto> value))
           | None \<Rightarrow> (True, cache)))"

text \<open>The loop that serves the hits and collects the misses.\<close>

fun split_hits :: "wl_cache \<Rightarrow> string list \<Rightarrow> (string \<rightharpoonup> bool) \<Rightarrow> string list \<Rightarrow> (string \<rightharpoonup> bool) \<times> string list" where
  "split_hits cache [] out misses = (out, misses)"
| "split_hits cache (pk # pubkeys) out misses =
     (case cache pk of
        Some hit \<Rightarrow> split_hits cache pubkeys (out(pk \<mapsto> hit)) misses
      | None \<Rightarrow> split_hits cache pubkeys out (misses @ [pk]))"

fun resolve_misses ::
  "(string \<rightharpoonup> bool) \<Rightarrow> string list \<Rightarrow> (string \<rightharpoonup> bool) \<times> wl_cache \<Rightarrow> (string \<rightharpoonup> bool) \<times> wl_cache" where
  "resolve_misses results [] (out, cache) = (out, cache)"
| "resolve_misses results (pk # misses) (out, cache) =
     resolve_misses results misses
       (case results pk of
          Some value \<Rightarrow> (out(pk \<mapsto> value), cache(pk \<mapsto> value))
        | None \<Rightarrow> (out(pk \<mapsto> True), cache))"

text \<open>\<open>post\<close> is the answer to the request for the misses.\<close>

definition is_whitelisted_bulk ::
  "('b \<Rightarrow> (string, string \<rightharpoonup> bool) result) \<Rightarrow> (string list \<Rightarrow> (string, nat \<times> 'b) result) \<Rightarrow> string list \<Rightarrow>
   wl_cache \<Rightarrow> (string \<rightharpoonup> bool) \<times> wl_cache" where
  "is_whitelisted_bulk json post pubkeys cache =
     (case split_hits cache pubkeys Map.empty [] of
        (out, misses) \<Rightarrow>
          if misses = [] then (out, cache)
          else (case decoded json (post misses) of
                  Some results \<Rightarrow> resolve_misses results misses (out, cache)
                | None \<Rightarrow> (fold (\<lambda>pk out. out(pk \<mapsto> True)) misses out, cache)))"

section \<open>The layer\<close>

definition whitelist_absence_layer :: "'f f64 \<Rightarrow> 'f \<Rightarrow> 'f Layer" where
  "whitelist_absence_layer F absence_subscore =
     \<lparr> ly_name = ''L0_whitelist_absence'',
       ly_score = (\<lambda>events whitelisted.
         Some \<lparr> lo_value = (if whitelisted then f_lit F 0 else absence_subscore),
                lo_evidence = JObject [(''whitelisted'', JBool whitelisted)] \<rparr>) \<rparr>"

section \<open>What a call returns\<close>

lemma split_hits_spec:
  "split_hits cache pubkeys out misses =
     (\<lambda>pk. if pk \<in> set pubkeys \<and> cache pk \<noteq> None then cache pk else out pk,
      misses @ filter (\<lambda>pk. cache pk = None) pubkeys)"
  by (induction pubkeys arbitrary: out misses) (auto simp: fun_eq_iff split: option.splits)

lemma resolve_misses_spec:
  "resolve_misses results misses (out, cache) =
     (\<lambda>pk. if pk \<in> set misses then Some (case results pk of Some v \<Rightarrow> v | None \<Rightarrow> True) else out pk,
      \<lambda>pk. if pk \<in> set misses \<and> results pk \<noteq> None then results pk else cache pk)"
  by (induction misses arbitrary: out cache) (auto simp: fun_eq_iff split: option.splits)

lemma fold_failsafe: "fold (\<lambda>pk out. out(pk \<mapsto> True)) misses out = (\<lambda>pk. if pk \<in> set misses then Some True else out pk)"
  by (induction misses arbitrary: out) (auto simp: fun_eq_iff)

section \<open>Calls of a run\<close>

datatype 'b wl_call =
  Single string "(string, nat \<times> 'b) result"
| Bulk "string list" "string list \<Rightarrow> (string, nat \<times> 'b) result"

fun requested :: "'b wl_call \<Rightarrow> string set" where
  "requested (Single pk sent) = {pk}"
| "requested (Bulk pubkeys post) = set pubkeys"

text \<open>What the service says in a call about the keys that the cache does not hold; nothing when the call fails.\<close>

fun says ::
  "('b \<Rightarrow> (string, bool) result) \<Rightarrow> ('b \<Rightarrow> (string, string \<rightharpoonup> bool) result) \<Rightarrow> 'b wl_call \<Rightarrow> wl_cache \<Rightarrow> string \<rightharpoonup> bool" where
  "says json1 json2 (Single pk sent) cache =
     (case decoded json1 sent of None \<Rightarrow> Map.empty | Some v \<Rightarrow> [pk \<mapsto> v]) |` (- dom cache)"
| "says json1 json2 (Bulk pubkeys post) cache =
     (case decoded json2 (post (filter (\<lambda>pk. cache pk = None) pubkeys)) of None \<Rightarrow> Map.empty | Some results \<Rightarrow> results)
       |` (set pubkeys - dom cache)"

fun perform ::
  "('b \<Rightarrow> (string, bool) result) \<Rightarrow> ('b \<Rightarrow> (string, string \<rightharpoonup> bool) result) \<Rightarrow> 'b wl_call \<Rightarrow> wl_cache \<Rightarrow>
   (string \<rightharpoonup> bool) \<times> wl_cache" where
  "perform json1 json2 (Single pk sent) cache =
     (case is_whitelisted json1 sent pk cache of (v, cache) \<Rightarrow> ([pk \<mapsto> v], cache))"
| "perform json1 json2 (Bulk pubkeys post) cache = is_whitelisted_bulk json2 post pubkeys cache"

text \<open>The answers of a sequence of calls, each with what the service said in it.\<close>

fun trace ::
  "('b \<Rightarrow> (string, bool) result) \<Rightarrow> ('b \<Rightarrow> (string, string \<rightharpoonup> bool) result) \<Rightarrow> 'b wl_call list \<Rightarrow> wl_cache \<Rightarrow>
   ((string \<rightharpoonup> bool) \<times> (string \<rightharpoonup> bool)) list" where
  "trace json1 json2 [] cache = []"
| "trace json1 json2 (c # cs) cache =
     (case perform json1 json2 c cache of
        (out, cache') \<Rightarrow> (out, says json1 json2 c cache) # trace json1 json2 cs cache')"

lemma perform_eq:
  "perform json1 json2 c cache =
     (\<lambda>pk. if pk \<in> requested c then Some (case (cache ++ says json1 json2 c cache) pk of Some v \<Rightarrow> v | None \<Rightarrow> True) else None,
      cache ++ says json1 json2 c cache)"
proof (cases c)
  case (Single pk sent)
  then show ?thesis
    by (auto simp: is_whitelisted_def fun_eq_iff map_add_def restrict_map_def split: option.splits)
next
  case (Bulk pubkeys post)
  then show ?thesis
    by (auto simp: is_whitelisted_bulk_def split_hits_spec resolve_misses_spec fold_failsafe fun_eq_iff
        filter_empty_conv map_add_def restrict_map_def split: option.splits if_splits)
qed

lemma says_new: "says json1 json2 c cache pk = Some v \<Longrightarrow> cache pk = None"
  by (cases c) (auto simp: restrict_map_def split: if_splits)

lemma length_trace [simp]: "length (trace json1 json2 cs cache) = length cs"
  by (induction cs arbitrary: cache) (simp_all add: perform_eq)

lemma trace_answers:
  assumes "k < length cs" "pk \<in> requested (cs ! k)"
  shows "\<exists>v. fst (trace json1 json2 cs cache ! k) pk = Some v \<and>
    (\<not> v \<longrightarrow> cache pk = Some False \<or> (\<exists>j\<le>k. snd (trace json1 json2 cs cache ! j) pk = Some False)) \<and>
    (\<forall>u. cache pk = Some u \<longrightarrow> v = u) \<and>
    (\<forall>j\<le>k. \<forall>u. snd (trace json1 json2 cs cache ! j) pk = Some u \<longrightarrow> v = u)"
  using assms
proof (induction cs arbitrary: k cache)
  case (Cons c cs)
  let ?says = "says json1 json2 c cache"
  let ?c' = "cache ++ ?says"
  have tr: "trace json1 json2 (c # cs) cache = (fst (perform json1 json2 c cache), ?says) # trace json1 json2 cs ?c'"
    by (simp add: perform_eq)
  show ?case
  proof (cases k)
    case 0
    then show ?thesis
      using Cons.prems says_new [of json1 json2 c cache pk]
      by (auto simp: perform_eq map_add_def split: option.splits)
  next
    case (Suc k')
    obtain v where v: "fst (trace json1 json2 cs ?c' ! k') pk = Some v"
      "\<not> v \<longrightarrow> ?c' pk = Some False \<or> (\<exists>j\<le>k'. snd (trace json1 json2 cs ?c' ! j) pk = Some False)"
      "\<forall>u. ?c' pk = Some u \<longrightarrow> v = u" "\<forall>j\<le>k'. \<forall>u. snd (trace json1 json2 cs ?c' ! j) pk = Some u \<longrightarrow> v = u"
    proof -
      have "k' < length cs" "pk \<in> requested (cs ! k')"
        using Cons.prems Suc by simp_all
      from Cons.IH [OF this, of ?c'] show thesis
        by (elim exE conjE) (rule that)
    qed
    have "snd (trace json1 json2 (c # cs) cache ! j) pk = Some u \<Longrightarrow> j \<le> k \<Longrightarrow> v = u" for j u
      using v(3,4) Suc unfolding tr by (cases j) (simp_all add: map_add_def)
    moreover have "cache pk = Some u \<Longrightarrow> v = u" for u
      using v(3) says_new [of json1 json2 c cache pk] by (auto simp: map_add_def split: option.splits)
    moreover have "\<exists>j\<le>k. snd (trace json1 json2 (c # cs) cache ! j) pk = Some False" if nv: "\<not> v" "cache pk \<noteq> Some False"
    proof -
      consider "?says pk = Some False" | j where "j \<le> k'" "snd (trace json1 json2 cs ?c' ! j) pk = Some False"
        using v(2) nv by (auto simp: map_add_Some_iff split: option.splits)
      then show ?thesis
      proof cases
        case 1
        then show ?thesis
          unfolding tr by (intro exI [of _ 0]) simp
      next
        case (2 j)
        then show ?thesis
          unfolding tr using Suc by (intro exI [of _ "Suc j"]) simp
      qed
    qed
    ultimately show ?thesis
      using v(1) Suc unfolding tr by (intro exI [of _ v]) auto
  qed
qed simp

section \<open>Properties\<close>

text \<open>A service that is down, then says that a is absent, then that it is present.\<close>

definition example_calls :: "(string \<rightharpoonup> bool) wl_call list" where
  "example_calls = [Bulk [''a''] (\<lambda>_. Inr (503, Map.empty)), Bulk [''a''] (\<lambda>_. Inr (200, [''a'' \<mapsto> False])),
     Bulk [''a''] (\<lambda>_. Inr (200, [''a'' \<mapsto> True]))]"



end
