(* ===== verification/Pipeline.thy ===== *)
theory Pipeline
  imports Fetch Whitelist
begin

text \<open>
  \<^verbatim>\<open>spamhunter/pubkey_iterator/src/pipeline.rs\<close>: the bounded pipeline from the fetch stage to the consumer
  thread, as a step machine in which the producer, the consumer and whatever else changes the consumer's
  state interleave.  With \<^verbatim>\<open>DEFAULT_FETCH_CONCURRENCY = 1\<close> the stream holds no fetched batch besides the one
  in hand, so the batches are fetched one after another.  The fetch stage threads a state of its own, the
  request clock and the whitelist cache.
\<close>

section \<open>The fetch stage\<close>

definition DEFAULT_CHANNEL_CAP :: nat where "DEFAULT_CHANNEL_CAP = 64"
definition DEFAULT_AUTHORS_PER_CALL :: nat where "DEFAULT_AUTHORS_PER_CALL = 50"
definition DEFAULT_FETCH_CONCURRENCY :: nat where "DEFAULT_FETCH_CONCURRENCY = 1"

record ScoredInput =
  si_group :: AuthorGroup
  si_whitelisted :: bool

definition production_fetch_with_whitelist ::
  "latest_call \<Rightarrow> ('b \<Rightarrow> (string, string \<rightharpoonup> bool) result) \<Rightarrow> (nat \<Rightarrow> string list \<Rightarrow> (string, nat \<times> 'b) result) \<Rightarrow>
   string list \<Rightarrow> nat \<times> wl_cache \<Rightarrow> (ClientError, ScoredInput list) result \<times> nat \<times> wl_cache" where
  "production_fetch_with_whitelist lpa json post batch = (\<lambda>(t, cache).
     case fetch_batch lpa batch t of
       (Inl e, t) \<Rightarrow> (Inl e, t, cache)
     | (Inr groups, t) \<Rightarrow>
         (let matched = match_groups batch groups
          in case is_whitelisted_bulk json (post t) (map fst matched) cache of
               (wl, cache) \<Rightarrow>
                 (Inr (map (\<lambda>(pk, events).
                    \<lparr> si_group = \<lparr> ag_author = pk, ag_events = events \<rparr>,
                      si_whitelisted = (case wl pk of Some v \<Rightarrow> v | None \<Rightarrow> True) \<rparr>) matched), t, cache)))"

function chunks :: "nat \<Rightarrow> 'a list \<Rightarrow> 'a list list" where
  "chunks n xs = (if n = 0 \<or> xs = [] then [] else take n xs # chunks n (drop n xs))"
  by pat_completeness auto

termination
  by (relation "measure (\<lambda>(n, xs). length xs)") auto

declare chunks.simps [simp del]

section \<open>The machine\<close>

datatype pipe_status =
  Producing
| Draining "(ClientError, unit) result"
| PipeReturned "(ClientError, u64) result"
| PipePanicked

record ('c, 's) pipe =
  pp_todo :: "string list list"
  pp_hand :: "ScoredInput list"
  pp_chan :: "ScoredInput list"
  pp_fetch :: 'c
  pp_sink :: 's
  pp_status :: pipe_status

type_synonym 'c fetch_stage = "string list \<Rightarrow> 'c \<Rightarrow> (ClientError, ScoredInput list) result \<times> 'c"
type_synonym 's sink = "ScoredInput \<Rightarrow> 's \<Rightarrow> 's option"

text \<open>The start; \<^verbatim>\<open>chunks\<close> panics on the size 0.\<close>

definition run_pipeline :: "string list \<Rightarrow> nat \<Rightarrow> 'c \<Rightarrow> 's \<Rightarrow> ('c, 's) pipe" where
  "run_pipeline pubkeys authors_per_call c s =
     \<lparr> pp_todo = chunks authors_per_call pubkeys, pp_hand = [], pp_chan = [], pp_fetch = c, pp_sink = s,
       pp_status = (if authors_per_call = 0 then PipePanicked else Producing) \<rparr>"

text \<open>The producer: \<^const>\<open>None\<close> while a full channel suspends it and after its end.\<close>

definition produce :: "nat \<Rightarrow> 'c fetch_stage \<Rightarrow> ('c, 's) pipe \<Rightarrow> ('c, 's) pipe option" where
  "produce channel_cap fetch p =
     (if pp_status p \<noteq> Producing then None
      else case pp_hand p of
        input # inputs \<Rightarrow>
          if length (pp_chan p) < channel_cap then Some (p\<lparr> pp_hand := inputs, pp_chan := pp_chan p @ [input] \<rparr>) else None
      | [] \<Rightarrow>
          (case pp_todo p of
             [] \<Rightarrow> Some (p\<lparr> pp_status := Draining (Inr ()) \<rparr>)
           | batch # batches \<Rightarrow>
               (case fetch batch (pp_fetch p) of
                  (Inl e, c) \<Rightarrow> Some (p\<lparr> pp_fetch := c, pp_status := Draining (Inl e) \<rparr>)
                | (Inr inputs, c) \<Rightarrow> Some (p\<lparr> pp_todo := batches, pp_hand := inputs, pp_fetch := c \<rparr>))))"

text \<open>
  The consumer thread: it blocks on an empty channel, ends when the channel is closed and empty, and then
  \<^verbatim>\<open>run_pipeline\<close> returns; a panic of the consumer surfaces at the \<^verbatim>\<open>join\<close>.
\<close>

definition consume :: "'s sink \<Rightarrow> ('c, 's) pipe \<Rightarrow> ('c, 's) pipe option" where
  "consume consumer p =
     (case (pp_status p, pp_chan p) of
        (Producing, input # rest) \<Rightarrow>
          Some (case consumer input (pp_sink p) of
                  Some s \<Rightarrow> p\<lparr> pp_chan := rest, pp_sink := s \<rparr> | None \<Rightarrow> p\<lparr> pp_status := PipePanicked \<rparr>)
      | (Draining r, input # rest) \<Rightarrow>
          Some (case consumer input (pp_sink p) of
                  Some s \<Rightarrow> p\<lparr> pp_chan := rest, pp_sink := s \<rparr> | None \<Rightarrow> p\<lparr> pp_status := PipePanicked \<rparr>)
      | (Draining r, []) \<Rightarrow> Some (p\<lparr> pp_status := PipeReturned (map_sum id (\<lambda>_. 0) r) \<rparr>)
      | _ \<Rightarrow> None)"

text \<open>\<open>env\<close> is what else happens to the state of the consumer.\<close>

inductive pipe_moves ::
  "nat \<Rightarrow> 'c fetch_stage \<Rightarrow> 's sink \<Rightarrow> ('s \<Rightarrow> 's \<Rightarrow> bool) \<Rightarrow> ('c, 's) pipe \<Rightarrow> ('c, 's) pipe \<Rightarrow> bool"
  for channel_cap fetch consumer env where
  producer: "produce channel_cap fetch p = Some p' \<Longrightarrow> pipe_moves channel_cap fetch consumer env p p'"
| consumer: "consume consumer p = Some p' \<Longrightarrow> pipe_moves channel_cap fetch consumer env p p'"
| environment: "env (pp_sink p) s \<Longrightarrow> pipe_moves channel_cap fetch consumer env p (p\<lparr> pp_sink := s \<rparr>)"

section \<open>What the batches deliver\<close>

fun fetch_all :: "'c fetch_stage \<Rightarrow> string list list \<Rightarrow> 'c \<Rightarrow> ScoredInput list \<times> (ClientError, unit) result" where
  "fetch_all fetch [] c = ([], Inr ())"
| "fetch_all fetch (batch # batches) c =
     (case fetch batch c of
        (Inl e, c) \<Rightarrow> ([], Inl e)
      | (Inr inputs, c) \<Rightarrow> (case fetch_all fetch batches c of (rest, r) \<Rightarrow> (inputs @ rest, r)))"

text \<open>What is still to be consumed, and the result that will be returned.\<close>

definition undelivered :: "'c fetch_stage \<Rightarrow> ('c, 's) pipe \<Rightarrow> ScoredInput list \<times> (ClientError, u64) result" where
  "undelivered fetch p =
     (case pp_status p of
        Producing \<Rightarrow> (case fetch_all fetch (pp_todo p) (pp_fetch p) of (rest, r) \<Rightarrow> (pp_chan p @ pp_hand p @ rest, map_sum id (\<lambda>_. 0) r))
      | Draining r \<Rightarrow> (pp_chan p, map_sum id (\<lambda>_. 0) r)
      | PipeReturned r \<Rightarrow> ([], r)
      | PipePanicked \<Rightarrow> ([], Inr 0))"

lemma produce_undelivered: "produce cap fetch p = Some p' \<Longrightarrow> undelivered fetch p' = undelivered fetch p \<and> pp_sink p' = pp_sink p"
  by (auto simp: produce_def undelivered_def split: if_splits list.splits prod.splits sum.splits)

lemma undelivered_sink [simp]: "undelivered fetch (p\<lparr> pp_sink := s \<rparr>) = undelivered fetch p"
  by (simp add: undelivered_def split: pipe_status.split)

lemma consumeE:
  assumes "consume consumer p = Some p'"
  obtains (step) input rest s where "pp_chan p = input # rest" "pp_status p = Producing \<or> (\<exists>r. pp_status p = Draining r)"
      "consumer input (pp_sink p) = Some s" "p' = p\<lparr> pp_chan := rest, pp_sink := s \<rparr>"
  | (panic) input rest where "pp_chan p = input # rest" "pp_status p = Producing \<or> (\<exists>r. pp_status p = Draining r)"
      "consumer input (pp_sink p) = None" "p' = p\<lparr> pp_status := PipePanicked \<rparr>"
  | (join) r where "pp_chan p = []" "pp_status p = Draining r" "p' = p\<lparr> pp_status := PipeReturned (map_sum id (\<lambda>_. 0) r) \<rparr>"
  using assms by (auto simp: consume_def split: pipe_status.splits list.splits option.splits)

text \<open>
  A sink whose state has an abstract effect: consuming an admissible input applies \<open>g\<close> to it, and the
  environment leaves it alone.
\<close>

locale pipeline_sink =
  fixes consumer :: "'s sink" and env :: "'s \<Rightarrow> 's \<Rightarrow> bool" and inv :: "'s \<Rightarrow> bool" and ok :: "ScoredInput \<Rightarrow> bool"
    and f :: "'s \<Rightarrow> 'a" and g :: "ScoredInput \<Rightarrow> 'a \<Rightarrow> 'a"
  assumes consumes: "inv s \<Longrightarrow> ok input \<Longrightarrow> \<exists>s'. consumer input s = Some s' \<and> inv s' \<and> f s' = g input (f s)"
    and undisturbed: "inv s \<Longrightarrow> env s s' \<Longrightarrow> inv s' \<and> f s' = f s"
begin

text \<open>The state of a run that will consume \<open>inputs\<close>, apply them to \<open>a\<close> and return \<open>r\<close>.\<close>

definition on_track :: "'c fetch_stage \<Rightarrow> 'a \<Rightarrow> (ClientError, u64) result \<Rightarrow> ('c, 's) pipe \<Rightarrow> bool" where
  "on_track fetch a r p \<longleftrightarrow>
     inv (pp_sink p) \<and> pp_status p \<noteq> PipePanicked \<and> list_all ok (fst (undelivered fetch p)) \<and>
     fold g (fst (undelivered fetch p)) (f (pp_sink p)) = a \<and> snd (undelivered fetch p) = r"

lemma pipe_step:
  assumes "pipe_moves cap fetch consumer env p p'" "on_track fetch a r p"
  shows "on_track fetch a r p'"
  using assms(1)
proof cases
  case producer
  then show ?thesis
    using produce_undelivered [OF producer] assms(2)
    by (auto simp: on_track_def produce_def split: if_splits list.splits prod.splits sum.splits)
next
  case consumer
  then show ?thesis
  proof (cases rule: consumeE)
    case (step input rest s)
    then have "ok input"
      using assms(2) by (auto simp: on_track_def undelivered_def split: prod.splits)
    then show ?thesis
      using step consumes [of "pp_sink p" input] assms(2) by (auto simp: on_track_def undelivered_def split: prod.splits)
  next
    case (panic input rest)
    then have "ok input"
      using assms(2) by (auto simp: on_track_def undelivered_def split: prod.splits)
    then show ?thesis
      using panic consumes [of "pp_sink p" input] assms(2) by (simp add: on_track_def)
  next
    case (join r)
    then show ?thesis
      using assms(2) by (simp add: on_track_def undelivered_def)
  qed
next
  case (environment s)
  then show ?thesis
    using undisturbed [of "pp_sink p" s] assms(2) by (simp add: on_track_def)
qed

lemma pipe_run: "(pipe_moves cap fetch consumer env)\<^sup>*\<^sup>* p p' \<Longrightarrow> on_track fetch a r p \<Longrightarrow> on_track fetch a r p'"
  by (induction rule: rtranclp_induct) (simp_all add: pipe_step)

lemma pipe_start:
  assumes "inv s" "0 < apc" "fetch_all fetch (chunks apc pubkeys) c = (inputs, r)" "list_all ok inputs"
  shows "on_track fetch (fold g inputs (f s)) (map_sum id (\<lambda>_. 0) r) (run_pipeline pubkeys apc c s)"
  using assms by (simp add: on_track_def run_pipeline_def undelivered_def)

lemma on_track_returned: "on_track fetch a r p \<Longrightarrow> pp_status p = PipeReturned r' \<Longrightarrow> r' = r \<and> f (pp_sink p) = a"
  by (simp add: on_track_def undelivered_def)

end

section \<open>The counting consumer\<close>

definition consume_noop :: "ScoredInput \<Rightarrow> u64 \<Rightarrow> u64" where
  "consume_noop input n = n + of_nat (length (ag_events (si_group input)))"

definition run_pipeline_noop :: "string list \<Rightarrow> nat \<Rightarrow> 'c \<Rightarrow> ('c, u64) pipe" where
  "run_pipeline_noop pubkeys authors_per_call c = run_pipeline pubkeys authors_per_call c 0"

definition noop_result :: "('c, u64) pipe \<Rightarrow> (ClientError, u64) result option" where
  "noop_result p = (case pp_status p of PipeReturned r \<Rightarrow> Some (bind_r r (\<lambda>_. Inr (pp_sink p))) | _ \<Rightarrow> None)"

interpretation total_sink: pipeline_sink "\<lambda>input s. Some (k input s)" "\<lambda>_ _. False" "\<lambda>_. True" "\<lambda>_. True" "\<lambda>s. s" k for k
  by unfold_locales simp_all

lemma total_returned:
  assumes "(pipe_moves cap fetch (\<lambda>input s. Some (k input s)) (\<lambda>_ _. False))\<^sup>*\<^sup>* (run_pipeline pubkeys apc c s) p"
    and "pp_status p = PipeReturned r" "0 < apc" "fetch_all fetch (chunks apc pubkeys) c = (inputs, r')"
  shows "r = map_sum id (\<lambda>_. 0) r' \<and> pp_sink p = fold k inputs s"
  using total_sink.on_track_returned [OF total_sink.pipe_run [OF assms(1) total_sink.pipe_start [OF TrueI assms(3,4)]] assms(2)]
  by (simp add: list_all_iff)

section \<open>What the fetch stage delivers\<close>

lemma map_fst_match_loop [simp]: "map fst (match_loop pks m) = pks"
  by (induction pks arbitrary: m) simp_all

lemma production_authors:
  "production_fetch_with_whitelist lpa json post batch c = (Inr inputs, c') \<Longrightarrow> map (ag_author \<circ> si_group) inputs = batch"
  by (auto simp: production_fetch_with_whitelist_def match_groups_def comp_def case_prod_beta' Let_def
      split: prod.splits sum.splits)

lemma concat_chunks: "0 < n \<Longrightarrow> concat (chunks n xs) = xs"
  by (induction n xs rule: chunks.induct) (subst chunks.simps, simp)

lemma chunks_length: "batch \<in> set (chunks n xs) \<Longrightarrow> length batch \<le> n"
proof (induction n xs rule: chunks.induct)
  case (1 n xs)
  then show ?case
    by (subst (asm) (2) chunks.simps) (auto split: if_splits)
qed

lemma chunks_sub: "0 < n \<Longrightarrow> batch \<in> set (chunks n xs) \<Longrightarrow> set batch \<subseteq> set xs"
  using concat_chunks [of n xs] by (metis UN_upper set_concat)

lemma fetch_all_authors:
  "fetch_all (production_fetch_with_whitelist lpa json post) batches c = (inputs, r) \<Longrightarrow>
   \<exists>n. map (ag_author \<circ> si_group) inputs = concat (take n batches) \<and> (case r of Inr _ \<Rightarrow> n = length batches | Inl _ \<Rightarrow> n < length batches)"
proof (induction batches arbitrary: c inputs r)
  case (Cons batch batches)
  obtain res c' where p: "production_fetch_with_whitelist lpa json post batch c = (res, c')"
    by (rule prod.exhaust)
  show ?case
  proof (cases res)
    case (Inl e)
    then show ?thesis
      using Cons.prems p by (auto intro!: exI [of _ 0])
  next
    case (Inr ins)
    then obtain rest where rest: "fetch_all (production_fetch_with_whitelist lpa json post) batches c' = (rest, r)" "inputs = ins @ rest"
      using Cons.prems p by (auto split: prod.splits)
    moreover have "map (ag_author \<circ> si_group) ins = batch"
      using production_authors p Inr by blast
    moreover obtain n where "map (ag_author \<circ> si_group) rest = concat (take n batches)"
      "case r of Inr _ \<Rightarrow> n = length batches | Inl _ \<Rightarrow> n < length batches"
      using Cons.IH [OF rest(1)] by blast
    ultimately show ?thesis
      by (intro exI [of _ "Suc n"]) (simp add: comp_def split: sum.splits)
  qed
qed simp

section \<open>Bounds and progress\<close>

definition fits_in :: "nat \<Rightarrow> nat \<Rightarrow> ('c, 's) pipe \<Rightarrow> bool" where
  "fits_in cap apc p \<longleftrightarrow> length (pp_chan p) \<le> cap \<and> length (pp_hand p) \<le> apc \<and> (\<forall>batch\<in>set (pp_todo p). length batch \<le> apc)"

lemma fits_in_step:
  assumes "pipe_moves cap fetch consumer env p p'" "fits_in cap apc p"
    and "\<And>batch c inputs c'. fetch batch c = (Inr inputs, c') \<Longrightarrow> length inputs \<le> length batch"
  shows "fits_in cap apc p'"
  using assms(1)
proof cases
  case producer
  then show ?thesis
    using assms(2) by (auto simp: produce_def fits_in_def dest!: assms(3) split: if_splits list.splits prod.splits sum.splits)
next
  case consumer
  then show ?thesis
    using assms(2) by (cases rule: consumeE) (auto simp: fits_in_def)
qed (use assms(2) in \<open>simp add: fits_in_def\<close>)

fun phase :: "pipe_status \<Rightarrow> nat" where
  "phase Producing = 2"
| "phase (Draining r) = 1"
| "phase s = 0"

definition work :: "('c, 's) pipe \<Rightarrow> nat \<times> nat" where
  "work p = (length (pp_todo p), 2 * length (pp_hand p) + length (pp_chan p) + phase (pp_status p))"

lemma work_decreases:
  "produce cap fetch p = Some p' \<Longrightarrow> (work p', work p) \<in> less_than <*lex*> less_than"
  "consume consumer p = Some p' \<Longrightarrow> (work p', work p) \<in> less_than <*lex*> less_than"
   apply (auto simp: produce_def work_def split: if_splits list.splits prod.splits sum.splits)[1]
  by (auto simp: consume_def work_def split: pipe_status.splits list.splits option.splits)

lemma stuck_iff:
  "0 < cap \<Longrightarrow> produce cap fetch p = None \<and> consume consumer p = None \<longleftrightarrow> (\<exists>r. pp_status p = PipeReturned r) \<or> pp_status p = PipePanicked"
  by (auto simp: produce_def consume_def split: pipe_status.splits list.splits prod.splits sum.splits option.splits)

lemma no_descent:
  fixes f :: "nat \<Rightarrow> ('c, 's) pipe"
  shows "\<exists>i. \<not> pipe_moves cap fetch consumer (\<lambda>_ _. False) (f i) (f (Suc i))"
proof -
  have "wf (less_than <*lex*> less_than)"
    by (intro wf_lex_prod wf_less_than)
  then obtain i where "(work (f (Suc i)), work (f i)) \<notin> less_than <*lex*> less_than"
    using wf_no_infinite_down_chainE [of _ "\<lambda>i. work (f i)"] by blast
  then show ?thesis
    by (auto elim!: pipe_moves.cases dest: work_decreases)
qed

lemma moves_stuck_iff:
  assumes "0 < cap"
  shows "(\<forall>p'. \<not> pipe_moves cap fetch consumer (\<lambda>_ _. False) p p') \<longleftrightarrow> (\<exists>r. pp_status p = PipeReturned r) \<or> pp_status p = PipePanicked"
  using stuck_iff [OF assms, of fetch p consumer] by (auto elim!: pipe_moves.cases intro: pipe_moves.intros)

lemma noop_counts:
  assumes "(pipe_moves cap fetch (\<lambda>input n. Some (consume_noop input n)) (\<lambda>_ _. False))\<^sup>*\<^sup>* (run_pipeline_noop pubkeys apc c) p"
    and "noop_result p = Some (Inr n)" "0 < apc"
  shows "n = of_nat (sum_list (map (length \<circ> ag_events \<circ> si_group) (fst (fetch_all fetch (chunks apc pubkeys) c))))"
proof -
  have count: "fold consume_noop inputs m = m + of_nat (sum_list (map (length \<circ> ag_events \<circ> si_group) inputs))" for inputs m
    by (induction inputs arbitrary: m) (simp_all add: consume_noop_def)
  obtain r where "pp_status p = PipeReturned r" "pp_sink p = n"
    using assms(2) by (cases "pp_status p"; cases "case pp_status p of PipeReturned r \<Rightarrow> r") (auto simp: noop_result_def)
  then show ?thesis
    using total_returned [OF assms(1) [unfolded run_pipeline_noop_def] _ assms(3) surjective_pairing] count by simp
qed

section \<open>Properties\<close>

text \<open>
  C32: the memory bound.  Whatever the consumer does and however the threads interleave, the channel holds
  at most its capacity and the producer at most one batch of inputs, independently of the corpus.
\<close>

theorem pipeline_bounded:
  assumes "(pipe_moves cap (production_fetch_with_whitelist lpa json post) consumer env)\<^sup>*\<^sup>* (run_pipeline pubkeys apc c s) p"
  shows "length (pp_chan p) \<le> cap \<and> length (pp_hand p) \<le> apc"
proof -
  have one: "length inputs \<le> length batch" if "production_fetch_with_whitelist lpa json post batch c = (Inr inputs, c')" for batch c inputs c'
    using production_authors [OF that] by (metis length_map order_refl)
  have "fits_in cap apc (run_pipeline pubkeys apc c s)"
    using chunks_length by (auto simp: fits_in_def run_pipeline_def)
  with assms have "fits_in cap apc p"
    by (induction rule: rtranclp_induct) (use fits_in_step one in \<open>simp, blast\<close>)
  then show ?thesis
    by (simp add: fits_in_def)
qed

text \<open>
  C31: the pipeline ends.  No schedule of the producer and the consumer thread runs forever, and with a
  channel of at least one slot none of them is stuck before \<^verbatim>\<open>run_pipeline\<close> returns or panics.
\<close>

theorem pipeline_terminates:
  "(\<nexists>f. \<forall>i. pipe_moves cap fetch consumer (\<lambda>_ _. False) (f i) (f (Suc i))) \<and>
   (0 < cap \<longrightarrow> (\<forall>p'. \<not> pipe_moves cap fetch consumer (\<lambda>_ _. False) p p') \<longrightarrow>
      (\<exists>r. pp_status p = PipeReturned r) \<or> pp_status p = PipePanicked)"
  using no_descent moves_stuck_iff by blast

text \<open>
  C30: delivery.  When the pipeline returns, the consumer has processed the inputs of whole batches, one
  per requested pubkey, in their order and each once; all of them if it returns \<^verbatim>\<open>Ok\<close>, and on a fetch
  error those of the batches before the failing one.
\<close>

theorem pipeline_delivers:
  assumes "(pipe_moves cap (production_fetch_with_whitelist lpa json post) (\<lambda>input s. Some (k input s)) (\<lambda>_ _. False))\<^sup>*\<^sup>*
      (run_pipeline pubkeys apc c s) p"
    and "pp_status p = PipeReturned r" "0 < apc"
  shows "\<exists>inputs n. pp_sink p = fold k inputs s \<and> map (ag_author \<circ> si_group) inputs = concat (take n (chunks apc pubkeys)) \<and>
    (case r of Inl e \<Rightarrow> n < length (chunks apc pubkeys) | Inr v \<Rightarrow> v = 0 \<and> map (ag_author \<circ> si_group) inputs = pubkeys)"
proof -
  obtain inputs r' where fa: "fetch_all (production_fetch_with_whitelist lpa json post) (chunks apc pubkeys) c = (inputs, r')"
    by (rule prod.exhaust)
  have r: "r = map_sum id (\<lambda>_. 0) r'" and sink: "pp_sink p = fold k inputs s"
    using total_returned [OF assms fa] by simp_all
  obtain n where "map (ag_author \<circ> si_group) inputs = concat (take n (chunks apc pubkeys))"
    "case r' of Inr _ \<Rightarrow> n = length (chunks apc pubkeys) | Inl _ \<Rightarrow> n < length (chunks apc pubkeys)"
    using fetch_all_authors [OF fa] by blast
  then show ?thesis
    using concat_chunks [OF assms(3), of pubkeys] sink unfolding r
    by (intro exI [of _ inputs] exI [of _ n]) (cases r'; simp)
qed

section \<open>An example\<close>

text \<open>A schedule that runs the producer whenever it can move.\<close>

primrec drive :: "nat \<Rightarrow> nat \<Rightarrow> 'c fetch_stage \<Rightarrow> 's sink \<Rightarrow> ('c, 's) pipe \<Rightarrow> ('c, 's) pipe" where
  "drive 0 cap fetch consumer p = p"
| "drive (Suc n) cap fetch consumer p =
     (case produce cap fetch p of
        Some p' \<Rightarrow> drive n cap fetch consumer p'
      | None \<Rightarrow> (case consume consumer p of Some p' \<Rightarrow> drive n cap fetch consumer p' | None \<Rightarrow> p))"

lemma drive_moves: "(pipe_moves cap fetch consumer env)\<^sup>*\<^sup>* p (drive n cap fetch consumer p)"
  by (induction n arbitrary: p)
    (auto split: option.split intro: converse_rtranclp_into_rtranclp pipe_moves.intros)

definition example_fetch :: "(nat \<times> wl_cache) fetch_stage" where
  "example_fetch = production_fetch_with_whitelist (\<lambda>t batch. Inr []) (\<lambda>b. Inr b) (\<lambda>t pks. Inl ''refused'')"

definition example_start :: "(nat \<times> wl_cache, string list) pipe" where
  "example_start = run_pipeline [''a'', ''b'', ''c''] 2 (0, Map.empty) []"

definition example_note :: "ScoredInput \<Rightarrow> string list \<Rightarrow> string list" where
  "example_note input s = s @ [ag_author (si_group input)]"

lemmas example_drive_simps = example_fetch_def example_start_def example_note_def run_pipeline_def chunks.simps produce_def consume_def
  production_fetch_with_whitelist_def fetch_batch.simps retry_def MAX_ATTEMPTS_def match_groups_def is_whitelisted_bulk_def decoded_def

definition example_end :: "(nat \<times> wl_cache, string list) pipe" where
  "example_end = drive 20 1 example_fetch (\<lambda>input s. Some (example_note input s)) example_start"

lemma example_driven: "pp_status example_end = PipeReturned (Inr 0) \<and> pp_sink example_end = [''a'', ''b'', ''c'']"
  by (simp add: example_end_def example_drive_simps numeral_eq_Suc)

lemma example_reached:
  "(pipe_moves 1 (production_fetch_with_whitelist (\<lambda>t batch. Inr []) (\<lambda>b. Inr b) (\<lambda>t pks. Inl ''refused''))
     (\<lambda>input s. Some (example_note input s)) (\<lambda>_ _. False))\<^sup>*\<^sup>*
   (run_pipeline [''a'', ''b'', ''c''] 2 (0, Map.empty) []) example_end"
  unfolding example_end_def example_fetch_def [symmetric] example_start_def [symmetric] by (rule drive_moves)

theorem pipeline_bounded_witness: "length (pp_chan example_end) \<le> 1 \<and> length (pp_hand example_end) \<le> 2"
  using pipeline_bounded [OF example_reached] .

theorem pipeline_terminates_witness:
  "(\<nexists>f. \<forall>i. pipe_moves 1 example_fetch (\<lambda>input s. Some (example_note input s)) (\<lambda>_ _. False) (f i) (f (Suc i))) \<and>
   (0 < (1::nat) \<and> (\<exists>p'. pipe_moves 1 example_fetch (\<lambda>input s. Some (example_note input s)) (\<lambda>_ _. False) example_start p'))"
proof -
  have "pp_status example_start = Producing"
    by (simp add: example_start_def run_pipeline_def)
  then show ?thesis
    using pipeline_terminates [of 1 example_fetch "\<lambda>input s. Some (example_note input s)" example_start] by auto
qed

theorem pipeline_delivers_witness:
  "\<exists>inputs n. pp_sink example_end = fold example_note inputs [] \<and>
     map (ag_author \<circ> si_group) inputs = concat (take n (chunks 2 [''a'', ''b'', ''c''])) \<and>
     map (ag_author \<circ> si_group) inputs = [''a'', ''b'', ''c'']"
  using pipeline_delivers [OF example_reached conjunct1 [OF example_driven]] by auto

end
