(* ===== verification/HunterStore.thy ===== *)
theory HunterStore
  imports Prelude "HOL-Library.AList"
begin

text \<open>
  \<^verbatim>\<open>spamhunter/pubkey_iterator/src/model.rs\<close> and \<^verbatim>\<open>store/\<close>: the rows, the messages of the single writer,
  the tables with their keys and foreign keys, the batched writer actor, and the operations of
  \<^verbatim>\<open>Store\<close>.  A table is the list of its rows in insertion order, keyed rows an association list whose
  update is the \<^verbatim>\<open>ON CONFLICT DO UPDATE\<close> of the statements.  \<^verbatim>\<open>f64\<close> values are only stored, so their type
  is a parameter.  What SQLite may do at any call, fail without an effect, is a transition of the
  processes that use the store (theory \<open>Enumerate\<close>), not a case of the functions here.
\<close>

section \<open>Rows and messages\<close>

record Run =
  run_id :: int
  started_at :: int
  finished_at :: "int option"
  max_lev_id_start :: "int option"
  max_lev_id_end :: "int option"
  last_cursor :: "string option"
  config_json :: string
  status :: string

record 'f SubScore =
  ss_layer :: string
  ss_value :: 'f
  ss_evidence :: "string option"

record Fingerprint =
  fp_run_id :: int
  fp_pubkey :: string
  fp_content_hash :: i64
  fp_simhash :: i64
  fp_minhash :: "bytes option"

record Label =
  lb_pubkey :: string
  lb_is_spam :: bool
  lb_labeled_at :: int
  lb_source :: "string option"
  lb_note :: "string option"

record 'f Weight =
  w_layer :: string
  w_weight :: 'f
  w_threshold :: "'f option"
  w_tuned_at :: "int option"
  w_tuned_from_run :: "int option"

record 'f Persist =
  p_run_id :: int
  p_pubkey :: string
  p_score :: 'f
  p_whitelisted :: bool
  p_suspected :: bool
  p_subscores :: "'f SubScore list"

text \<open>The acknowledgement channel of a flush is identified by a number.\<close>

datatype 'f WriteMsg =
  Score "'f Persist"
| Pubkeys "string list"
| Fingerprints "Fingerprint list"
| Flush nat

section \<open>Tables\<close>

record 'f Database =
  t_run :: "Run list"
  t_run_seq :: int
  t_pubkey :: "string list"
  t_score :: "((int \<times> string) \<times> ('f \<times> bool \<times> bool)) list"
  t_signal :: "((int \<times> string \<times> string) \<times> ('f \<times> string option)) list"
  t_fingerprint :: "((int \<times> string \<times> i64) \<times> i64) list"
  t_backpropagation :: "Label list"
  t_weight :: "'f Weight list"
  t_suspected :: "((int \<times> string) \<times> ('f \<times> 'f \<times> nat \<times> int)) list"
  t_review :: "((int \<times> string) \<times> ('f \<times> int)) list"

datatype sqlite_error = ForeignKeyFailed | UniqueFailed | QueryReturnedNoRows | InvalidColumnType | DatabaseFull | SqliteIo

definition bootstrap :: "'f Database" where
  "bootstrap = \<lparr> t_run = [], t_run_seq = 0, t_pubkey = [], t_score = [], t_signal = [], t_fingerprint = [],
     t_backpropagation = [], t_weight = [], t_suspected = [], t_review = [] \<rparr>"

definition has_run :: "int \<Rightarrow> 'f Database \<Rightarrow> bool" where
  "has_run rid db \<longleftrightarrow> rid \<in> run_id ` set (t_run db)"

section \<open>The writer's statements\<close>

definition UPSERT_PUBKEY :: "string \<Rightarrow> 'f Database \<Rightarrow> 'f Database" where
  "UPSERT_PUBKEY pk db = (if pk \<in> set (t_pubkey db) then db else db\<lparr> t_pubkey := t_pubkey db @ [pk] \<rparr>)"

definition UPSERT_SCORE :: "'f Persist \<Rightarrow> 'f Database \<Rightarrow> (sqlite_error, 'f Database) result" where
  "UPSERT_SCORE p db =
     (if has_run (p_run_id p) db \<and> p_pubkey p \<in> set (t_pubkey db)
      then Inr (db\<lparr> t_score := AList.update (p_run_id p, p_pubkey p)
                      (p_score p, p_whitelisted p, p_suspected p) (t_score db) \<rparr>)
      else Inl ForeignKeyFailed)"

definition UPSERT_SIGNAL :: "int \<Rightarrow> string \<Rightarrow> 'f SubScore \<Rightarrow> 'f Database \<Rightarrow> (sqlite_error, 'f Database) result" where
  "UPSERT_SIGNAL rid pk s db =
     (if has_run rid db \<and> pk \<in> set (t_pubkey db)
      then Inr (db\<lparr> t_signal := AList.update (rid, pk, ss_layer s) (ss_value s, ss_evidence s) (t_signal db) \<rparr>)
      else Inl ForeignKeyFailed)"

definition UPSERT_FINGERPRINT :: "Fingerprint \<Rightarrow> 'f Database \<Rightarrow> (sqlite_error, 'f Database) result" where
  "UPSERT_FINGERPRINT fp db =
     (if has_run (fp_run_id fp) db \<and> fp_pubkey fp \<in> set (t_pubkey db)
      then Inr (db\<lparr> t_fingerprint := AList.update (fp_run_id fp, fp_pubkey fp, fp_content_hash fp)
                      (fp_simhash fp) (t_fingerprint db) \<rparr>)
      else Inl ForeignKeyFailed)"

text \<open>A loop of statements that stops at the first error.\<close>

fun execute_all :: "('a \<Rightarrow> 'd \<Rightarrow> ('e, 'd) result) \<Rightarrow> 'a list \<Rightarrow> 'd \<Rightarrow> ('e, 'd) result" where
  "execute_all stmt [] db = Inr db"
| "execute_all stmt (x # xs) db = bind_r (stmt x db) (execute_all stmt xs)"

fun process_msg :: "'f WriteMsg \<Rightarrow> 'f Database \<Rightarrow> (sqlite_error, 'f Database) result" where
  "process_msg (Score p) db =
     bind_r (UPSERT_SCORE p (UPSERT_PUBKEY (p_pubkey p) db))
       (execute_all (UPSERT_SIGNAL (p_run_id p) (p_pubkey p)) (p_subscores p))"
| "process_msg (Pubkeys pks) db = Inr (fold UPSERT_PUBKEY pks db)"
| "process_msg (Fingerprints fps) db =
     execute_all (\<lambda>fp db. UPSERT_FINGERPRINT fp (UPSERT_PUBKEY (fp_pubkey fp) db)) fps db"
| "process_msg (Flush ack) db = Inr db"

text \<open>The transaction of one batch: all of its messages, or none.\<close>

definition commit_batch :: "'f WriteMsg list \<Rightarrow> 'f Database \<Rightarrow> (sqlite_error, 'f Database) result" where
  "commit_batch = execute_all process_msg"

section \<open>The writer actor\<close>

definition BATCH :: nat where "BATCH = 8192"

record 'f Store =
  s_db :: "'f Database"
  s_queue :: "'f WriteMsg list"
  s_open :: bool
  s_writer :: "(sqlite_error, unit) result option"

text \<open>\<^const>\<open>None\<close> is a running writer, otherwise what its thread returned.\<close>

definition open_store :: "'f Database \<Rightarrow> 'f Store" where
  "open_store db = \<lparr> s_db = db, s_queue = [], s_open = True, s_writer = None \<rparr>"

text \<open>The end of the writer thread drops the receiver and with it the messages still queued.\<close>

definition writer_fails :: "sqlite_error \<Rightarrow> 'f Store \<Rightarrow> 'f Store" where
  "writer_fails e s = s\<lparr> s_queue := [], s_writer := Some (Inl e) \<rparr>"

text \<open>
  One turn of \<^verbatim>\<open>writer_loop\<close> that finds \<open>n\<close> messages; \<open>n\<close> is up to the interleaving with the senders,
  between 1 and \<^verbatim>\<open>BATCH\<close>.
\<close>

definition writer_turn :: "nat \<Rightarrow> 'f Store \<Rightarrow> 'f Store" where
  "writer_turn n s =
     (case commit_batch (take n (s_queue s)) (s_db s) of
        Inl e \<Rightarrow> writer_fails e s
      | Inr db \<Rightarrow> s\<lparr> s_db := db, s_queue := drop n (s_queue s) \<rparr>)"

definition turn_ok :: "nat \<Rightarrow> 'f Store \<Rightarrow> bool" where
  "turn_ok n s \<longleftrightarrow> s_writer s = None \<and> 1 \<le> n \<and> n \<le> BATCH \<and> n \<le> length (s_queue s)"

text \<open>The writer's return when the channel is closed and empty.\<close>

definition writer_exit :: "'f Store \<Rightarrow> 'f Store" where
  "writer_exit s = s\<lparr> s_writer := Some (Inr ()) \<rparr>"

section \<open>Sending\<close>

text \<open>\<^const>\<open>None\<close> is the panic of \<^verbatim>\<open>expect\<close> when the writer is gone.\<close>

definition send :: "'f WriteMsg \<Rightarrow> 'f Store \<Rightarrow> 'f Store option" where
  "send m s =
     (if \<not> s_open s then Some s
      else if s_writer s = None then Some (s\<lparr> s_queue := s_queue s @ [m] \<rparr>) else None)"

definition persist :: "'f Persist \<Rightarrow> 'f Store \<Rightarrow> 'f Store option" where
  "persist p s = send (Score p) s"

definition insert_pubkeys :: "string list \<Rightarrow> 'f Store \<Rightarrow> 'f Store option" where
  "insert_pubkeys pks s = send (Pubkeys pks) s"

definition persist_fingerprints :: "Fingerprint list \<Rightarrow> 'f Store \<Rightarrow> 'f Store option" where
  "persist_fingerprints fps s = (if fps = [] then Some s else send (Fingerprints fps) s)"

text \<open>
  \<^verbatim>\<open>flush\<close> sends the barrier, which a dead writer does not receive, and then waits until its
  acknowledgement arrives or its sender is dropped; both are the absence of the message from the queue.
\<close>

definition flush_send :: "nat \<Rightarrow> 'f Store \<Rightarrow> 'f Store" where
  "flush_send ack s = (if s_open s \<and> s_writer s = None then s\<lparr> s_queue := s_queue s @ [Flush ack] \<rparr> else s)"

definition flush_returns :: "nat \<Rightarrow> 'f Store \<Rightarrow> bool" where
  "flush_returns ack s \<longleftrightarrow> Flush ack \<notin> set (s_queue s)"

definition close_send :: "'f Store \<Rightarrow> 'f Store" where
  "close_send s = s\<lparr> s_open := False \<rparr>"

text \<open>\<^verbatim>\<open>close\<close> joins the writer and returns its result; \<^const>\<open>None\<close> while the thread runs.\<close>

definition close_result :: "'f Store \<Rightarrow> (sqlite_error, unit) result option" where
  "close_result s = s_writer s"

section \<open>Run rows\<close>

definition begin_run :: "int \<Rightarrow> string \<Rightarrow> 'f Database \<Rightarrow> (sqlite_error, int \<times> 'f Database) result" where
  "begin_run now config db =
     (if t_run_seq db < 2 ^ 63 - 1
      then let rid = t_run_seq db + 1
           in Inr (rid, db\<lparr> t_run := t_run db @ [\<lparr> run_id = rid, started_at = now, finished_at = None,
                 max_lev_id_start = None, max_lev_id_end = None, last_cursor = None, config_json = config,
                 status = ''running'' \<rparr>], t_run_seq := rid \<rparr>)
      else Inl DatabaseFull)"

text \<open>\<^verbatim>\<open>WHERE status != 'done' ORDER BY run_id DESC LIMIT 1\<close> over rows in the order of their ids.\<close>

definition latest_unfinished_run :: "'f Database \<Rightarrow> Run option" where
  "latest_unfinished_run db = find (\<lambda>r. status r \<noteq> ''done'') (rev (t_run db))"

definition update_run :: "(Run \<Rightarrow> Run) \<Rightarrow> int \<Rightarrow> 'f Database \<Rightarrow> 'f Database" where
  "update_run f rid db = db\<lparr> t_run := map (\<lambda>r. if run_id r = rid then f r else r) (t_run db) \<rparr>"

definition set_run_cursor :: "int \<Rightarrow> string \<Rightarrow> 'f Database \<Rightarrow> 'f Database" where
  "set_run_cursor rid cursor = update_run (\<lambda>r. r\<lparr> last_cursor := Some cursor \<rparr>) rid"

definition set_run_max_lev_start :: "int \<Rightarrow> int \<Rightarrow> 'f Database \<Rightarrow> 'f Database" where
  "set_run_max_lev_start rid v = update_run (\<lambda>r. r\<lparr> max_lev_id_start := Some v \<rparr>) rid"

definition set_run_config_json :: "int \<Rightarrow> string \<Rightarrow> 'f Database \<Rightarrow> 'f Database" where
  "set_run_config_json rid config = update_run (\<lambda>r. r\<lparr> config_json := config \<rparr>) rid"

definition set_run_max_lev_end :: "int \<Rightarrow> int \<Rightarrow> 'f Database \<Rightarrow> 'f Database" where
  "set_run_max_lev_end rid v = update_run (\<lambda>r. r\<lparr> max_lev_id_end := Some v \<rparr>) rid"

definition mark_run_aborted :: "int \<Rightarrow> int \<Rightarrow> 'f Database \<Rightarrow> 'f Database" where
  "mark_run_aborted now rid = update_run (\<lambda>r. r\<lparr> status := ''aborted'', finished_at := Some now \<rparr>) rid"

definition mark_run_done :: "int \<Rightarrow> int \<Rightarrow> int \<Rightarrow> 'f Database \<Rightarrow> (sqlite_error, 'f Database) result" where
  "mark_run_done now rid max_end db =
     (if length (filter (\<lambda>r. run_id r = rid) (t_run db)) \<noteq> 1 then Inl QueryReturnedNoRows
      else Inr (update_run (\<lambda>r. r\<lparr> status := ''done'', finished_at := Some now, max_lev_id_end := Some max_end \<rparr>) rid db))"

section \<open>Reads\<close>

definition read_pubkeys :: "'f Database \<Rightarrow> string list" where
  "read_pubkeys db = sort (t_pubkey db)"

definition read_scores :: "'f Database \<Rightarrow> int \<Rightarrow> (string \<times> 'f) list" where
  "read_scores db rid =
     map (\<lambda>((_, pk), sc, _). (pk, sc)) (sort_key (\<lambda>((_, pk), _). pk) (filter (\<lambda>((r, _), _). r = rid) (t_score db)))"

definition read_signals :: "'f Database \<Rightarrow> int \<Rightarrow> (string \<times> string \<times> 'f) list" where
  "read_signals db rid =
     map (\<lambda>((_, pk, l), v, _). (pk, l, v))
       (sort_key (\<lambda>((_, pk, l), _). (pk, l)) (filter (\<lambda>((r, _), _). r = rid) (t_signal db)))"

text \<open>\<^verbatim>\<open>ORDER BY pubkey, content_hash\<close> is the signed order of the column.\<close>

definition read_fingerprints :: "'f Database \<Rightarrow> int \<Rightarrow> Fingerprint list" where
  "read_fingerprints db rid =
     map (\<lambda>((r, pk, h), s). \<lparr> fp_run_id = r, fp_pubkey = pk, fp_content_hash = h, fp_simhash = s, fp_minhash = None \<rparr>)
       (sort_key (\<lambda>((_, pk, h), _). (pk, sint h)) (filter (\<lambda>((r, _), _). r = rid) (t_fingerprint db)))"

section \<open>What a batch is to do\<close>

text \<open>The rows a message writes and the runs it refers to.\<close>

fun msg_pubkeys :: "'f WriteMsg \<Rightarrow> string list" where
  "msg_pubkeys (Score p) = [p_pubkey p]"
| "msg_pubkeys (Pubkeys pks) = pks"
| "msg_pubkeys (Fingerprints fps) = map fp_pubkey fps"
| "msg_pubkeys (Flush ack) = []"

fun msg_scores :: "'f WriteMsg \<Rightarrow> ((int \<times> string) \<times> ('f \<times> bool \<times> bool)) list" where
  "msg_scores (Score p) = [((p_run_id p, p_pubkey p), (p_score p, p_whitelisted p, p_suspected p))]"
| "msg_scores m = []"

fun msg_signals :: "'f WriteMsg \<Rightarrow> ((int \<times> string \<times> string) \<times> ('f \<times> string option)) list" where
  "msg_signals (Score p) =
     map (\<lambda>s. ((p_run_id p, p_pubkey p, ss_layer s), (ss_value s, ss_evidence s))) (p_subscores p)"
| "msg_signals m = []"

fun msg_fingerprints :: "'f WriteMsg \<Rightarrow> ((int \<times> string \<times> i64) \<times> i64) list" where
  "msg_fingerprints (Fingerprints fps) = map (\<lambda>fp. ((fp_run_id fp, fp_pubkey fp, fp_content_hash fp), fp_simhash fp)) fps"
| "msg_fingerprints m = []"

fun msg_runs :: "'f WriteMsg \<Rightarrow> int list" where
  "msg_runs (Score p) = [p_run_id p]"
| "msg_runs (Fingerprints fps) = map fp_run_id fps"
| "msg_runs m = []"

definition add_keys :: "'k list \<Rightarrow> 'k list \<Rightarrow> 'k list" where
  "add_keys ks xs = fold (\<lambda>k xs. if k \<in> set xs then xs else xs @ [k]) ks xs"

definition upserts :: "('k \<times> 'v) list \<Rightarrow> ('k \<times> 'v) list \<Rightarrow> ('k \<times> 'v) list" where
  "upserts kvs al = fold (\<lambda>(k, v). AList.update k v) kvs al"

definition apply_msgs :: "'f WriteMsg list \<Rightarrow> 'f Database \<Rightarrow> 'f Database" where
  "apply_msgs ms db = db\<lparr>
     t_pubkey := add_keys (concat (map msg_pubkeys ms)) (t_pubkey db),
     t_score := upserts (concat (map msg_scores ms)) (t_score db),
     t_signal := upserts (concat (map msg_signals ms)) (t_signal db),
     t_fingerprint := upserts (concat (map msg_fingerprints ms)) (t_fingerprint db) \<rparr>"

definition runs_exist :: "'f WriteMsg list \<Rightarrow> 'f Database \<Rightarrow> bool" where
  "runs_exist ms db = list_all (\<lambda>rid. has_run rid db) (concat (map msg_runs ms))"

text \<open>The keys of the schema and its references.\<close>

definition db_inv :: "'f Database \<Rightarrow> bool" where
  "db_inv db \<longleftrightarrow>
     sorted_wrt (<) (map run_id (t_run db)) \<and> (\<forall>r\<in>set (t_run db). run_id r \<le> t_run_seq db) \<and>
     distinct (t_pubkey db) \<and> distinct (map fst (t_score db)) \<and> distinct (map fst (t_signal db)) \<and>
     distinct (map fst (t_fingerprint db)) \<and>
     (\<forall>(rid, pk)\<in>set (map fst (t_score db)). has_run rid db \<and> pk \<in> set (t_pubkey db)) \<and>
     (\<forall>(rid, pk, _)\<in>set (map fst (t_signal db)). has_run rid db \<and> pk \<in> set (t_pubkey db)) \<and>
     (\<forall>(rid, pk, _)\<in>set (map fst (t_fingerprint db)). has_run rid db \<and> pk \<in> set (t_pubkey db))"

text \<open>A database with one run, and a batch with two versions of a score.\<close>

definition example_run :: Run where
  "example_run = \<lparr> run_id = 1, started_at = 0, finished_at = None, max_lev_id_start = None, max_lev_id_end = None,
     last_cursor = None, config_json = ''{}'', status = ''running'' \<rparr>"

definition example_db :: "nat Database" where
  "example_db = bootstrap\<lparr> t_run := [example_run], t_run_seq := 1 \<rparr>"

definition example_score :: "string \<Rightarrow> nat \<Rightarrow> nat Persist" where
  "example_score pk v = \<lparr> p_run_id = 1, p_pubkey = pk, p_score = v, p_whitelisted = False, p_suspected = False,
     p_subscores = [\<lparr> ss_layer = ''L'', ss_value = v, ss_evidence = None \<rparr>] \<rparr>"

definition example_msgs :: "nat WriteMsg list" where
  "example_msgs = [Score (example_score ''b'' 1), Pubkeys [''a'', ''b''], Score (example_score ''b'' 2)]"

section \<open>Upserts\<close>

lemma add_keys_simps [simp]:
  "add_keys [] xs = xs"
  "add_keys (k # ks) xs = add_keys ks (if k \<in> set xs then xs else xs @ [k])"
  "add_keys (ks @ ks') xs = add_keys ks' (add_keys ks xs)"
  by (simp_all add: add_keys_def)

lemma set_add_keys [simp]: "set (add_keys ks xs) = set ks \<union> set xs"
  by (induction ks arbitrary: xs) auto

lemma distinct_add_keys [simp]: "distinct xs \<Longrightarrow> distinct (add_keys ks xs)"
  by (induction ks arbitrary: xs) auto

lemma add_keys_present: "set ks \<subseteq> set xs \<Longrightarrow> add_keys ks xs = xs"
  by (induction ks) auto

lemma upserts_simps [simp]:
  "upserts [] al = al"
  "upserts ((k, v) # kvs) al = upserts kvs (AList.update k v al)"
  "upserts (kvs @ kvs') al = upserts kvs' (upserts kvs al)"
  by (simp_all add: upserts_def)

lemma upserts_keys: "map fst (upserts kvs al) = add_keys (map fst kvs) (map fst al)"
proof (induction kvs arbitrary: al)
  case (Cons kv kvs)
  then show ?case
    by (cases kv) (simp add: update_keys)
qed simp

lemma upserts_map: "map_of (upserts kvs al) = map_of al ++ map_of (rev kvs)"
proof (induction kvs arbitrary: al)
  case (Cons kv kvs)
  then show ?case
    by (cases kv) (simp add: update_conv' map_add_upd_left map_add_def fun_eq_iff split: option.splits)
qed simp

lemma alist_eqI:
  assumes "map fst xs = map fst ys" "map_of xs = map_of ys" "distinct (map fst xs)"
  shows "xs = ys"
proof -
  have alist: "al = map (\<lambda>k. (k, the (map_of al k))) (map fst al)" if "distinct (map fst al)" for al :: "('a \<times> 'b) list"
    using that by (auto intro!: map_idI [symmetric] simp: comp_def)
  show ?thesis
    using alist [of xs] alist [of ys] assms by metis
qed

lemma upserts_idem: "distinct (map fst al) \<Longrightarrow> upserts kvs (upserts kvs al) = upserts kvs al"
  by (rule alist_eqI)
    (simp_all add: upserts_keys upserts_map add_keys_present map_add_def fun_eq_iff split: option.splits)

section \<open>A batch\<close>

lemma has_run_simps [simp]:
  "has_run rid (UPSERT_PUBKEY pk db) = has_run rid db"
  "has_run rid (db\<lparr> t_pubkey := a \<rparr>) = has_run rid db"
  "has_run rid (db\<lparr> t_score := b \<rparr>) = has_run rid db"
  "has_run rid (db\<lparr> t_signal := c \<rparr>) = has_run rid db"
  "has_run rid (db\<lparr> t_fingerprint := d \<rparr>) = has_run rid db"
  by (simp_all add: has_run_def UPSERT_PUBKEY_def)

lemma UPSERT_PUBKEY_keys: "UPSERT_PUBKEY pk db = db\<lparr> t_pubkey := add_keys [pk] (t_pubkey db) \<rparr>"
  by (simp add: UPSERT_PUBKEY_def)

lemma fold_UPSERT_PUBKEY: "fold UPSERT_PUBKEY pks db = db\<lparr> t_pubkey := add_keys pks (t_pubkey db) \<rparr>"
  by (induction pks arbitrary: db) (simp_all add: UPSERT_PUBKEY_keys)

lemma execute_signals:
  "has_run rid db \<Longrightarrow> pk \<in> set (t_pubkey db) \<Longrightarrow>
   execute_all (UPSERT_SIGNAL rid pk) ss db =
     Inr (db\<lparr> t_signal := upserts (map (\<lambda>s. ((rid, pk, ss_layer s), (ss_value s, ss_evidence s))) ss) (t_signal db) \<rparr>)"
  by (induction ss arbitrary: db) (simp_all add: UPSERT_SIGNAL_def)

lemma execute_fingerprints:
  "execute_all (\<lambda>fp db. UPSERT_FINGERPRINT fp (UPSERT_PUBKEY (fp_pubkey fp) db)) fps db =
     (if runs_exist [Fingerprints fps] db then Inr (apply_msgs [Fingerprints fps] db) else Inl ForeignKeyFailed)"
  by (induction fps arbitrary: db)
    (simp_all add: UPSERT_FINGERPRINT_def UPSERT_PUBKEY_keys runs_exist_def apply_msgs_def)

lemma process_msg_spec:
  "process_msg m db = (if runs_exist [m] db then Inr (apply_msgs [m] db) else Inl ForeignKeyFailed)"
proof (cases m)
  case (Score p)
  then show ?thesis
    by (simp add: UPSERT_SCORE_def UPSERT_PUBKEY_keys execute_signals runs_exist_def apply_msgs_def)
next
  case (Fingerprints fps)
  then show ?thesis
    by (simp only: process_msg.simps execute_fingerprints)
qed (simp_all add: fold_UPSERT_PUBKEY runs_exist_def apply_msgs_def)

lemma apply_msgs_Cons: "apply_msgs (m # ms) db = apply_msgs ms (apply_msgs [m] db)"
  by (simp add: apply_msgs_def)

lemma runs_exist_apply [simp]: "runs_exist ms (apply_msgs ms' db) = runs_exist ms db"
  by (simp add: runs_exist_def apply_msgs_def has_run_def)

lemma commit_batch_eq:
  "commit_batch ms db = (if runs_exist ms db then Inr (apply_msgs ms db) else Inl ForeignKeyFailed)"
proof (induction ms arbitrary: db)
  case (Cons m ms)
  have "runs_exist (m # ms) db \<longleftrightarrow> runs_exist [m] db \<and> runs_exist ms db"
    by (simp add: runs_exist_def)
  then show ?case
    using Cons by (simp add: commit_batch_def process_msg_spec apply_msgs_Cons [of m ms])
qed (simp add: commit_batch_def runs_exist_def apply_msgs_def)

lemma commit_batch_append:
  "commit_batch (ms @ ms') db = bind_r (commit_batch ms db) (commit_batch ms')"
proof (induction ms arbitrary: db)
  case (Cons m ms)
  then show ?case
    by (cases "process_msg m db") (simp_all add: commit_batch_def)
qed (simp add: commit_batch_def)

lemma rows_refer:
  "((rid, pk), v) \<in> set (msg_scores m) \<Longrightarrow> rid \<in> set (msg_runs m) \<and> pk \<in> set (msg_pubkeys m)"
  "((rid, pk, l), s) \<in> set (msg_signals m) \<Longrightarrow> rid \<in> set (msg_runs m) \<and> pk \<in> set (msg_pubkeys m)"
  "((rid, pk, h), x) \<in> set (msg_fingerprints m) \<Longrightarrow> rid \<in> set (msg_runs m) \<and> pk \<in> set (msg_pubkeys m)"
  by (cases m; force)+

lemma apply_msgs_inv:
  assumes inv: "db_inv db" and runs: "runs_exist ms db"
  shows "db_inv (apply_msgs ms db)"
proof -
  have run: "has_run rid db" if "m \<in> set ms" "rid \<in> set (msg_runs m)" for m rid
    using runs that by (auto simp: runs_exist_def list_all_iff)
  have [simp]: "has_run rid (apply_msgs ms db) = has_run rid db" for rid
    by (simp add: apply_msgs_def has_run_def)
  have "\<forall>(rid, pk)\<in>set (map fst (t_score (apply_msgs ms db))).
      has_run rid db \<and> pk \<in> set (t_pubkey (apply_msgs ms db))"
    using inv rows_refer(1) run unfolding upserts_keys apply_msgs_def db_inv_def by (fastforce simp: upserts_keys)
  moreover have "\<forall>(rid, pk, _)\<in>set (map fst (t_signal (apply_msgs ms db))).
      has_run rid db \<and> pk \<in> set (t_pubkey (apply_msgs ms db))"
    using inv rows_refer(2) run unfolding upserts_keys apply_msgs_def db_inv_def by (fastforce simp: upserts_keys)
  moreover have "\<forall>(rid, pk, _)\<in>set (map fst (t_fingerprint (apply_msgs ms db))).
      has_run rid db \<and> pk \<in> set (t_pubkey (apply_msgs ms db))"
    using inv rows_refer(3) run unfolding upserts_keys apply_msgs_def db_inv_def by (fastforce simp: upserts_keys)
  ultimately show ?thesis
    using inv unfolding db_inv_def by (simp add: apply_msgs_def upserts_keys del: set_map)
qed

section \<open>Updates of run rows\<close>

text \<open>An update that keeps the key of the row, and what the statements built from one promise.\<close>

locale run_update =
  fixes f :: "Run \<Rightarrow> Run"
  assumes keeps_id: "run_id (f r) = run_id r"
begin

lemma update_ids: "map run_id (t_run (update_run f rid db)) = map run_id (t_run db)"
  by (simp add: update_run_def keeps_id cong: if_cong)

lemma update_has_run: "has_run r (update_run f rid db) = has_run r db"
  using arg_cong [where f = set, OF update_ids [of rid db]] by (simp add: has_run_def)

lemma update_inv:
  assumes "db_inv db"
  shows "db_inv (update_run f rid db)"
proof -
  have "run_id ` set (t_run (update_run f rid db)) = run_id ` set (t_run db)"
    using arg_cong [where f = set, OF update_ids [of rid db]] by simp
  then have "\<forall>r\<in>set (t_run (update_run f rid db)). run_id r \<le> t_run_seq db"
    using assms unfolding db_inv_def by (metis (no_types, lifting) imageE image_eqI)
  moreover have "t_run_seq (update_run f rid db) = t_run_seq db" "t_pubkey (update_run f rid db) = t_pubkey db"
    "t_score (update_run f rid db) = t_score db" "t_signal (update_run f rid db) = t_signal db"
    "t_fingerprint (update_run f rid db) = t_fingerprint db"
    by (simp_all add: update_run_def)
  ultimately show ?thesis
    using assms unfolding db_inv_def update_ids update_has_run by simp
qed

end

interpretation cursor_update: run_update "\<lambda>r. r\<lparr> last_cursor := c \<rparr>" for c
  by unfold_locales simp

interpretation start_update: run_update "\<lambda>r. r\<lparr> max_lev_id_start := v \<rparr>" for v
  by unfold_locales simp

interpretation end_update: run_update "\<lambda>r. r\<lparr> max_lev_id_end := v \<rparr>" for v
  by unfold_locales simp

interpretation config_update: run_update "\<lambda>r. r\<lparr> config_json := c \<rparr>" for c
  by unfold_locales simp

interpretation abort_update: run_update "\<lambda>r. r\<lparr> status := s, finished_at := v \<rparr>" for s v
  by unfold_locales simp

interpretation done_update: run_update "\<lambda>r. r\<lparr> status := s, finished_at := v, max_lev_id_end := m \<rparr>" for s v m
  by unfold_locales simp

lemmas run_ops = set_run_cursor_def set_run_max_lev_start_def set_run_max_lev_end_def set_run_config_json_def
  mark_run_aborted_def

lemmas run_ops_inv = cursor_update.update_inv start_update.update_inv end_update.update_inv config_update.update_inv
  abort_update.update_inv done_update.update_inv

lemmas run_ops_has_run = cursor_update.update_has_run start_update.update_has_run end_update.update_has_run
  config_update.update_has_run abort_update.update_has_run done_update.update_has_run

lemma begin_run_inv:
  assumes "db_inv db" "begin_run now config db = Inr (rid, db')"
  shows "db_inv db'"
proof -
  have db': "t_run db' = t_run db @ [\<lparr> run_id = rid, started_at = now, finished_at = None, max_lev_id_start = None,
      max_lev_id_end = None, last_cursor = None, config_json = config, status = ''running'' \<rparr>]"
    "rid = t_run_seq db + 1" "t_run_seq db' = rid" "t_pubkey db' = t_pubkey db" "t_score db' = t_score db"
    "t_signal db' = t_signal db" "t_fingerprint db' = t_fingerprint db"
    using assms(2) by (auto simp: begin_run_def Let_def split: if_splits)
  have "has_run r db \<Longrightarrow> has_run r db'" for r
    by (auto simp: has_run_def db'(1))
  then show ?thesis
    using assms(1) unfolding db_inv_def db'(3-7) by (fastforce simp: db'(1,2) sorted_wrt_append)
qed

lemma commit_batch_inv: "db_inv db \<Longrightarrow> commit_batch ms db = Inr db' \<Longrightarrow> db_inv db'"
  using apply_msgs_inv [of db ms] by (simp add: commit_batch_eq split: if_splits)

lemma mark_run_done_inv: "db_inv db \<Longrightarrow> mark_run_done now rid m db = Inr db' \<Longrightarrow> db_inv db'"
  using run_ops_inv by (auto simp: mark_run_done_def split: if_splits)

lemma bootstrap_inv: "db_inv bootstrap"
  by (simp add: db_inv_def bootstrap_def)

lemma example_db_inv: "db_inv example_db"
  by (simp add: db_inv_def example_db_def bootstrap_def example_run_def)

lemma example_commit: "\<exists>db. commit_batch example_msgs example_db = Inr db"
  by (simp add: commit_batch_eq runs_exist_def example_msgs_def example_db_def bootstrap_def has_run_def
      example_score_def example_run_def)

section \<open>Turns of the writer\<close>

lemma writer_turn_ok:
  assumes "runs_exist (s_queue s) (s_db s)"
  shows "writer_turn n s = s\<lparr> s_db := apply_msgs (take n (s_queue s)) (s_db s), s_queue := drop n (s_queue s) \<rparr>"
proof -
  have "runs_exist (take n (s_queue s)) (s_db s)"
    using assms by (auto simp: runs_exist_def list_all_iff dest: in_set_takeD)
  then show ?thesis
    by (simp add: writer_turn_def commit_batch_eq)
qed

lemma apply_msgs_append: "apply_msgs (ms @ ms') db = apply_msgs ms' (apply_msgs ms db)"
  by (simp add: apply_msgs_def)

section \<open>Properties\<close>

text \<open>
  A batch is one transaction: it commits exactly when every run it refers to exists, and then the
  pubkey table gains the new keys in order and every other table holds, per key, the last row written;
  otherwise nothing is written.
\<close>

theorem commit_batch_spec:
  "commit_batch ms db =
     (if list_all (\<lambda>rid. has_run rid db) (concat (map msg_runs ms))
      then Inr (apply_msgs ms db) else Inl ForeignKeyFailed) \<and>
   map_of (t_score (apply_msgs ms db)) = map_of (t_score db) ++ map_of (rev (concat (map msg_scores ms))) \<and>
   map_of (t_signal (apply_msgs ms db)) = map_of (t_signal db) ++ map_of (rev (concat (map msg_signals ms))) \<and>
   map_of (t_fingerprint (apply_msgs ms db)) =
     map_of (t_fingerprint db) ++ map_of (rev (concat (map msg_fingerprints ms))) \<and>
   set (t_pubkey (apply_msgs ms db)) = set (t_pubkey db) \<union> set (concat (map msg_pubkeys ms))"
  unfolding commit_batch_eq runs_exist_def by (simp add: apply_msgs_def upserts_map Un_commute)

text \<open>
  C26: how the writer cuts its queue into batches does not matter: after turns that consume the whole
  queue, the database is the one a single transaction over all messages would have produced.
\<close>

theorem writer_batching:
  assumes "runs_exist (s_queue s) (s_db s)" "sum_list ns = length (s_queue s)"
  shows "fold writer_turn ns s = s\<lparr> s_db := apply_msgs (s_queue s) (s_db s), s_queue := [] \<rparr>"
  using assms
proof (induction ns arbitrary: s)
  case Nil
  then show ?case
    by (simp add: apply_msgs_def)
next
  case (Cons n ns)
  let ?s = "writer_turn n s"
  have s: "?s = s\<lparr> s_db := apply_msgs (take n (s_queue s)) (s_db s), s_queue := drop n (s_queue s) \<rparr>"
    by (rule writer_turn_ok [OF Cons.prems(1)])
  have "runs_exist (s_queue ?s) (s_db ?s)"
    using Cons.prems(1) unfolding s by (auto simp: runs_exist_def list_all_iff apply_msgs_def has_run_def dest: in_set_dropD)
  moreover have "sum_list ns = length (s_queue ?s)"
    using Cons.prems(2) by (simp add: s)
  ultimately show ?case
    using Cons.IH [of ?s] by (simp add: s apply_msgs_append [symmetric])
qed

text \<open>
  Replaying is harmless: committing a batch a second time, as a run that was interrupted after its
  commit does, leaves the database as it is, row for row.
\<close>

theorem commit_batch_idempotent:
  assumes "db_inv db" "commit_batch ms db = Inr db'"
  shows "commit_batch ms db' = Inr db'"
proof -
  have db': "runs_exist ms db" "db' = apply_msgs ms db"
    using assms(2) by (simp_all add: commit_batch_eq split: if_splits)
  have "apply_msgs ms db' = db'"
    using assms(1) unfolding db'(2) by (simp add: apply_msgs_def db_inv_def upserts_idem add_keys_present)
  then show ?thesis
    using db' by (simp add: commit_batch_eq)
qed

text \<open>
  C27: the invariant of the store: row keys are unique, run ids ascend, and every score, signal and
  fingerprint row refers to an existing run and pubkey; the bootstrap establishes it and every operation
  that writes keeps it.
\<close>

theorem store_invariant:
  assumes "db_inv db"
  shows "db_inv (bootstrap :: 'f Database) \<and>
    (\<forall>rid db'. begin_run now config db = Inr (rid, db') \<longrightarrow> db_inv db') \<and>
    (\<forall>db'. commit_batch ms db = Inr db' \<longrightarrow> db_inv db') \<and>
    (\<forall>db'. mark_run_done now rid m db = Inr db' \<longrightarrow> db_inv db') \<and>
    db_inv (set_run_cursor rid c db) \<and> db_inv (set_run_max_lev_start rid v db) \<and>
    db_inv (set_run_max_lev_end rid v db) \<and> db_inv (set_run_config_json rid config db) \<and>
    db_inv (mark_run_aborted now rid db)"
  using assms bootstrap_inv begin_run_inv commit_batch_inv mark_run_done_inv run_ops_inv by (auto simp: run_ops)

text \<open>
  Resuming picks the newest run that is not done: \<^verbatim>\<open>latest_unfinished_run\<close> returns the unfinished run
  with the greatest id, and none exactly when every run is done.
\<close>

theorem latest_unfinished_spec:
  assumes "db_inv db"
  shows "latest_unfinished_run db = Some r \<longleftrightarrow>
    r \<in> set (t_run db) \<and> status r \<noteq> ''done'' \<and>
    (\<forall>r'\<in>set (t_run db). status r' \<noteq> ''done'' \<longrightarrow> run_id r' \<le> run_id r)"
proof -
  have "sorted_wrt (\<lambda>a b. run_id a < run_id b) (t_run db)"
    using assms by (simp add: db_inv_def sorted_wrt_map)
  then have find: "find P (rev (t_run db)) = Some r \<longleftrightarrow>
      r \<in> set (t_run db) \<and> P r \<and> (\<forall>r'\<in>set (t_run db). P r' \<longrightarrow> run_id r' \<le> run_id r)" for P
  proof (induction "t_run db" arbitrary: db rule: rev_induct)
    case (snoc x xs)
    have IH: "find P (rev xs) = Some r \<longleftrightarrow> r \<in> set xs \<and> P r \<and> (\<forall>r'\<in>set xs. P r' \<longrightarrow> run_id r' \<le> run_id r)"
      using snoc(1) [of "db\<lparr> t_run := xs \<rparr>"] snoc(3) by (simp add: snoc(2) [symmetric] sorted_wrt_append)
    have below: "\<forall>y\<in>set xs. run_id y < run_id x"
      using snoc(3) by (simp add: snoc(2) [symmetric] sorted_wrt_append)
    show ?case
      unfolding snoc(2) [symmetric] using IH below by (auto simp: less_imp_le dest: leD)
  qed simp
  show ?thesis
    unfolding latest_unfinished_run_def by (rule find)
qed

theorem writer_batching_witness:
  "fold writer_turn [1, 2] ((open_store example_db)\<lparr> s_queue := example_msgs \<rparr>) =
     (open_store (apply_msgs example_msgs example_db)) \<and>
   t_pubkey (apply_msgs example_msgs example_db) = [''b'', ''a'']"
proof -
  let ?s = "(open_store example_db)\<lparr> s_queue := example_msgs \<rparr>"
  have "runs_exist (s_queue ?s) (s_db ?s)" "sum_list [1, 2] = length (s_queue ?s)"
    by (simp_all add: open_store_def runs_exist_def example_msgs_def example_db_def bootstrap_def has_run_def
        example_score_def example_run_def)
  then show ?thesis
    using writer_batching [of ?s "[1, 2]"]
    by (simp add: open_store_def apply_msgs_def example_msgs_def example_db_def bootstrap_def example_score_def)
qed

theorem commit_batch_idempotent_witness:
  "\<exists>db. commit_batch example_msgs example_db = Inr db \<and> commit_batch example_msgs db = Inr db"
  using example_commit commit_batch_idempotent [OF example_db_inv] by blast

theorem store_invariant_witness: "\<exists>db'. commit_batch example_msgs example_db = Inr db' \<and> db_inv db'"
  using store_invariant [OF example_db_inv, of 0 "[]" example_msgs] example_commit by blast

theorem latest_unfinished_spec_witness: "latest_unfinished_run example_db = Some example_run"
  using latest_unfinished_spec [OF example_db_inv, of example_run]
  by (simp add: example_db_def bootstrap_def example_run_def)

end
