(* ===== verification/NearDuplicate.thy ===== *)
theory NearDuplicate
  imports LayerBase HunterStore "HOL-Library.Multiset"
begin

text \<open>
  \<^verbatim>\<open>spamhunter/pubkey_iterator/src/detect/near_duplicate.rs\<close>: the SimHash of an event's shingles, the
  union-find that counts the clusters of near-duplicates, and the layer built from them.  The two loops
  of \<^verbatim>\<open>find\<close> follow the parent array until it ends, so they are partial: \<^const>\<open>None\<close> is a loop without an
  end or an index out of range, and that neither happens is proved.
\<close>

unbundle bit_operations_syntax

section \<open>Hashes\<close>

definition fnv1a64 :: "bytes \<Rightarrow> u64" where
  "fnv1a64 bs = fold (\<lambda>b h. (h XOR ucast b) * 0x100000001b3) bs 0xcbf29ce484222325"

text \<open>One shingle added to the 64 accumulators, which are \<^verbatim>\<open>i32\<close> and wrap as in a release build.\<close>

definition add_shingle :: "string \<Rightarrow> i32 list \<Rightarrow> i32 list" where
  "add_shingle s acc =
     (let h = fnv1a64 (as_bytes s)
      in map (\<lambda>(i, slot). if drop_bit i h AND 1 = 1 then slot + 1 else slot - 1) (zip [0..<64] acc))"

definition simhash64 :: "string list \<Rightarrow> u64" where
  "simhash64 shingles =
     (let acc = fold add_shingle shingles (replicate 64 0)
      in fold (\<lambda>(i, a) out. if 0 <s a then out OR push_bit i 1 else out) (zip [0..<64] acc) 0)"

definition hamming64 :: "u64 \<Rightarrow> u64 \<Rightarrow> nat" where
  "hamming64 a b = length (filter (bit (a XOR b)) [0..<64])"

definition normalize :: "text_ops \<Rightarrow> string \<Rightarrow> string" where
  "normalize T content = join '' '' (tx_split_whitespace T (tx_to_lowercase T (tx_trim T content)))"

definition windows :: "nat \<Rightarrow> 'a list \<Rightarrow> 'a list list" where
  "windows k xs = map (\<lambda>i. take k (drop i xs)) [0..<length xs + 1 - k]"

definition shingles_of :: "text_ops \<Rightarrow> string \<Rightarrow> nat \<Rightarrow> string list" where
  "shingles_of T normalized shingle_size =
     (let words = tx_unicode_words T normalized
      in if length words < shingle_size \<or> shingle_size = 0 then [normalized]
         else map (join '' '') (windows shingle_size words))"

section \<open>Clusters\<close>

partial_function (option) find_root :: "nat list \<Rightarrow> nat \<Rightarrow> nat option" where
  "find_root parent r =
     (if length parent \<le> r then None
      else if parent ! r \<noteq> r then find_root parent (parent ! r) else Some r)"

partial_function (option) compress :: "nat list \<Rightarrow> nat \<Rightarrow> nat \<Rightarrow> nat list option" where
  "compress parent r c =
     (if length parent \<le> c then None
      else if parent ! c \<noteq> r then compress (parent[c := r]) r (parent ! c) else Some parent)"

definition find_set :: "nat list \<Rightarrow> nat \<Rightarrow> (nat \<times> nat list) option" where
  "find_set parent x =
     Option.bind (find_root parent x) (\<lambda>r.
     Option.bind (compress parent r x) (\<lambda>parent. Some (r, parent)))"

definition unite :: "nat \<Rightarrow> nat \<Rightarrow> nat list \<Rightarrow> nat list option" where
  "unite i j parent =
     Option.bind (find_set parent i) (\<lambda>(ri, parent).
     Option.bind (find_set parent j) (\<lambda>(rj, parent).
     Some (if ri \<noteq> rj then parent[ri := rj] else parent)))"

text \<open>The pairs of the two nested loops, in their order.\<close>

definition index_pairs :: "nat \<Rightarrow> (nat \<times> nat) list" where
  "index_pairs n = concat (map (\<lambda>i. map (Pair i) [i + 1..<n]) [0..<n])"

definition near :: "u64 list \<Rightarrow> u32 \<Rightarrow> nat \<times> nat \<Rightarrow> bool" where
  "near simhashes threshold = (\<lambda>(i, j). hamming64 (simhashes ! i) (simhashes ! j) \<le> unat threshold)"

fun union_loop :: "u64 list \<Rightarrow> u32 \<Rightarrow> (nat \<times> nat) list \<Rightarrow> nat list \<Rightarrow> nat list option" where
  "union_loop simhashes threshold [] parent = Some parent"
| "union_loop simhashes threshold ((i, j) # ps) parent =
     (if near simhashes threshold (i, j)
      then Option.bind (unite i j parent) (union_loop simhashes threshold ps)
      else union_loop simhashes threshold ps parent)"

text \<open>The members counted per root; the \<^verbatim>\<open>HashMap\<close> is an association list, of which only the values count.\<close>

fun size_loop :: "nat list \<Rightarrow> nat list \<Rightarrow> (nat \<times> nat) list \<Rightarrow> (nat \<times> nat) list option" where
  "size_loop [] parent sizes = Some sizes"
| "size_loop (i # is) parent sizes =
     Option.bind (find_set parent i) (\<lambda>(r, parent). size_loop is parent (AList.map_default r 1 Suc sizes))"

definition count_clusters :: "u64 list \<Rightarrow> u32 \<Rightarrow> nat option" where
  "count_clusters simhashes threshold =
     (let n = length simhashes
      in Option.bind (union_loop simhashes threshold (index_pairs n) [0..<n]) (\<lambda>parent.
         Option.bind (size_loop [0..<n] parent []) (\<lambda>sizes.
         Some (length (filter (\<lambda>(r, s). 2 \<le> s) sizes)))))"

section \<open>The layer\<close>

record NearDuplicateLayer =
  nd_hamming_threshold :: u32
  nd_shingle_size :: nat
  nd_min_events :: nat

definition fingerprint_of :: "text_ops \<Rightarrow> NearDuplicateLayer \<Rightarrow> string \<Rightarrow> u64 \<times> u64" where
  "fingerprint_of T ly content =
     (let norm = normalize T content
      in (fnv1a64 (as_bytes norm), simhash64 (shingles_of T norm (nd_shingle_size ly))))"

fun mark_pairs :: "u64 list \<Rightarrow> u32 \<Rightarrow> (nat \<times> nat) list \<Rightarrow> bool list \<Rightarrow> bool list" where
  "mark_pairs simhashes threshold [] in_cluster = in_cluster"
| "mark_pairs simhashes threshold ((i, j) # ps) in_cluster =
     mark_pairs simhashes threshold ps
       (if near simhashes threshold (i, j) then in_cluster[i := True, j := True] else in_cluster)"

definition repeated_ratio :: "'f f64 \<Rightarrow> text_ops \<Rightarrow> NearDuplicateLayer \<Rightarrow> ClientEvent list \<Rightarrow> ('f \<times> nat) option" where
  "repeated_ratio F T ly events =
     (let n = length events
      in if n < nd_min_events ly then Some (f_lit F 0, 0)
         else let simhashes = map (\<lambda>e. snd (fingerprint_of T ly (ce_content e))) events;
                  in_cluster = mark_pairs simhashes (nd_hamming_threshold ly) (index_pairs n) (replicate n False);
                  clustered = length (filter id in_cluster)
              in Option.bind (count_clusters simhashes (nd_hamming_threshold ly)) (\<lambda>clusters.
                 Some (f_div F (f_of_nat F clustered) (f_of_nat F n), clusters)))"

fun fingerprints_loop :: "text_ops \<Rightarrow> NearDuplicateLayer \<Rightarrow> int \<Rightarrow> string \<Rightarrow> ClientEvent list \<Rightarrow> u64 set \<Rightarrow> Fingerprint list" where
  "fingerprints_loop T ly rid pubkey [] seen = []"
| "fingerprints_loop T ly rid pubkey (e # events) seen =
     (case fingerprint_of T ly (ce_content e) of
        (content_hash, simhash) \<Rightarrow>
          if content_hash \<in> seen then fingerprints_loop T ly rid pubkey events seen
          else \<lparr> fp_run_id = rid, fp_pubkey = pubkey, fp_content_hash = content_hash, fp_simhash = simhash,
                 fp_minhash = None \<rparr> # fingerprints_loop T ly rid pubkey events (insert content_hash seen))"

definition fingerprints :: "text_ops \<Rightarrow> NearDuplicateLayer \<Rightarrow> int \<Rightarrow> string \<Rightarrow> ClientEvent list \<Rightarrow> Fingerprint list" where
  "fingerprints T ly rid pubkey events =
     (if length events < nd_min_events ly then [] else fingerprints_loop T ly rid pubkey events {})"

definition near_duplicate_score :: "'f f64 \<Rightarrow> text_ops \<Rightarrow> NearDuplicateLayer \<Rightarrow> ClientEvent list \<Rightarrow> bool \<Rightarrow> 'f LayerOutput option" where
  "near_duplicate_score F T ly events whitelisted =
     (if length events < nd_min_events ly
      then Some \<lparr> lo_value = f_lit F 0,
             lo_evidence = JObject [(''reason'', JString ''below_min_events''), (''events'', JUsize (length events))] \<rparr>
      else Option.bind (repeated_ratio F T ly events) (\<lambda>(ratio, clusters).
             let value = f_clamp F ratio (f_lit F 0) (f_lit F 1)
             in Some \<lparr> lo_value = value,
                  lo_evidence = JObject [(''repeated_ratio'', JF64 value), (''clusters'', JUsize clusters),
                    (''events'', JUsize (length events))] \<rparr>))"

definition near_duplicate_layer :: "'f f64 \<Rightarrow> text_ops \<Rightarrow> NearDuplicateLayer \<Rightarrow> 'f Layer" where
  "near_duplicate_layer F T ly = \<lparr> ly_name = ''L1_near_duplicate'', ly_score = near_duplicate_score F T ly \<rparr>"

section \<open>Forests\<close>

text \<open>A parent array without cycles, as a measure that falls towards the roots.\<close>

definition forest :: "(nat \<Rightarrow> nat) \<Rightarrow> nat list \<Rightarrow> bool" where
  "forest d p \<longleftrightarrow> (\<forall>i<length p. p ! i < length p \<and> (p ! i \<noteq> i \<longrightarrow> d (p ! i) < d i))"

lemma forestD: "forest d p \<Longrightarrow> i < length p \<Longrightarrow> p ! i < length p"
  "forest d p \<Longrightarrow> i < length p \<Longrightarrow> p ! i \<noteq> i \<Longrightarrow> d (p ! i) < d i"
  by (simp_all add: forest_def)

lemma find_root_step: "x < length p \<Longrightarrow> find_root p x = (if p ! x = x then Some x else find_root p (p ! x))"
  by (subst find_root.simps) simp

lemma find_root_total:
  assumes "forest d p" "x < length p"
  obtains r where "find_root p x = Some r" "r < length p" "p ! r = r" "d r \<le> d x"
  using assms(2)
proof (induction "d x" arbitrary: x thesis rule: less_induct)
  case less
  show ?case
  proof (cases "p ! x = x")
    case True
    then show ?thesis
      using less.prems by (auto simp: find_root_step [of x])
  next
    case False
    then show ?thesis
      using less.hyps [of "p ! x"] less.prems forestD [OF assms(1) less.prems(2)]
      by (metis find_root_step less_imp_le order_trans)
  qed
qed

lemma find_root_root:
  assumes "forest d p" "x < length p" "find_root p x = Some r"
  shows "r < length p" "p ! r = r" "d r \<le> d x" "find_root p r = Some r"
proof -
  obtain s where s: "find_root p x = Some s" "s < length p" "p ! s = s" "d s \<le> d x"
    using find_root_total [OF assms(1,2)] .
  then have "s = r"
    using assms(3) by simp
  then show "r < length p" "p ! r = r" "d r \<le> d x" "find_root p r = Some r"
    using s by (simp_all add: find_root_step [of r])
qed

text \<open>Two arrays with the same roots, by induction along the measure.\<close>

lemma find_root_cong:
  assumes "forest d p" "x < length p"
    and step: "\<And>x. x < length p \<Longrightarrow> p ! x \<noteq> x \<Longrightarrow> find_root q (p ! x) = f (find_root p (p ! x)) \<Longrightarrow> find_root q x = f (find_root p x)"
    and root: "\<And>x. x < length p \<Longrightarrow> p ! x = x \<Longrightarrow> find_root q x = f (Some x)"
  shows "find_root q x = f (find_root p x)"
  using assms(2)
proof (induction "d x" arbitrary: x rule: less_induct)
  case less
  show ?case
  proof (cases "p ! x = x")
    case True
    then show ?thesis
      using root [OF less.prems] less.prems by (simp add: find_root_step [of x])
  next
    case False
    then show ?thesis
      using step [OF less.prems False] less.hyps forestD [OF assms(1) less.prems] False by blast
  qed
qed

lemma shortcut:
  assumes p: "forest d p" "c < length p" "find_root p c = Some r" "p ! c \<noteq> r"
  shows "forest d (p[c := r])" "\<And>x. x < length p \<Longrightarrow> find_root (p[c := r]) x = find_root p x"
    "d (p ! c) < d c" "p ! c < length p" "find_root p (p ! c) = Some r"
proof -
  note r = find_root_root [OF p(1-3)]
  have c: "p ! c \<noteq> c"
    using p(2-4) by (auto simp: find_root_step [of c])
  show pc: "d (p ! c) < d c" "p ! c < length p" "find_root p (p ! c) = Some r"
    using forestD [OF p(1,2)] c p(3) by (simp_all add: find_root_step [OF p(2)])
  have rc: "r \<noteq> c"
    using c r(2) by auto
  have "d r < d c"
    using find_root_root(3) [OF p(1) pc(2,3)] pc(1) by simp
  then have "(p[c := r]) ! i < length p \<and> ((p[c := r]) ! i \<noteq> i \<longrightarrow> d ((p[c := r]) ! i) < d i)" if "i < length p" for i
    using forestD [OF p(1) that] r(1) that by (cases "i = c") simp_all
  then show "forest d (p[c := r])"
    by (simp add: forest_def)
  have rr: "find_root (p[c := r]) r = Some r"
    using r rc by (simp add: find_root_step [of r])
  show "find_root (p[c := r]) x = find_root p x" if "x < length p" for x
  proof (rule find_root_cong [where f = "\<lambda>x. x", OF p(1) that])
    fix y assume "y < length p" "p ! y \<noteq> y" "find_root (p[c := r]) (p ! y) = find_root p (p ! y)"
    then show "find_root (p[c := r]) y = find_root p y"
      using rr p(3) by (cases "y = c") (simp_all add: find_root_step [of c "p[c := r]"] find_root_step [of y] rc)
  next
    fix y assume "y < length p" "p ! y = y"
    then show "find_root (p[c := r]) y = Some y"
      using c by (cases "y = c") (simp_all add: find_root_step [of y])
  qed
qed

lemma compress_spec:
  assumes "forest d p" "c < length p" "find_root p c = Some r"
  obtains q where "compress p r c = Some q" "length q = length p" "forest d q"
    "\<And>x. x < length p \<Longrightarrow> find_root q x = find_root p x"
  using assms
proof (induction "d c" arbitrary: c p thesis rule: less_induct)
  case less
  show ?case
  proof (cases "p ! c = r")
    case True
    then have "compress p r c = Some p"
      using less.prems(3) by (subst compress.simps) simp
    then show ?thesis
      using less.prems by blast
  next
    case False
    note cut = shortcut [OF less.prems(2-4) False]
    obtain q where q: "compress (p[c := r]) r (p ! c) = Some q" "length q = length p" "forest d q"
      "\<And>x. x < length p \<Longrightarrow> find_root q x = find_root (p[c := r]) x"
      using less.hyps [OF cut(3), of "p[c := r]"] cut by auto
    moreover have "compress p r c = compress (p[c := r]) r (p ! c)"
      using less.prems(3) False by (subst compress.simps) simp
    ultimately show ?thesis
      using less.prems(1) [of q] cut(2) by simp
  qed
qed

lemma find_set_spec:
  assumes "forest d p" "x < length p"
  obtains r q where "find_set p x = Some (r, q)" "find_root p x = Some r" "length q = length p" "forest d q"
    "\<And>y. y < length p \<Longrightarrow> find_root q y = find_root p y"
proof -
  obtain r where r: "find_root p x = Some r"
    using find_root_total [OF assms] by blast
  obtain q where "compress p r x = Some q" "length q = length p" "forest d q"
    "\<And>y. y < length p \<Longrightarrow> find_root q y = find_root p y"
    using compress_spec [OF assms r] by blast
  then show ?thesis
    using that [of r q] r by (simp add: find_set_def)
qed

lemma link_roots:
  assumes p: "forest d p" and roots: "a < length p" "p ! a = a" "b < length p" "p ! b = b" "a \<noteq> b"
  shows "\<exists>d'. forest d' (p[a := b])"
    "\<And>x. x < length p \<Longrightarrow> find_root (p[a := b]) x = (if find_root p x = Some a then Some b else find_root p x)"
proof -
  have ab: "find_root p a = Some a" "find_root p b = Some b"
    using roots by (simp_all add: find_root_step [of a] find_root_step [of b])
  let ?d = "\<lambda>x. d x + (if find_root p x = Some a then d b + 1 else 0)"
  have "find_root p (p ! i) = find_root p i" if "i < length p" for i
    using that by (cases "p ! i = i") (simp_all add: find_root_step [of i])
  then have "forest ?d (p[a := b])"
    using p roots ab by (auto simp: forest_def nth_list_update)
  then show "\<exists>d'. forest d' (p[a := b])"
    by blast
  have bb: "find_root (p[a := b]) b = Some b"
    using roots by (simp add: find_root_step [of b])
  show "find_root (p[a := b]) x = (if find_root p x = Some a then Some b else find_root p x)" if "x < length p" for x
  proof (rule find_root_cong [where f = "\<lambda>v. if v = Some a then Some b else v", OF p that])
    fix y assume "y < length p" "p ! y \<noteq> y"
      "find_root (p[a := b]) (p ! y) = (if find_root p (p ! y) = Some a then Some b else find_root p (p ! y))"
    then show "find_root (p[a := b]) y = (if find_root p y = Some a then Some b else find_root p y)"
      using roots by (cases "y = a") (simp_all add: find_root_step [of y])
  next
    fix y assume "y < length p" "p ! y = y"
    then show "find_root (p[a := b]) y = (if Some y = Some a then Some b else Some y)"
      using roots bb by (cases "y = a") (simp_all add: find_root_step [of a] find_root_step [of y "p[a := b]"])
  qed
qed

section \<open>Partitions\<close>

text \<open>The equivalence that a set of edges generates, and its classes on the indices below \<open>n\<close>.\<close>

definition linked :: "(nat \<times> nat) set \<Rightarrow> (nat \<times> nat) set" where
  "linked E = (E \<union> E\<inverse>)\<^sup>*"

definition components :: "nat \<Rightarrow> (nat \<times> nat) set \<Rightarrow> nat set set" where
  "components n E = {..<n} // {(x, y). x < n \<and> y < n \<and> (x, y) \<in> linked E}"

definition partitions :: "nat \<Rightarrow> (nat \<times> nat) set \<Rightarrow> nat list \<Rightarrow> bool" where
  "partitions n E p \<longleftrightarrow> length p = n \<and> (\<exists>d. forest d p) \<and>
     (\<forall>x<n. \<forall>y<n. find_root p x = find_root p y \<longleftrightarrow> (x, y) \<in> linked E)"

lemma linked_sym: "(x, y) \<in> linked E \<longleftrightarrow> (y, x) \<in> linked E"
  unfolding linked_def by (metis converse_Un converse_converse rtrancl_converseD Un_commute converse_iff)

lemma linked_trans: "(x, y) \<in> linked E \<Longrightarrow> (y, z) \<in> linked E \<Longrightarrow> (x, z) \<in> linked E"
  unfolding linked_def by (rule rtrancl_trans)

lemma linked_refl [simp]: "(x, x) \<in> linked E"
  by (simp add: linked_def)

lemma linked_edge: "(x, y) \<in> E \<Longrightarrow> (x, y) \<in> linked E"
  by (auto simp: linked_def)

lemma linked_mono: "E \<subseteq> E' \<Longrightarrow> linked E \<subseteq> linked E'"
  unfolding linked_def by (rule rtrancl_mono) auto

lemma linked_insert:
  "(x, y) \<in> linked (insert (i, j) E) \<longleftrightarrow>
     (x, y) \<in> linked E \<or> (x, i) \<in> linked E \<and> (j, y) \<in> linked E \<or>
     (x, j) \<in> linked E \<and> (i, y) \<in> linked E" (is "_ \<longleftrightarrow> ?R y")
proof
  assume "(x, y) \<in> linked (insert (i, j) E)"
  then have "(x, y) \<in> (insert (i, j) E \<union> (insert (i, j) E)\<inverse>)\<^sup>*"
    by (simp add: linked_def)
  then show "?R y"
  proof (induction rule: rtrancl_induct)
    case (step y z)
    have "(y, z) = (i, j) \<or> (y, z) = (j, i) \<or> (y, z) \<in> linked E"
      using step.hyps(2) by (auto simp: linked_def)
    then show ?case
      using step.IH by (metis linked_refl linked_trans prod.inject)
  qed simp
next
  have mono: "linked E \<subseteq> linked (insert (i, j) E)"
    by (rule linked_mono) blast
  have edge: "(i, j) \<in> linked (insert (i, j) E)" "(j, i) \<in> linked (insert (i, j) E)"
    by (simp_all add: linked_edge linked_sym [of j i])
  assume "?R y"
  then show "(x, y) \<in> linked (insert (i, j) E)"
    using mono edge by (meson linked_trans subsetD)
qed

lemma unite_spec:
  assumes "partitions n E p" "i < n" "j < n"
  obtains q where "unite i j p = Some q" "partitions n (insert (i, j) E) q"
proof -
  obtain d where d: "forest d p" "length p = n"
    "\<And>x y. x < n \<Longrightarrow> y < n \<Longrightarrow> find_root p x = find_root p y \<longleftrightarrow> (x, y) \<in> linked E"
    using assms(1) by (auto simp: partitions_def)
  obtain ri p1 where p1: "find_set p i = Some (ri, p1)" "find_root p i = Some ri" "length p1 = n" "forest d p1"
    "\<And>y. y < n \<Longrightarrow> find_root p1 y = find_root p y"
    using find_set_spec [OF d(1)] assms(2) d(2) by metis
  obtain rj p2 where p2: "find_set p1 j = Some (rj, p2)" "find_root p j = Some rj" "length p2 = n" "forest d p2"
    "\<And>y. y < n \<Longrightarrow> find_root p2 y = find_root p y"
    using find_set_spec [OF p1(4)] assms(3) p1(3,5) by metis
  let ?q = "if ri \<noteq> rj then p2[ri := rj] else p2"
  have q: "unite i j p = Some ?q"
    by (simp add: unite_def p1(1) p2(1))
  have roots: "ri < n" "p2 ! ri = ri" "rj < n" "p2 ! rj = rj"
    using find_root_root(1,2) [OF p2(4)] p1(2) p2(2,3,5) assms(2,3) by metis+
  have "\<exists>d. forest d ?q"
    using link_roots(1) [OF p2(4)] roots p2(3,4) by auto
  moreover have root: "find_root ?q x = (if find_root p x = Some ri then Some rj else find_root p x)" if "x < n" for x
    using link_roots(2) [OF p2(4), of ri rj x] roots p2(3,5) that by auto
  have "find_root ?q x = find_root ?q y \<longleftrightarrow> (x, y) \<in> linked (insert (i, j) E)" if "x < n" "y < n" for x y
  proof -
    have "(x, y) \<in> linked (insert (i, j) E) \<longleftrightarrow> find_root p x = find_root p y \<or>
        find_root p x = Some ri \<and> find_root p y = Some rj \<or> find_root p x = Some rj \<and> find_root p y = Some ri"
      unfolding linked_insert using d(3) that assms(2,3) p1(2) p2(2) by metis
    then show ?thesis
      using root that by auto
  qed
  ultimately show ?thesis
    using that [OF q] p2(3) by (simp add: partitions_def)
qed

lemma union_loop_spec:
  assumes "partitions n E p" "\<forall>(i, j)\<in>set ps. i < n \<and> j < n"
  obtains q where "union_loop hs t ps p = Some q" "partitions n (E \<union> {e \<in> set ps. near hs t e}) q"
  using assms
proof (induction ps arbitrary: p E thesis)
  case (Cons e ps)
  obtain i j where e: "e = (i, j)" "i < n" "j < n"
    using Cons.prems(3) by (cases e) auto
  show ?case
  proof (cases "near hs t e")
    case True
    obtain q where "unite i j p = Some q" "partitions n (insert (i, j) E) q"
      using unite_spec [OF Cons.prems(2) e(2,3)] .
    moreover have "insert (i, j) E \<union> {e \<in> set ps. near hs t e} = E \<union> {e' \<in> set (e # ps). near hs t e'}"
      using True e(1) by auto
    ultimately show ?thesis
      using Cons.IH [of q "insert (i, j) E" thesis] Cons.prems(1,3) True e(1) by auto
  next
    case False
    then have "{e' \<in> set (e # ps). near hs t e'} = {e \<in> set ps. near hs t e}"
      by auto
    then show ?thesis
      using Cons.IH [of p E thesis] Cons.prems False e(1) by auto
  qed
qed auto

section \<open>Sizes\<close>

definition tally :: "nat list \<Rightarrow> (nat \<times> nat) list" where
  "tally rs = fold (\<lambda>r. AList.map_default r 1 Suc) rs []"

lemma tally_snoc: "tally (rs @ [r]) = AList.map_default r 1 Suc (tally rs)"
  by (simp add: tally_def)

lemma distinct_tally: "distinct (map fst (tally rs))"
  by (induction rs rule: rev_induct) (simp_all add: tally_snoc distinct_map_default tally_def [of "[]"])

lemma map_of_tally: "map_of (tally rs) r = (if r \<in> set rs then Some (count_list rs r) else None)"
  by (induction rs arbitrary: r rule: rev_induct)
    (auto simp: tally_snoc map_of_map_default tally_def [of "[]"] split: option.splits)

lemma tally_large: "length (filter (\<lambda>(r, s). 2 \<le> s) (tally rs)) = card {r \<in> set rs. 2 \<le> count_list rs r}"
proof -
  have "(r, s) \<in> set (tally rs) \<longleftrightarrow> r \<in> set rs \<and> s = count_list rs r" for r s
    using map_of_eq_Some_iff [OF distinct_tally [of rs], of r s] by (auto simp: map_of_tally split: if_splits)
  then have "fst ` set (filter (\<lambda>(r, s). 2 \<le> s) (tally rs)) = {r \<in> set rs. 2 \<le> count_list rs r}"
    by (force simp: image_iff)
  moreover have "distinct (map fst (filter (\<lambda>(r, s). 2 \<le> s) (tally rs)))"
    using distinct_tally by (rule distinct_map_filter)
  ultimately show ?thesis
    using distinct_card [of "map fst (filter (\<lambda>(r, s). 2 \<le> s) (tally rs))"] by simp
qed

lemma size_loop_spec:
  assumes "forest d p" "set is \<subseteq> {..<length p}"
  shows "size_loop is p sizes = Some (fold (\<lambda>i. AList.map_default (the (find_root p i)) 1 Suc) is sizes)"
  using assms
proof (induction "is" arbitrary: p sizes)
  case (Cons i "is")
  obtain r q where q: "find_set p i = Some (r, q)" "find_root p i = Some r" "length q = length p" "forest d q"
    "\<And>y. y < length p \<Longrightarrow> find_root q y = find_root p y"
    using find_set_spec [OF Cons.prems(1), of i] Cons.prems(2) by auto
  have "fold (\<lambda>i. AList.map_default (the (find_root q i)) 1 Suc) is s =
      fold (\<lambda>i. AList.map_default (the (find_root p i)) 1 Suc) is s" for s
    using Cons.prems(2) q(5) by (intro fold_cong) auto
  then show ?case
    using Cons.IH [OF q(4)] Cons.prems(2) q(1-3) by simp
qed simp

lemma card_classes:
  assumes "\<And>x y. x \<in> A \<Longrightarrow> y \<in> A \<Longrightarrow> (x, y) \<in> R \<longleftrightarrow> f x = f y" "R \<subseteq> A \<times> A"
  shows "card {C \<in> A // R. P C} = card {r \<in> f ` A. P {x \<in> A. f x = r}}"
proof -
  have "R `` {x} = {y \<in> A. f y = f x}" if "x \<in> A" for x
    using assms that by fastforce
  then have "A // R = (\<lambda>r. {x \<in> A. f x = r}) ` f ` A"
    by (auto simp: quotient_def)
  then have "{C \<in> A // R. P C} = (\<lambda>r. {x \<in> A. f x = r}) ` {r \<in> f ` A. P {x \<in> A. f x = r}}"
    by auto
  moreover have "inj_on (\<lambda>r. {x \<in> A. f x = r}) {r \<in> f ` A. P {x \<in> A. f x = r}}"
    by (rule inj_onI) (auto dest: equalityD1)
  ultimately show ?thesis
    by (simp add: card_image)
qed

lemma count_list_roots: "count_list (map f [0..<n]) r = card {x \<in> {..<n}. f x = r}"
proof -
  have "count_list (map f [0..<n]) r = length (filter (\<lambda>x. f x = r) [0..<n])"
    by (simp add: count_list_eq_length_filter filter_map comp_def eq_commute [of r])
  also have "\<dots> = card {x \<in> {..<n}. f x = r}"
    by (subst distinct_card [symmetric]) (auto simp: lessThan_def intro: arg_cong [where f = card])
  finally show ?thesis .
qed

lemma set_index_pairs: "set (index_pairs n) = {(i, j). i < j \<and> j < n}"
  by (force simp: index_pairs_def)

lemma initial_partitions: "partitions n {} [0..<n]"
proof -
  have "find_root [0..<n] x = Some x" if "x < n" for x
    using that by (simp add: find_root_step [of x])
  then show ?thesis
    by (auto simp: partitions_def forest_def linked_def)
qed

lemma count_clusters_eq:
  "count_clusters hs t =
     Some (card {C \<in> components (length hs) {(i, j). i < j \<and> j < length hs \<and> near hs t (i, j)}. 2 \<le> card C})"
proof -
  let ?n = "length hs" and ?E = "{(i, j). i < j \<and> j < length hs \<and> near hs t (i, j)}"
  obtain q where q: "union_loop hs t (index_pairs ?n) [0..<?n] = Some q"
    "partitions ?n ({} \<union> {e \<in> set (index_pairs ?n). near hs t e}) q"
    using union_loop_spec [OF initial_partitions, of "index_pairs ?n" ?n hs t] by (auto simp: set_index_pairs)
  have E: "{} \<union> {e \<in> set (index_pairs ?n). near hs t e} = ?E"
    by (auto simp: set_index_pairs)
  obtain d where d: "forest d q" "length q = ?n"
    "\<And>x y. x < ?n \<Longrightarrow> y < ?n \<Longrightarrow> find_root q x = find_root q y \<longleftrightarrow> (x, y) \<in> linked ?E"
    using q(2) unfolding E partitions_def by blast
  let ?f = "\<lambda>i. the (find_root q i)"
  have f: "?f x = ?f y \<longleftrightarrow> (x, y) \<in> linked ?E" if xy: "x < ?n" "y < ?n" for x y
  proof -
    obtain a where "find_root q x = Some a"
      by (rule find_root_total [OF d(1), of x]) (simp_all add: xy d(2))
    moreover obtain b where "find_root q y = Some b"
      by (rule find_root_total [OF d(1), of y]) (simp_all add: xy d(2))
    ultimately show ?thesis
      using d(3) [OF xy] by simp
  qed
  have "size_loop [0..<?n] q [] = Some (tally (map ?f [0..<?n]))"
    using size_loop_spec [OF d(1), of "[0..<?n]" "[]"] d(2)
    by (simp add: tally_def fold_map comp_def lessThan_atLeast0)
  then have "count_clusters hs t = Some (card {r \<in> ?f ` {..<?n}. 2 \<le> card {x \<in> {..<?n}. ?f x = r}})"
    using q(1) by (simp add: count_clusters_def Let_def tally_large count_list_roots lessThan_atLeast0)
  moreover have "card {C \<in> components ?n ?E. 2 \<le> card C} = card {r \<in> ?f ` {..<?n}. 2 \<le> card {x \<in> {..<?n}. ?f x = r}}"
    unfolding components_def by (rule card_classes) (use f in auto)
  ultimately show ?thesis
    by simp
qed

section \<open>Clustered events\<close>

lemma hamming64_sym: "hamming64 a b = hamming64 b a"
  by (simp add: hamming64_def xor.commute)

lemma mark_pairs_nth:
  assumes "\<forall>(i, j)\<in>set ps. i < length m \<and> j < length m"
  shows "length (mark_pairs hs t ps m) = length m \<and>
    (\<forall>k<length m. mark_pairs hs t ps m ! k \<longleftrightarrow> m ! k \<or> (\<exists>(i, j)\<in>set ps. near hs t (i, j) \<and> (k = i \<or> k = j)))"
  using assms
proof (induction ps arbitrary: m)
  case (Cons e ps)
  obtain i j where e: "e = (i, j)" "i < length m" "j < length m"
    using Cons.prems by (cases e) auto
  let ?m = "if near hs t e then m[i := True, j := True] else m"
  have m: "length ?m = length m" "\<And>k. k < length m \<Longrightarrow> ?m ! k \<longleftrightarrow> m ! k \<or> near hs t (i, j) \<and> (k = i \<or> k = j)"
    using e by (auto simp: nth_list_update)
  have "mark_pairs hs t (e # ps) m = mark_pairs hs t ps ?m"
    by (simp add: e(1))
  then show ?case
    using Cons.IH [of ?m] Cons.prems m e(1) by auto
qed simp

lemma length_filter_id: "length (filter id xs) = card {k. k < length xs \<and> xs ! k}"
  by (simp add: length_filter_conv_card)

lemma linked_to_other:
  assumes "E \<subseteq> {(i, j). i < j \<and> j < n}"
  shows "(\<exists>y<n. y \<noteq> k \<and> (k, y) \<in> linked E) \<longleftrightarrow> (\<exists>(i, j)\<in>E. k = i \<or> k = j)"
proof
  assume "\<exists>y<n. y \<noteq> k \<and> (k, y) \<in> linked E"
  then obtain y where "y \<noteq> k" "(k, y) \<in> (E \<union> E\<inverse>)\<^sup>*"
    by (auto simp: linked_def)
  then show "\<exists>(i, j)\<in>E. k = i \<or> k = j"
    by (auto elim: converse_rtranclE)
next
  assume "\<exists>(i, j)\<in>E. k = i \<or> k = j"
  then obtain i j where e: "(i, j) \<in> E" "k = i \<or> k = j"
    by auto
  have "i < j" "j < n" "(i, j) \<in> linked E" "(j, i) \<in> linked E"
    using assms(1) e(1) linked_edge [of i j E] linked_sym [of i j E] by auto
  then show "\<exists>y<n. y \<noteq> k \<and> (k, y) \<in> linked E"
    using e(2) by (metis less_irrefl less_trans)
qed

lemma in_large_component:
  assumes "E \<subseteq> {(i, j). i < j \<and> j < n}" "k < n"
  shows "(\<exists>C\<in>components n E. 2 \<le> card C \<and> k \<in> C) \<longleftrightarrow> (\<exists>(i, j)\<in>E. k = i \<or> k = j)"
proof -
  let ?R = "{(x, y). x < n \<and> y < n \<and> (x, y) \<in> linked E}"
  have equiv: "equiv {..<n} ?R"
    by (rule equivI) (auto simp: refl_on_def sym_def trans_def linked_sym intro: linked_trans)
  have fin: "finite (?R `` {k})"
    by (rule finite_subset [of _ "{..<n}"]) auto
  have "C = ?R `` {k}" if "C \<in> {..<n} // ?R" "k \<in> C" for C
    using that equiv_class_eq [OF equiv] by (auto simp: quotient_def)
  moreover have "?R `` {k} \<in> {..<n} // ?R" "k \<in> ?R `` {k}"
    using quotientI [of k "{..<n}" ?R] assms(2) by auto
  ultimately have "(\<exists>C\<in>components n E. 2 \<le> card C \<and> k \<in> C) \<longleftrightarrow> 2 \<le> card (?R `` {k})"
    unfolding components_def by blast
  also have "\<dots> \<longleftrightarrow> (\<exists>y<n. y \<noteq> k \<and> (k, y) \<in> linked E)"
  proof
    assume "2 \<le> card (?R `` {k})"
    then have "\<not> ?R `` {k} \<subseteq> {k}"
      using card_mono [of "{k}" "?R `` {k}"] by auto
    then show "\<exists>y<n. y \<noteq> k \<and> (k, y) \<in> linked E"
      by auto
  next
    assume "\<exists>y<n. y \<noteq> k \<and> (k, y) \<in> linked E"
    then obtain y where y: "y \<noteq> k" "{k, y} \<subseteq> ?R `` {k}"
      using assms(2) by auto
    then show "2 \<le> card (?R `` {k})"
      using card_mono [OF fin y(2)] by simp
  qed
  also have "\<dots> \<longleftrightarrow> (\<exists>(i, j)\<in>E. k = i \<or> k = j)"
    by (rule linked_to_other [OF assms(1)])
  finally show ?thesis .
qed

lemma clustered_eq:
  fixes hs :: "u64 list" and t :: u32
  defines "E \<equiv> {(i, j). i < j \<and> j < length hs \<and> near hs t (i, j)}"
  shows "length (filter id (mark_pairs hs t (index_pairs (length hs)) (replicate (length hs) False))) =
    card (\<Union>{C \<in> components (length hs) E. 2 \<le> card C})"
proof -
  let ?n = "length hs"
  let ?m = "mark_pairs hs t (index_pairs ?n) (replicate ?n False)"
  have "length ?m = ?n" and m: "\<forall>k<?n. ?m ! k \<longleftrightarrow> (\<exists>(i, j)\<in>set (index_pairs ?n). near hs t (i, j) \<and> (k = i \<or> k = j))"
    using mark_pairs_nth [of "index_pairs ?n" "replicate ?n False" hs t] by (auto simp: set_index_pairs)
  have "?m ! k \<longleftrightarrow> (\<exists>C\<in>components ?n E. 2 \<le> card C \<and> k \<in> C)" if "k < ?n" for k
  proof -
    have "(\<exists>C\<in>components ?n E. 2 \<le> card C \<and> k \<in> C) \<longleftrightarrow> (\<exists>(i, j)\<in>E. k = i \<or> k = j)"
      by (rule in_large_component) (auto simp: E_def that)
    then show ?thesis
      using m that by (auto simp: set_index_pairs E_def)
  qed
  moreover have "k < ?n" if "C \<in> components ?n E" "k \<in> C" for C k
    using that by (auto simp: components_def quotient_def)
  ultimately have "{k. k < ?n \<and> ?m ! k} = \<Union>{C \<in> components ?n E. 2 \<le> card C}"
    by blast
  then show ?thesis
    using \<open>length ?m = ?n\<close> by (simp add: length_filter_id)
qed

section \<open>Majorities\<close>

lemma length_add_shingle [simp]: "length (add_shingle s acc) = min 64 (length acc)"
  by (simp add: add_shingle_def Let_def)

lemma bit_test: "drop_bit i (h::u64) AND 1 = 1 \<longleftrightarrow> bit h i"
  by (simp add: and_one_eq bit_iff_odd_drop_bit odd_iff_mod_2_eq_one)

lemma add_shingle_nth:
  "i < 64 \<Longrightarrow> length acc = 64 \<Longrightarrow>
   add_shingle s acc ! i = (if bit (fnv1a64 (as_bytes s)) i then acc ! i + 1 else acc ! i - 1)"
  by (simp add: add_shingle_def Let_def bit_test)

definition votes :: "nat \<Rightarrow> string list \<Rightarrow> nat" where
  "votes i shingles = length (filter (\<lambda>s. bit (fnv1a64 (as_bytes s)) i) shingles)"

lemma fold_add_shingle:
  assumes "i < 64" "length acc = 64"
  shows "length (fold add_shingle shingles acc) = 64 \<and>
    fold add_shingle shingles acc ! i = acc ! i + of_int (2 * int (votes i shingles) - int (length shingles))"
  using assms(2)
proof (induction shingles arbitrary: acc)
  case (Cons s shingles)
  then show ?case
    using add_shingle_nth [OF assms(1) Cons.prems, of s] by (simp add: votes_def)
qed (simp add: votes_def)

lemma sless_of_int:
  assumes "- (2 ^ 31) \<le> k" "k < 2 ^ 31"
  shows "(0 :: i32) <s of_int k \<longleftrightarrow> 0 < k"
  using assms by (simp add: word_sless_alt signed_of_int signed_take_bit_int_eq_self)

lemma bit_fold_bits:
  "bit (fold (\<lambda>(i, a) out. if P a then out OR push_bit i 1 else out) (zip is as) (w :: u64)) k \<longleftrightarrow>
     bit w k \<or> k < 64 \<and> (\<exists>j<min (length is) (length as). is ! j = k \<and> P (as ! j))"
proof (induction "is" as arbitrary: w rule: list_induct2')
  case (4 i "is" a as)
  have "(\<exists>j<min (length (i # is)) (length (a # as)). (i # is) ! j = k \<and> P ((a # as) ! j)) \<longleftrightarrow>
      i = k \<and> P a \<or> (\<exists>j<min (length is) (length as). is ! j = k \<and> P (as ! j))"
    by (simp add: Ex_less_Suc2)
  then show ?case
    unfolding zip_Cons_Cons fold_simps prod.case 4 by (auto simp: bit_simps)
qed simp_all

lemma simhash64_bit:
  assumes "length shingles < 2 ^ 31"
  shows "bit (simhash64 shingles) i \<longleftrightarrow> i < 64 \<and> length shingles < 2 * votes i shingles"
proof -
  let ?acc = "fold add_shingle shingles (replicate 64 0)"
  have len: "length ?acc = 64"
    using fold_add_shingle [of 0 "replicate 64 0" shingles] by simp
  have "bit (simhash64 shingles) i \<longleftrightarrow> i < 64 \<and> 0 <s ?acc ! i"
    unfolding simhash64_def Let_def bit_fold_bits by (auto simp: len)
  moreover have "0 <s ?acc ! i \<longleftrightarrow> length shingles < 2 * votes i shingles" if "i < 64"
  proof -
    have "votes i shingles \<le> length shingles"
      by (simp add: votes_def)
    then have "0 <s (of_int (2 * int (votes i shingles) - int (length shingles)) :: i32) \<longleftrightarrow>
        0 < 2 * int (votes i shingles) - int (length shingles)"
      using assms by (intro sless_of_int) simp_all
    also have "\<dots> \<longleftrightarrow> length shingles < 2 * votes i shingles"
      by linarith
    finally show ?thesis
      using fold_add_shingle [OF that, of "replicate 64 0" shingles] that by simp
  qed
  ultimately show ?thesis
    by blast
qed

section \<open>Fingerprint rows\<close>

lemma fingerprints_loop_spec:
  "distinct (map fp_content_hash (fingerprints_loop T ly rid pk es seen)) \<and>
   fp_content_hash ` set (fingerprints_loop T ly rid pk es seen) = (\<lambda>e. fst (fingerprint_of T ly (ce_content e))) ` set es - seen"
proof (induction es arbitrary: seen)
  case (Cons e es)
  obtain h s where "fingerprint_of T ly (ce_content e) = (h, s)"
    by fastforce
  then show ?case
    using Cons.IH [of seen] Cons.IH [of "insert h seen"] by (cases "h \<in> seen") auto
qed simp

section \<open>Properties\<close>

text \<open>The pairs of near-duplicates of a list of SimHashes, and the groups they form.\<close>

definition near_pairs :: "u64 list \<Rightarrow> u32 \<Rightarrow> (nat \<times> nat) set" where
  "near_pairs hs t = {(i, j). i < j \<and> j < length hs \<and> near hs t (i, j)}"

definition clusters :: "u64 list \<Rightarrow> u32 \<Rightarrow> nat set set" where
  "clusters hs t = {C \<in> components (length hs) (near_pairs hs t). 2 \<le> card C}"

definition example_nd :: NearDuplicateLayer where
  "example_nd = \<lparr> nd_hamming_threshold = 3, nd_shingle_size = 3, nd_min_events = 2 \<rparr>"

text \<open>
  C35: the near-duplicate statistics are exact, and their loops end: on any events that pass the
  minimum, \<^verbatim>\<open>repeated_ratio\<close> returns the share of the events that lie in a cluster and the number of
  clusters, where a cluster is a connected component with at least two members of the graph whose edges
  join SimHashes within the Hamming threshold.
\<close>

theorem repeated_ratio_clusters:
  assumes "nd_min_events ly \<le> length events"
    and "hs = map (\<lambda>e. snd (fingerprint_of T ly (ce_content e))) events"
  shows "repeated_ratio F T ly events =
    Some (f_div F (f_of_nat F (card (\<Union>(clusters hs (nd_hamming_threshold ly))))) (f_of_nat F (length events)),
          card (clusters hs (nd_hamming_threshold ly)))"
proof -
  have "length hs = length events"
    by (simp add: assms(2))
  then show ?thesis
    using assms clustered_eq [of hs "nd_hamming_threshold ly"] count_clusters_eq [of hs "nd_hamming_threshold ly"]
    by (simp add: repeated_ratio_def Let_def clusters_def near_pairs_def)
qed

text \<open>
  C36: the SimHash is a majority vote: below \<open>2 ^ 31\<close> shingles no accumulator overflows, and bit \<open>i\<close> of the
  result is set exactly when more than half of the shingles have it set in their FNV-1a hash, a tie
  counting as unset; so the result does not depend on the order of the shingles.
\<close>

theorem simhash64_majority:
  assumes "length shingles < 2 ^ 31"
  shows "(\<forall>i. bit (simhash64 shingles) i \<longleftrightarrow>
      i < 64 \<and> length shingles < 2 * length (filter (\<lambda>s. bit (fnv1a64 (as_bytes s)) i) shingles)) \<and>
    (\<forall>other. mset other = mset shingles \<longrightarrow> simhash64 other = simhash64 shingles)"
proof (intro conjI allI impI)
  fix other assume other: "mset other = mset shingles"
  have "votes i other = votes i shingles" for i
    using arg_cong [OF other, of "\<lambda>M. size (filter_mset (\<lambda>s. bit (fnv1a64 (as_bytes s)) i) M)"]
    by (simp add: votes_def flip: mset_filter)
  moreover have "length other = length shingles"
    using arg_cong [OF other, of size] by simp
  ultimately show "simhash64 other = simhash64 shingles"
    using assms simhash64_bit by (intro bit_eqI) auto
qed (use simhash64_bit [OF assms] in \<open>simp add: votes_def\<close>)

theorem repeated_ratio_clusters_witness:
  "let events = [example_event ''a'', example_event ''a''];
       hs = map (\<lambda>e. snd (fingerprint_of example_text example_nd (ce_content e))) events
   in repeated_ratio example_f64 example_text example_nd events =
     Some (f_div example_f64 (f_of_nat example_f64 (card (\<Union>(clusters hs 3)))) (f_of_nat example_f64 2), card (clusters hs 3))"
  using repeated_ratio_clusters [of example_nd "[example_event ''a'', example_event ''a'']", OF _ refl, of example_f64 example_text]
  by (simp add: example_nd_def numeral_2_eq_2 Let_def)

theorem simhash64_majority_witness: "bit (simhash64 [''a'']) 2 \<and> \<not> bit (simhash64 [''a'']) 0"
  using simhash64_majority [of "[''a'']"] by (simp add: fnv1a64_def as_bytes_def)

end
