(* ===== verification/ContentLayers.thy ===== *)
theory ContentLayers
  imports NearDuplicate
begin

text \<open>
  \<^verbatim>\<open>spamhunter/pubkey_iterator/src/detect/content_entropy.rs\<close> and \<^verbatim>\<open>link_mention.rs\<close>: the layers over the text,
  the links and the tags of an author's events.  A \<^verbatim>\<open>HashMap\<close> iterates in an order of its own, which is
  the parameter \<open>iter\<close>: a function that returns the entries in some order.
\<close>

section \<open>Content entropy\<close>

record 'f ContentEntropyLayer =
  cl_entropy_low :: 'f
  cl_entropy_high :: 'f
  cl_min_len_for_low :: nat
  cl_emoji_density_knee :: 'f
  cl_hashtag_density_knee :: 'f

definition shannon_bits_per_char :: "'f f64 \<Rightarrow> text_ops \<Rightarrow> ((nat \<times> nat) list \<Rightarrow> (nat \<times> nat) list) \<Rightarrow> string \<Rightarrow> 'f" where
  "shannon_bits_per_char F T iter s =
     (let n = length (tx_chars T s)
      in if n = 0 then f_lit F 0
         else f_sum F (map (\<lambda>(_, c). let p = f_div F (f_of_nat F c) (f_of_nat F n) in f_mul F (f_neg F p) (f_log2 F p))
                (iter (tally (tx_chars T s)))))"

definition is_emoji_grapheme :: "text_ops \<Rightarrow> string \<Rightarrow> bool" where
  "is_emoji_grapheme T g =
     (case tx_chars T g of [] \<Rightarrow> False
      | u # _ \<Rightarrow> 0x1F300 \<le> u \<and> u \<le> 0x1FAFF \<or> 0x2600 \<le> u \<and> u \<le> 0x27BF \<or>
          0x1F1E6 \<le> u \<and> u \<le> 0x1F1FF \<or> 0xFE00 \<le> u \<and> u \<le> 0xFE0F)"

definition entropy_component :: "'f f64 \<Rightarrow> 'f ContentEntropyLayer \<Rightarrow> 'f \<Rightarrow> nat \<Rightarrow> 'f" where
  "entropy_component F ly h total_len =
     (let low = (if total_len < cl_min_len_for_low ly then f_lit F 0
                 else let shoulder = f_add F (cl_entropy_low ly) (f_lit F 1)
                      in f_clamp F (f_div F (f_sub F shoulder h)
                           (f_max F (f_sub F shoulder (cl_entropy_low ly)) (f_epsilon F))) (f_lit F 0) (f_lit F 1));
          shoulder = f_max F (f_sub F (cl_entropy_high ly) (f_lit F (1/2))) (f_lit F 0);
          high = f_clamp F (f_div F (f_sub F h shoulder)
                   (f_max F (f_sub F (cl_entropy_high ly) shoulder) (f_epsilon F))) (f_lit F 0) (f_lit F 1)
      in f_max F low high)"

text \<open>\<^verbatim>\<open>min(value / knee, 1.0)\<close>, and 0 for a knee that is not positive.\<close>

definition knee_component :: "'f f64 \<Rightarrow> 'f \<Rightarrow> 'f \<Rightarrow> 'f" where
  "knee_component F value knee =
     (if f_less F (f_lit F 0) knee then f_min F (f_div F value knee) (f_lit F 1) else f_lit F 0)"

definition content_entropy_score ::
  "'f f64 \<Rightarrow> text_ops \<Rightarrow> ((nat \<times> nat) list \<Rightarrow> (nat \<times> nat) list) \<Rightarrow> 'f ContentEntropyLayer \<Rightarrow>
   ClientEvent list \<Rightarrow> bool \<Rightarrow> 'f LayerOutput option" where
  "content_entropy_score F T iter ly events whitelisted =
     (if events = []
      then Some \<lparr> lo_value = f_lit F 0, lo_evidence = JObject [(''reason'', JString ''no_events'')] \<rparr>
      else let text = join '' '' (map (\<lambda>e. normalize T (ce_content e)) events);
               h = shannon_bits_per_char F T iter text;
               entropy_c = entropy_component F ly h (length (tx_chars T text));
               graphemes = tx_graphemes T text;
               emoji_density = f_div F (f_of_nat F (length (filter (is_emoji_grapheme T) graphemes)))
                                 (f_of_nat F (max (length graphemes) 1));
               emoji_c = knee_component F emoji_density (cl_emoji_density_knee ly);
               n_hashtags = length (filter (\<lambda>w. starts_with w ''#'') (tx_split_whitespace T text));
               hashtag_density = f_div F (f_of_nat F n_hashtags) (f_of_nat F (max (length (tx_unicode_words T text)) 1));
               hashtag_c = knee_component F hashtag_density (cl_hashtag_density_knee ly)
           in Some \<lparr> lo_value = f_clamp F (f_max F (f_max F entropy_c emoji_c) hashtag_c) (f_lit F 0) (f_lit F 1),
                lo_evidence = JObject [(''entropy_bits'', JF64 h), (''emoji_density'', JF64 emoji_density),
                  (''hashtag_density'', JF64 hashtag_density)] \<rparr>)"

definition content_entropy_layer ::
  "'f f64 \<Rightarrow> text_ops \<Rightarrow> ((nat \<times> nat) list \<Rightarrow> (nat \<times> nat) list) \<Rightarrow> 'f ContentEntropyLayer \<Rightarrow> 'f Layer" where
  "content_entropy_layer F T iter ly =
     \<lparr> ly_name = ''L3_content_entropy'', ly_score = content_entropy_score F T iter ly \<rparr>"

section \<open>Links and mentions\<close>

record 'f LinkMentionLayer =
  lm_url_ratio_knee :: 'f
  lm_domain_concentration_knee :: 'f
  lm_mean_ptags_knee :: 'f
  lm_mean_ttags_knee :: 'f
  lm_min_events :: nat

definition to_ascii_lowercase :: "string \<Rightarrow> string" where
  "to_ascii_lowercase s = map (\<lambda>c. let n = of_char c :: nat in if 65 \<le> n \<and> n \<le> 90 then char_of (n + 32) else c) s"

definition hosts_in :: "text_ops \<Rightarrow> string \<Rightarrow> string list" where
  "hosts_in T content = map to_ascii_lowercase (List.map_filter (tx_url_host T) (tx_split_whitespace T content))"

text \<open>One event's hosts, each counted once.\<close>

fun count_hosts :: "string list \<Rightarrow> string list \<Rightarrow> (string \<times> nat) list \<Rightarrow> (string \<times> nat) list" where
  "count_hosts [] seen counts = counts"
| "count_hosts (h # hosts) seen counts =
     (if h \<in> set seen then count_hosts hosts seen counts
      else count_hosts hosts (seen @ [h]) (AList.map_default h 1 Suc counts))"

fun host_loop :: "text_ops \<Rightarrow> ClientEvent list \<Rightarrow> nat \<Rightarrow> (string \<times> nat) list \<Rightarrow> nat \<times> (string \<times> nat) list" where
  "host_loop T [] events_with_url counts = (events_with_url, counts)"
| "host_loop T (e # events) events_with_url counts =
     (let hosts = hosts_in T (ce_content e)
      in if hosts = [] then host_loop T events events_with_url counts
         else host_loop T events (events_with_url + 1) (count_hosts hosts [] counts))"

text \<open>\<^verbatim>\<open>Greater\<close> in the order of the closure: the count, then the host in reverse.\<close>

definition host_greater :: "string \<times> nat \<Rightarrow> string \<times> nat \<Rightarrow> bool" where
  "host_greater a b \<longleftrightarrow> snd b < snd a \<or> snd a = snd b \<and> fst a < fst b"

text \<open>\<^verbatim>\<open>max_by\<close> keeps the later of two elements unless the earlier is greater.\<close>

definition top_host :: "(string \<times> nat) list \<Rightarrow> string \<times> nat" where
  "top_host entries =
     (case entries of [] \<Rightarrow> ([], 0) | x # xs \<Rightarrow> fold (\<lambda>y acc. if host_greater acc y then acc else y) xs x)"

definition count_tags :: "string \<Rightarrow> ClientEvent list \<Rightarrow> nat" where
  "count_tags name events = sum_list (map (\<lambda>e. length (filter (\<lambda>t. case t of [] \<Rightarrow> False | k # _ \<Rightarrow> k = name) (ce_tags e))) events)"

definition link_mention_score ::
  "'f f64 \<Rightarrow> text_ops \<Rightarrow> ((string \<times> nat) list \<Rightarrow> (string \<times> nat) list) \<Rightarrow> 'f LinkMentionLayer \<Rightarrow>
   ClientEvent list \<Rightarrow> bool \<Rightarrow> 'f LayerOutput option" where
  "link_mention_score F T iter ly events whitelisted =
     (let n = length events
      in if n < lm_min_events ly
         then Some \<lparr> lo_value = f_lit F 0,
                lo_evidence = JObject [(''reason'', JString ''below_min_events''), (''events'', JUsize n)] \<rparr>
         else case host_loop T events 0 [] of
           (events_with_url, counts) \<Rightarrow>
             (let url_ratio = f_div F (f_of_nat F events_with_url) (f_of_nat F n);
                  top = top_host (iter counts);
                  domain_concentration = (if 0 < events_with_url
                    then f_div F (f_of_nat F (snd top)) (f_of_nat F events_with_url) else f_lit F 0);
                  mean_p_tags = f_div F (f_of_nat F (count_tags ''p'' events)) (f_of_nat F n);
                  mean_t_tags = f_div F (f_of_nat F (count_tags ''t'' events)) (f_of_nat F n);
                  value = f_clamp F
                    (f_max F (f_max F (f_max F (knee_component F url_ratio (lm_url_ratio_knee ly))
                      (knee_component F domain_concentration (lm_domain_concentration_knee ly)))
                      (knee_component F mean_p_tags (lm_mean_ptags_knee ly)))
                      (knee_component F mean_t_tags (lm_mean_ttags_knee ly))) (f_lit F 0) (f_lit F 1)
              in Some \<lparr> lo_value = value,
                   lo_evidence = JObject [(''url_ratio'', JF64 url_ratio), (''top_domain'', JString (fst top)),
                     (''top_domain_share'', JF64 domain_concentration), (''mean_p_tags'', JF64 mean_p_tags),
                     (''mean_t_tags'', JF64 mean_t_tags)] \<rparr>))"

definition link_mention_layer ::
  "'f f64 \<Rightarrow> text_ops \<Rightarrow> ((string \<times> nat) list \<Rightarrow> (string \<times> nat) list) \<Rightarrow> 'f LinkMentionLayer \<Rightarrow> 'f Layer" where
  "link_mention_layer F T iter ly = \<lparr> ly_name = ''L4_link_mention'', ly_score = link_mention_score F T iter ly \<rparr>"

definition example_lm :: "rat option LinkMentionLayer" where
  "example_lm = \<lparr> lm_url_ratio_knee = Some (4/5), lm_domain_concentration_knee = Some (7/10),
     lm_mean_ptags_knee = Some 10, lm_mean_ttags_knee = Some 8, lm_min_events = 5 \<rparr>"

section \<open>The order of a hash map\<close>

lemma host_greater_total: "a \<noteq> b \<Longrightarrow> host_greater a b \<or> host_greater b a"
  by (cases a; cases b) (auto simp: host_greater_def)

lemma host_greater_trans: "host_greater a b \<Longrightarrow> host_greater b c \<Longrightarrow> host_greater a c"
  by (auto simp: host_greater_def)

lemma host_greater_irrefl [simp]: "\<not> host_greater a a"
  by (simp add: host_greater_def)

lemma top_host_fold:
  fixes xs x
  defines "m \<equiv> fold (\<lambda>y acc. if host_greater acc y then acc else y) xs x"
  shows "m \<in> set (x # xs)" and "y \<in> set (x # xs) \<Longrightarrow> y = m \<or> host_greater m y"
  unfolding m_def
proof (induction xs arbitrary: x y)
  case (Cons z xs)
  {
    case 1
    show ?case
      using Cons.IH(1) [of x] Cons.IH(1) [of z] by auto
  next
    case 2
    let ?z = "if host_greater x z then x else z"
    let ?m = "fold (\<lambda>y acc. if host_greater acc y then acc else y) xs ?z"
    have m: "v = ?m \<or> host_greater ?m v" if "v = ?z \<or> v \<in> set xs" for v
      using Cons.IH(2) [of v ?z] that by simp
    have "x = ?z \<or> host_greater ?z x" "z = ?z \<or> host_greater ?z z"
      using host_greater_total [of x z] by auto
    then have "y = ?z \<or> y \<in> set xs \<or> host_greater ?z y"
      using 2 by (metis set_ConsD)
    then show ?case
      using m [of y] m [of ?z] host_greater_trans [of ?m ?z y] by auto
  }
qed simp_all

lemma top_host_max:
  "xs \<noteq> [] \<Longrightarrow> top_host xs \<in> set xs \<and> (\<forall>y\<in>set xs. y \<noteq> top_host xs \<longrightarrow> host_greater (top_host xs) y)"
  using top_host_fold(1) [of "tl xs" "hd xs"] top_host_fold(2) [of _ "hd xs" "tl xs"]
  by (cases xs) (auto simp: top_host_def)

lemma top_host_cong:
  assumes "set xs = set ys"
  shows "top_host xs = top_host ys"
proof (cases "xs = []")
  case False
  then show ?thesis
    using top_host_max [of xs] top_host_max [of ys] assms host_greater_trans host_greater_irrefl by (metis set_empty)
qed (use assms in simp)

text \<open>
  C37: the link layer does not depend on the iteration order of its hash map: whatever order the entries
  come in, value and evidence are the same, and the domain it reports is the one that most events link
  to, the smallest such host on a tie.
\<close>

theorem link_mention_deterministic:
  assumes "\<And>entries. set (iter entries) = set entries" "\<And>entries. set (iter' entries) = set entries"
  shows "link_mention_score F T iter ly events w = link_mention_score F T iter' ly events w' \<and>
    (\<forall>entries (h :: string) (c :: nat). (h, c) \<in> set entries \<longrightarrow>
       (case top_host (iter entries) of (best, most) \<Rightarrow>
          (best, most) \<in> set entries \<and> (c < most \<or> c = most \<and> best \<le> h)))"
proof (intro conjI allI impI)
  have "top_host (iter entries) = top_host (iter' entries)" for entries
    by (rule top_host_cong) (simp add: assms)
  then show "link_mention_score F T iter ly events w = link_mention_score F T iter' ly events w'"
    by (simp add: link_mention_score_def Let_def)
next
  fix entries and h :: string and c :: nat
  assume "(h, c) \<in> set entries"
  then show "case top_host (iter entries) of (best, most) \<Rightarrow>
      (best, most) \<in> set entries \<and> (c < most \<or> c = most \<and> best \<le> h)"
    using top_host_max [of "iter entries"] assms(1) [of entries]
    by (cases "top_host (iter entries)"; cases "iter entries = []") (auto simp: host_greater_def)
qed

theorem link_mention_deterministic_witness:
  "top_host (rev [(''b'', 2), (''a'', 2), (''c'', 1)]) = (''a'', 2) \<and>
   link_mention_score example_f64 example_text rev example_lm [] True = link_mention_score example_f64 example_text id example_lm [] True"
  using link_mention_deterministic [of rev id example_f64 example_text example_lm "[]" True True]
  by (simp add: top_host_def host_greater_def)

end
