(* ===== verification/Scoring.thy ===== *)
theory Scoring
  imports ContentLayers Whitelist
begin

text \<open>
  \<^verbatim>\<open>spamhunter/pubkey_iterator/src/config.rs\<close> and \<^verbatim>\<open>detect/mod.rs\<close>: the configuration, the combiner, the stage of
  enabled layers with their weights, and the \<^verbatim>\<open>weight\<close> table it is read from.  The parameters of the
  arithmetic, of the text functions and of the hash-map orders are bundled in \<open>runtime\<close>, with the
  rendering of JSON.
\<close>

section \<open>Configuration\<close>

record 'f L0Config =
  l0_enabled :: bool
  l0_weight :: 'f
  l0_absence_subscore :: 'f

record 'f L1Config =
  l1_enabled :: bool
  l1_weight :: 'f
  l1_hamming_threshold :: u32
  l1_shingle_size :: nat
  l1_min_events :: nat

record 'f L3Config =
  l3_enabled :: bool
  l3_weight :: 'f
  l3_entropy_low :: 'f
  l3_entropy_high :: 'f
  l3_min_len_for_low :: nat
  l3_emoji_density_knee :: 'f
  l3_hashtag_density_knee :: 'f

record 'f L4Config =
  l4_enabled :: bool
  l4_weight :: 'f
  l4_url_ratio_knee :: 'f
  l4_domain_concentration_knee :: 'f
  l4_mean_ptags_knee :: 'f
  l4_mean_ttags_knee :: 'f
  l4_min_events :: nat

record 'f LayersConfig =
  l0_whitelist_absence :: "'f L0Config"
  l1_near_duplicate :: "'f L1Config"
  l3_content_entropy :: "'f L3Config"
  l4_link_mention :: "'f L4Config"

record 'f TuneConfig =
  tc_alpha :: 'f
  tc_max_iterations :: nat
  tc_review_sample_size :: nat

record 'f HunterConfig =
  hc_adapter_url :: string
  hc_whitelist_url :: string
  hc_tau :: 'f
  hc_bias :: 'f
  hc_layers :: "'f LayersConfig"
  hc_tune :: "'f TuneConfig"

section \<open>The stage\<close>

definition BIAS_KEY :: string where "BIAS_KEY = ''_bias''"
definition THRESHOLD_KEY :: string where "THRESHOLD_KEY = ''_threshold''"

record 'f runtime =
  rt_f64 :: "'f f64"
  rt_text :: text_ops
  rt_char_iter :: "(nat \<times> nat) list \<Rightarrow> (nat \<times> nat) list"
  rt_host_iter :: "(string \<times> nat) list \<Rightarrow> (string \<times> nat) list"
  rt_render :: "'f json \<Rightarrow> string"

definition combine :: "'f f64 \<Rightarrow> 'f list \<Rightarrow> 'f \<Rightarrow> 'f list \<Rightarrow> 'f" where
  "combine F weights bias xs =
     (let z = f_add F bias (f_sum F (map2 (f_mul F) weights xs))
      in f_div F (f_lit F 1) (f_add F (f_lit F 1) (f_exp F (f_neg F z))))"

record 'f ScoringStage =
  st_layers :: "'f Layer list"
  st_weights :: "'f list"
  st_bias :: 'f
  st_tau :: 'f

definition weight_of :: "'f Weight list \<Rightarrow> string \<Rightarrow> 'f \<Rightarrow> 'f" where
  "weight_of weights_table layer fallback =
     (case find (\<lambda>w. w_layer w = layer) weights_table of Some w \<Rightarrow> w_weight w | None \<Rightarrow> fallback)"

definition tau_of :: "'f Weight list \<Rightarrow> 'f \<Rightarrow> 'f" where
  "tau_of weights_table fallback =
     (case Option.bind (find (\<lambda>w. w_layer w = THRESHOLD_KEY) weights_table) w_threshold of
        Some t \<Rightarrow> t | None \<Rightarrow> fallback)"

text \<open>The enabled layers in the declared order, each with its weight.\<close>

definition enabled_layers :: "'f runtime \<Rightarrow> 'f LayersConfig \<Rightarrow> 'f Weight list \<Rightarrow> ('f Layer \<times> 'f) list" where
  "enabled_layers R lc weights_table =
     (let l0 = l0_whitelist_absence lc; l1 = l1_near_duplicate lc; l3 = l3_content_entropy lc; l4 = l4_link_mention lc
      in (if l0_enabled l0
          then [(whitelist_absence_layer (rt_f64 R) (l0_absence_subscore l0),
                 weight_of weights_table ''L0_whitelist_absence'' (l0_weight l0))] else []) @
         (if l1_enabled l1
          then [(near_duplicate_layer (rt_f64 R) (rt_text R)
                   \<lparr> nd_hamming_threshold = l1_hamming_threshold l1, nd_shingle_size = l1_shingle_size l1,
                     nd_min_events = l1_min_events l1 \<rparr>,
                 weight_of weights_table ''L1_near_duplicate'' (l1_weight l1))] else []) @
         (if l3_enabled l3
          then [(content_entropy_layer (rt_f64 R) (rt_text R) (rt_char_iter R)
                   \<lparr> cl_entropy_low = l3_entropy_low l3, cl_entropy_high = l3_entropy_high l3,
                     cl_min_len_for_low = l3_min_len_for_low l3, cl_emoji_density_knee = l3_emoji_density_knee l3,
                     cl_hashtag_density_knee = l3_hashtag_density_knee l3 \<rparr>,
                 weight_of weights_table ''L3_content_entropy'' (l3_weight l3))] else []) @
         (if l4_enabled l4
          then [(link_mention_layer (rt_f64 R) (rt_text R) (rt_host_iter R)
                   \<lparr> lm_url_ratio_knee = l4_url_ratio_knee l4,
                     lm_domain_concentration_knee = l4_domain_concentration_knee l4,
                     lm_mean_ptags_knee = l4_mean_ptags_knee l4, lm_mean_ttags_knee = l4_mean_ttags_knee l4,
                     lm_min_events = l4_min_events l4 \<rparr>,
                 weight_of weights_table ''L4_link_mention'' (l4_weight l4))] else []))"

definition from_config :: "'f runtime \<Rightarrow> 'f HunterConfig \<Rightarrow> 'f Weight list \<Rightarrow> 'f ScoringStage" where
  "from_config R config weights_table =
     (let ls = enabled_layers R (hc_layers config) weights_table
      in \<lparr> st_layers = map fst ls, st_weights = map snd ls,
           st_bias = weight_of weights_table BIAS_KEY (hc_bias config),
           st_tau = tau_of weights_table (hc_tau config) \<rparr>)"

fun score_loop :: "'f runtime \<Rightarrow> 'f Layer list \<Rightarrow> ClientEvent list \<Rightarrow> bool \<Rightarrow> 'f SubScore list option" where
  "score_loop R [] events whitelisted = Some []"
| "score_loop R (ly # layers) events whitelisted =
     Option.bind (ly_score ly events whitelisted) (\<lambda>out.
     Option.bind (score_loop R layers events whitelisted) (\<lambda>subscores.
     Some (\<lparr> ss_layer = ly_name ly, ss_value = lo_value out, ss_evidence = Some (rt_render R (lo_evidence out)) \<rparr> # subscores)))"

definition stage_score ::
  "'f runtime \<Rightarrow> 'f ScoringStage \<Rightarrow> int \<Rightarrow> string \<Rightarrow> ClientEvent list \<Rightarrow> bool \<Rightarrow> 'f Persist option" where
  "stage_score R stage rid pubkey events whitelisted =
     Option.bind (score_loop R (st_layers stage) events whitelisted) (\<lambda>subscores.
       let score = combine (rt_f64 R) (st_weights stage) (st_bias stage) (map ss_value subscores)
       in Some \<lparr> p_run_id = rid, p_pubkey = pubkey, p_score = score, p_whitelisted = whitelisted,
                 p_suspected = f_less (rt_f64 R) (st_tau stage) score, p_subscores = subscores \<rparr>)"

section \<open>The weight table\<close>

definition config_layer_keys :: "string list" where
  "config_layer_keys = [''L0_whitelist_absence'', ''L1_near_duplicate'', ''L3_content_entropy'', ''L4_link_mention'']"

definition read_weights :: "'f Database \<Rightarrow> 'f Weight list" where
  "read_weights db = sort_key w_layer (t_weight db)"

definition weight_row :: "string \<Rightarrow> 'f \<Rightarrow> 'f option \<Rightarrow> 'f Weight" where
  "weight_row layer weight threshold =
     \<lparr> w_layer = layer, w_weight = weight, w_threshold = threshold, w_tuned_at = None, w_tuned_from_run = None \<rparr>"

definition insert_weight :: "'f Weight \<Rightarrow> 'f Database \<Rightarrow> (sqlite_error, 'f Database) result" where
  "insert_weight w db =
     (if w_layer w \<in> w_layer ` set (t_weight db) then Inl UniqueFailed
      else Inr (db\<lparr> t_weight := t_weight db @ [w] \<rparr>))"

definition seed_rows :: "'f HunterConfig \<Rightarrow> 'f Weight list" where
  "seed_rows config =
     (let lc = hc_layers config
      in [weight_row ''L0_whitelist_absence'' (l0_weight (l0_whitelist_absence lc)) None,
          weight_row ''L1_near_duplicate'' (l1_weight (l1_near_duplicate lc)) None,
          weight_row ''L3_content_entropy'' (l3_weight (l3_content_entropy lc)) None,
          weight_row ''L4_link_mention'' (l4_weight (l4_link_mention lc)) None,
          weight_row BIAS_KEY (hc_bias config) None,
          weight_row THRESHOLD_KEY (hc_tau config) (Some (hc_tau config))])"

text \<open>Each insert is a transaction of its own: a crash may stop the seeding after any of them.\<close>

definition seed_weights_if_empty :: "'f HunterConfig \<Rightarrow> 'f Database \<Rightarrow> (sqlite_error, 'f Database) result" where
  "seed_weights_if_empty config db =
     (if list_ex (\<lambda>w. w_layer w \<in> set (config_layer_keys @ [BIAS_KEY, THRESHOLD_KEY])) (t_weight db) then Inr db
      else execute_all insert_weight (seed_rows config) db)"

section \<open>Looking weights up\<close>

definition weight_at :: "'f Weight list \<Rightarrow> string \<rightharpoonup> 'f Weight" where
  "weight_at ws = map_of (map (\<lambda>w. (w_layer w, w)) ws)"

lemma find_weight: "find (\<lambda>w. w_layer w = k) ws = weight_at ws k"
  by (induction ws) (simp_all add: weight_at_def)

lemma weight_of_at: "weight_of ws k fallback = (case weight_at ws k of Some w \<Rightarrow> w_weight w | None \<Rightarrow> fallback)"
  by (simp add: weight_of_def find_weight)

lemma tau_of_at: "tau_of ws fallback = (case Option.bind (weight_at ws THRESHOLD_KEY) w_threshold of Some t \<Rightarrow> t | None \<Rightarrow> fallback)"
  by (simp add: tau_of_def find_weight)

lemmas lookups = weight_of_at tau_of_at

lemma weight_at_append: "weight_at (xs @ ys) = weight_at ys ++ weight_at xs"
  by (simp add: weight_at_def)

lemma weight_at_sort:
  assumes "distinct (map w_layer ws)"
  shows "weight_at (sort_key w_layer ws) = weight_at ws"
proof -
  have "distinct (map fst (map (\<lambda>w. (w_layer w, w)) ws))" "distinct (map fst (map (\<lambda>w. (w_layer w, w)) (sort_key w_layer ws)))"
    using assms by (simp_all add: comp_def distinct_map)
  then show ?thesis
    unfolding weight_at_def by (intro map_of_inject_set [THEN iffD2]) simp_all
qed

lemma stage_cong:
  assumes "weight_at ws = weight_at ws'"
  shows "from_config R config ws = from_config R config ws'"
  by (simp add: from_config_def enabled_layers_def lookups assms cong: if_cong)

lemma execute_inserts:
  assumes "distinct (map w_layer (t_weight db @ ws))"
  shows "execute_all insert_weight ws db = Inr (db\<lparr> t_weight := t_weight db @ ws \<rparr>)"
  using assms
proof (induction ws arbitrary: db)
  case (Cons w ws)
  then show ?case
    using Cons.IH [of "db\<lparr> t_weight := t_weight db @ [w] \<rparr>"] by (simp add: insert_weight_def image_iff) 
qed simp

lemma seed_keys: "map w_layer (seed_rows config) = config_layer_keys @ [BIAS_KEY, THRESHOLD_KEY]"
  by (simp add: seed_rows_def weight_row_def config_layer_keys_def Let_def)

lemma distinct_seed_keys: "distinct (config_layer_keys @ [BIAS_KEY, THRESHOLD_KEY])"
  by (simp add: config_layer_keys_def BIAS_KEY_def THRESHOLD_KEY_def)

section \<open>Scoring\<close>

text \<open>The configuration of a layer by its name.\<close>

definition layer_enabled :: "'f HunterConfig \<Rightarrow> string \<Rightarrow> bool" where
  "layer_enabled config k =
     (let lc = hc_layers config
      in if k = ''L0_whitelist_absence'' then l0_enabled (l0_whitelist_absence lc)
         else if k = ''L1_near_duplicate'' then l1_enabled (l1_near_duplicate lc)
         else if k = ''L3_content_entropy'' then l3_enabled (l3_content_entropy lc)
         else l4_enabled (l4_link_mention lc))"

definition layer_default :: "'f HunterConfig \<Rightarrow> string \<Rightarrow> 'f" where
  "layer_default config k =
     (let lc = hc_layers config
      in if k = ''L0_whitelist_absence'' then l0_weight (l0_whitelist_absence lc)
         else if k = ''L1_near_duplicate'' then l1_weight (l1_near_duplicate lc)
         else if k = ''L3_content_entropy'' then l3_weight (l3_content_entropy lc)
         else l4_weight (l4_link_mention lc))"

lemma near_duplicate_total: "\<exists>out. near_duplicate_score F T ly events w = Some out"
  by (simp add: near_duplicate_score_def repeated_ratio_def Let_def count_clusters_eq)

lemma layer_totals:
  "\<exists>out. ly_score (whitelist_absence_layer F a) events w = Some out"
  "\<exists>out. ly_score (near_duplicate_layer F T nd) events w = Some out"
  "\<exists>out. ly_score (content_entropy_layer F T iter ce) events w = Some out"
  "\<exists>out. ly_score (link_mention_layer F T iter' lm) events w = Some out"
  by (simp_all add: whitelist_absence_layer_def near_duplicate_layer_def near_duplicate_total content_entropy_layer_def
      content_entropy_score_def link_mention_layer_def link_mention_score_def Let_def split: prod.split)

lemma layer_names [simp]:
  "ly_name (whitelist_absence_layer F a) = ''L0_whitelist_absence''"
  "ly_name (near_duplicate_layer F T nd) = ''L1_near_duplicate''"
  "ly_name (content_entropy_layer F T iter ce) = ''L3_content_entropy''"
  "ly_name (link_mention_layer F T iter' lm) = ''L4_link_mention''"
  by (simp_all add: whitelist_absence_layer_def near_duplicate_layer_def content_entropy_layer_def link_mention_layer_def)

lemma enabled_total: "(ly, wt) \<in> set (enabled_layers R lc ws) \<Longrightarrow> \<exists>out. ly_score ly events w = Some out"
  by (auto simp: enabled_layers_def Let_def layer_totals split: if_splits)

lemma enabled_names: "map (ly_name \<circ> fst) (enabled_layers R (hc_layers config) ws) = filter (layer_enabled config) config_layer_keys"
  by (simp add: enabled_layers_def Let_def config_layer_keys_def layer_enabled_def)

lemma enabled_weights:
  "(ly, wt) \<in> set (enabled_layers R (hc_layers config) ws) \<Longrightarrow> wt = weight_of ws (ly_name ly) (layer_default config (ly_name ly))"
  by (auto simp: enabled_layers_def Let_def layer_default_def split: if_splits)

lemma score_loop_total:
  "\<forall>ly\<in>set layers. \<exists>out. ly_score ly events w = Some out \<Longrightarrow>
   \<exists>subscores. score_loop R layers events w = Some subscores \<and> map ss_layer subscores = map ly_name layers"
  by (induction layers) fastforce+

text \<open>
  C33: scoring an author always returns, and pairs every weight with the sub-score of its own layer: the
  row has one sub-score per enabled layer in the declared order, its score is the combiner over the
  weights stored under the names of those layers (the configured ones where no row is stored), and it is
  suspected exactly when the score exceeds the stored threshold.
\<close>

theorem stage_score_spec:
  "\<exists>p. stage_score R (from_config R config ws) rid pk events w = Some p \<and>
     p_run_id p = rid \<and> p_pubkey p = pk \<and> p_whitelisted p = w \<and>
     map ss_layer (p_subscores p) = filter (layer_enabled config) config_layer_keys \<and>
     p_score p = combine (rt_f64 R) (map (\<lambda>s. weight_of ws (ss_layer s) (layer_default config (ss_layer s))) (p_subscores p))
       (weight_of ws BIAS_KEY (hc_bias config)) (map ss_value (p_subscores p)) \<and>
     (p_suspected p \<longleftrightarrow> f_less (rt_f64 R) (tau_of ws (hc_tau config)) (p_score p))"
proof -
  let ?ls = "enabled_layers R (hc_layers config) ws"
  obtain ss where ss: "score_loop R (map fst ?ls) events w = Some ss" "map ss_layer ss = map ly_name (map fst ?ls)"
    using score_loop_total [of "map fst ?ls" events w R] enabled_total [of _ _ R "hc_layers config" ws events w] by fastforce
  have "map snd ?ls = map (\<lambda>k. weight_of ws k (layer_default config k)) (map ly_name (map fst ?ls))"
    using enabled_weights [of _ _ R config ws] by (auto simp: comp_def)
  then have "map snd ?ls = map (\<lambda>s. weight_of ws (ss_layer s) (layer_default config (ss_layer s))) ss"
    unfolding ss(2) [symmetric] by (simp add: comp_def)
  then show ?thesis
    using ss enabled_names [of R config ws] by (simp add: stage_score_def from_config_def Let_def)
qed

text \<open>
  Seeding gives the configured stage and never overwrites a tuned one: on a table without any of the
  six combiner rows it succeeds and the stage built from the table is the one the configuration
  describes; on any other table it changes nothing.
\<close>

theorem seed_weights_stage:
  assumes "distinct (map w_layer (t_weight db))"
  shows "\<exists>db'. seed_weights_if_empty config db = Inr db' \<and>
    (if \<exists>w\<in>set (t_weight db). w_layer w \<in> set (config_layer_keys @ [BIAS_KEY, THRESHOLD_KEY]) then db' = db
     else from_config R config (read_weights db') = from_config R config [] \<and>
       db' = db\<lparr> t_weight := t_weight db @ seed_rows config \<rparr>)"
proof (cases "\<exists>w\<in>set (t_weight db). w_layer w \<in> set (config_layer_keys @ [BIAS_KEY, THRESHOLD_KEY])")
  case True
  then show ?thesis
    by (simp only: seed_weights_if_empty_def list_ex_iff if_True) blast
next
  case False
  let ?ws = "t_weight db @ seed_rows config"
  have d: "distinct (map w_layer ?ws)"
    unfolding map_append distinct_append seed_keys using assms distinct_seed_keys False by auto
  have db': "seed_weights_if_empty config db = Inr (db\<lparr> t_weight := ?ws \<rparr>)"
    using False execute_inserts [OF d] by (simp only: seed_weights_if_empty_def list_ex_iff if_False)
  have "weight_at ?ws k = weight_at (seed_rows config) k" if "k \<in> set (config_layer_keys @ [BIAS_KEY, THRESHOLD_KEY])" for k
  proof -
    have "weight_at (t_weight db) k = None"
      using False that unfolding weight_at_def map_of_eq_None_iff by auto
    then show ?thesis
      by (simp add: weight_at_append map_add_def split: option.split)
  qed
  then have "from_config R config ?ws = from_config R config (seed_rows config)"
    by (simp add: from_config_def enabled_layers_def lookups config_layer_keys_def Let_def cong: if_cong)
  also have "\<dots> = from_config R config []"
    by (simp add: from_config_def enabled_layers_def lookups seed_rows_def weight_row_def weight_at_def BIAS_KEY_def
        THRESHOLD_KEY_def Let_def cong: if_cong)
  finally have "from_config R config (read_weights (db\<lparr> t_weight := ?ws \<rparr>)) = from_config R config []"
    using stage_cong [OF weight_at_sort [OF d]] by (simp add: read_weights_def)
  then show ?thesis
    using db' False by auto
qed

definition example_config :: "rat option HunterConfig" where
  "example_config = \<lparr> hc_adapter_url = ''http://127.0.0.1:8080/graphql'', hc_whitelist_url = ''http://127.0.0.1:8081'',
     hc_tau = Some (1/2), hc_bias = Some (-4),
     hc_layers = \<lparr> l0_whitelist_absence = \<lparr> l0_enabled = True, l0_weight = Some (4/5), l0_absence_subscore = Some 1 \<rparr>,
       l1_near_duplicate = \<lparr> l1_enabled = True, l1_weight = Some 2, l1_hamming_threshold = 3, l1_shingle_size = 3, l1_min_events = 5 \<rparr>,
       l3_content_entropy = \<lparr> l3_enabled = True, l3_weight = Some (3/2), l3_entropy_low = Some 2, l3_entropy_high = Some (11/2),
         l3_min_len_for_low = 200, l3_emoji_density_knee = Some (1/2), l3_hashtag_density_knee = Some (3/10) \<rparr>,
       l4_link_mention = \<lparr> l4_enabled = True, l4_weight = Some (3/2), l4_url_ratio_knee = Some (4/5),
         l4_domain_concentration_knee = Some (7/10), l4_mean_ptags_knee = Some 10, l4_mean_ttags_knee = Some 8, l4_min_events = 5 \<rparr> \<rparr>,
     hc_tune = \<lparr> tc_alpha = Some (1/100), tc_max_iterations = 100, tc_review_sample_size = 100 \<rparr> \<rparr>"

definition example_runtime :: "rat option runtime" where
  "example_runtime = \<lparr> rt_f64 = example_f64, rt_text = example_text, rt_char_iter = id, rt_host_iter = id, rt_render = (\<lambda>_. ''{}'') \<rparr>"

theorem seed_weights_stage_witness:
  "\<exists>db'. seed_weights_if_empty example_config bootstrap = Inr db' \<and> length (t_weight db') = 6 \<and>
     from_config example_runtime example_config (read_weights db') = from_config example_runtime example_config []"
  using seed_weights_stage [of bootstrap example_config example_runtime]
  by (auto simp: bootstrap_def seed_rows_def Let_def)

end
