(* ===== verification/Export.thy ===== *)
theory Export
  imports Scoring
begin

text \<open>
  \<^verbatim>\<open>spamhunter/pubkey_iterator/src/export.rs\<close>: the snapshot of a run's suspected pubkeys, ranked by score.
  The rows of a table are in the order of the statement that inserted them.  \<open>tau_in\<close> is the JSON parser
  applied to a stored snapshot: \<^const>\<open>None\<close> when it is not JSON, otherwise the number under \<^verbatim>\<open>tau\<close>, if there is one.
\<close>

section \<open>Operations\<close>

definition read_tau_from_run_snapshot ::
  "(string \<Rightarrow> 'f option option) \<Rightarrow> int \<Rightarrow> 'f Database \<Rightarrow> (sqlite_error, 'f) result" where
  "read_tau_from_run_snapshot tau_in rid db =
     (case find (\<lambda>r. run_id r = rid) (t_run db) of
        None \<Rightarrow> Inl QueryReturnedNoRows
      | Some r \<Rightarrow>
          (case tau_in (config_json r) of
             None \<Rightarrow> Inl InvalidColumnType
           | Some None \<Rightarrow> Inl InvalidColumnType
           | Some (Some tau) \<Rightarrow> Inr tau))"

text \<open>\<^verbatim>\<open>ORDER BY score DESC, pubkey ASC\<close>.\<close>

definition ranks_before :: "'f f64 \<Rightarrow> string \<times> 'f \<Rightarrow> string \<times> 'f \<Rightarrow> bool" where
  "ranks_before F a b \<longleftrightarrow> f_less F (snd b) (snd a) \<or> \<not> f_less F (snd a) (snd b) \<and> fst a < fst b"

fun insert_ranked :: "'f f64 \<Rightarrow> string \<times> 'f \<Rightarrow> (string \<times> 'f) list \<Rightarrow> (string \<times> 'f) list" where
  "insert_ranked F x [] = [x]"
| "insert_ranked F x (y # ys) = (if ranks_before F y x then y # insert_ranked F x ys else x # y # ys)"

definition order_ranked :: "'f f64 \<Rightarrow> (string \<times> 'f) list \<Rightarrow> (string \<times> 'f) list" where
  "order_ranked F rows = foldr (insert_ranked F) rows []"

definition suspected_rows :: "int \<Rightarrow> 'f Database \<Rightarrow> (string \<times> 'f) list" where
  "suspected_rows rid db =
     map (\<lambda>((_, pk), s, _). (pk, s)) (filter (\<lambda>((r, _), _, _, suspected). r = rid \<and> suspected) (t_score db))"

definition materialize_suspected ::
  "'f f64 \<Rightarrow> (string \<Rightarrow> 'f option option) \<Rightarrow> int \<Rightarrow> int \<Rightarrow> 'f Database \<Rightarrow> (sqlite_error, nat \<times> 'f Database) result" where
  "materialize_suspected F tau_in now rid db =
     bind_r (read_tau_from_run_snapshot tau_in rid db) (\<lambda>tau.
       let rows = order_ranked F (suspected_rows rid db);
           inserted = map (\<lambda>(i, pk, s). ((rid, pk), (s, tau, i + 1, now))) (enumerate 0 rows)
       in Inr (length rows, db\<lparr> t_suspected := filter (\<lambda>((r, _), _). r \<noteq> rid) (t_suspected db) @ inserted \<rparr>))"

definition latest_done_run :: "'f Database \<Rightarrow> int option" where
  "latest_done_run db =
     (case map run_id (filter (\<lambda>r. status r = ''done'') (t_run db)) of
        [] \<Rightarrow> None | rid # rids \<Rightarrow> Some (fold max rids rid))"

section \<open>Ranking\<close>

text \<open>A comparison of scores as SQLite makes it: no not-a-number among them.\<close>

definition total_on :: "'f f64 \<Rightarrow> 'f set \<Rightarrow> bool" where
  "total_on F A \<longleftrightarrow>
     (\<forall>a\<in>A. \<not> f_less F a a) \<and> (\<forall>a\<in>A. \<forall>b\<in>A. a = b \<or> f_less F a b \<or> f_less F b a) \<and>
     (\<forall>a\<in>A. \<forall>b\<in>A. \<forall>c\<in>A. f_less F a b \<longrightarrow> f_less F b c \<longrightarrow> f_less F a c)"

lemma total_onD:
  assumes "total_on F A"
  shows "a \<in> A \<Longrightarrow> \<not> f_less F a a"
    "a \<in> A \<Longrightarrow> b \<in> A \<Longrightarrow> a = b \<or> f_less F a b \<or> f_less F b a"
    "a \<in> A \<Longrightarrow> b \<in> A \<Longrightarrow> c \<in> A \<Longrightarrow> f_less F a b \<Longrightarrow> f_less F b c \<Longrightarrow> f_less F a c"
  using assms unfolding total_on_def by blast+

lemma ranks_before_iff:
  assumes "total_on F A" "snd a \<in> A" "snd b \<in> A"
  shows "ranks_before F a b \<longleftrightarrow> f_less F (snd b) (snd a) \<or> snd a = snd b \<and> fst a < fst b"
  unfolding ranks_before_def using total_onD(1,2) [OF assms(1)] assms(2,3) by metis

lemma ranks_before_total:
  assumes "total_on F A" "snd a \<in> A" "snd b \<in> A" "a \<noteq> b"
  shows "ranks_before F a b \<or> ranks_before F b a"
  using ranks_before_iff [OF assms(1-3)] ranks_before_iff [OF assms(1,3,2)] total_onD(2) [OF assms(1-3)] assms(4)
  by (metis linorder_less_linear prod_eqI)

lemma ranks_before_trans:
  assumes "total_on F A" "snd a \<in> A" "snd b \<in> A" "snd c \<in> A" "ranks_before F a b" "ranks_before F b c"
  shows "ranks_before F a c"
  using assms(5,6) ranks_before_iff [OF assms(1-3)] ranks_before_iff [OF assms(1,3,4)] ranks_before_iff [OF assms(1,2,4)]
    total_onD(3) [OF assms(1,4,3,2)] by (metis less_trans)

lemma mset_insert_ranked: "mset (insert_ranked F x ys) = add_mset x (mset ys)"
  by (induction ys) auto

lemma mset_order_ranked: "mset (order_ranked F rows) = mset rows"
  unfolding order_ranked_def by (induction rows) (simp_all add: mset_insert_ranked)

lemma set_order_ranked: "set (order_ranked F rows) = set rows"
  by (metis mset_order_ranked set_mset_mset)

lemma sorted_insert_ranked:
  assumes A: "total_on F A" "snd x \<in> A" "snd ` set ys \<subseteq> A" and "x \<notin> set ys" "sorted_wrt (ranks_before F) ys"
  shows "sorted_wrt (ranks_before F) (insert_ranked F x ys)"
  using assms(3-5)
proof (induction ys)
  case (Cons y ys)
  have set: "set (insert_ranked F x ys) = insert x (set ys)"
    by (metis mset_insert_ranked set_mset_add_mset_insert set_mset_mset)
  show ?case
  proof (cases "ranks_before F y x")
    case True
    then show ?thesis
      using Cons by (simp add: set)
  next
    case False
    then have xy: "ranks_before F x y"
      using ranks_before_total [OF A(1,2), of y] Cons.prems(1,2) by auto
    then have "ranks_before F x z" if "z \<in> set ys" for z
      using ranks_before_trans [OF A(1,2), of y z] Cons.prems that by auto
    then show ?thesis
      using xy False Cons.prems(3) by simp
  qed
qed simp

lemma sorted_order_ranked:
  assumes "total_on F A" "snd ` set rows \<subseteq> A" "distinct rows"
  shows "sorted_wrt (ranks_before F) (order_ranked F rows)"
  using assms(2,3)
proof (induction rows)
  case (Cons r rows)
  have "set (order_ranked F rows) = set rows"
    by (rule set_order_ranked)
  then show ?case
    using sorted_insert_ranked [OF assms(1), of r "order_ranked F rows"] Cons by (simp add: order_ranked_def)
qed (simp add: order_ranked_def)

lemma distinct_suspected:
  assumes "distinct (map fst (t_score db))"
  shows "distinct (map fst (suspected_rows rid db))"
proof -
  have "distinct (map fst (filter (\<lambda>((r, _), _, _, suspected). r = rid \<and> suspected) (t_score db)))"
    using assms by (rule distinct_map_filter)
  moreover have "inj_on snd (fst ` set (filter (\<lambda>((r, _), _, _, suspected). r = rid \<and> suspected) (t_score db)))"
    by (rule inj_onI) auto
  ultimately have "distinct (map snd (map fst (filter (\<lambda>((r, _), _, _, suspected). r = rid \<and> suspected) (t_score db))))"
    by (simp add: distinct_map comp_inj_on image_image inj_on_image_iff)
  moreover have "map fst (suspected_rows rid db) =
      map snd (map fst (filter (\<lambda>((r, _), _, _, suspected). r = rid \<and> suspected) (t_score db)))"
    by (simp add: suspected_rows_def)
  ultimately show ?thesis
    by simp
qed

lemma suspected_iff:
  assumes "distinct (map fst (t_score db))"
  shows "(pk, s) \<in> set (suspected_rows rid db) \<longleftrightarrow> (\<exists>w. map_of (t_score db) (rid, pk) = Some (s, w, True))"
  using assms by (force simp: suspected_rows_def)

section \<open>Properties\<close>

definition example_suspects :: "rat option Database" where
  "example_suspects = bootstrap\<lparr> t_run := [example_run], t_run_seq := 1, t_pubkey := [''a'', ''b'', ''c''],
     t_score := [((1, ''a''), (Some (3/5), False, True)), ((1, ''b''), (Some (9/10), False, True)),
       ((1, ''c''), (Some (1/10), True, False))],
     t_suspected := [((1, ''z''), (Some 1, Some 1, 1, 0))] \<rparr>"

lemma materialize_rows:
  assumes "db_inv db" "total_on F (fst ` snd ` set (t_score db))"
    and "materialize_suspected F tau_in now rid db = Inr (n, db')"
  shows "(\<exists>tau rows. read_tau_from_run_snapshot tau_in rid db = Inr tau \<and> n = length rows \<and>
      sorted_wrt (ranks_before F) rows \<and> distinct (map fst rows) \<and>
      (\<forall>pk s. (pk, s) \<in> set rows \<longleftrightarrow> (\<exists>w. map_of (t_score db) (rid, pk) = Some (s, w, True))) \<and>
      db' = db\<lparr> t_suspected := filter (\<lambda>((r, _), _). r \<noteq> rid) (t_suspected db) @
        map (\<lambda>i. ((rid, fst (rows ! i)), (snd (rows ! i), tau, i + 1, now))) [0..<n] \<rparr>) \<and>
    materialize_suspected F tau_in now rid db' = Inr (n, db')"
proof -
  let ?rows = "order_ranked F (suspected_rows rid db)"
  have keys: "distinct (map fst (t_score db))"
    using assms(1) by (simp add: db_inv_def)
  obtain tau where tau: "read_tau_from_run_snapshot tau_in rid db = Inr tau"
    using assms(3) by (auto simp: materialize_suspected_def bind_r_eq_Inr)
  have rows: "distinct (map fst (suspected_rows rid db))" "snd ` set (suspected_rows rid db) \<subseteq> fst ` snd ` set (t_score db)"
    by (rule distinct_suspected [OF keys]) (force simp: suspected_rows_def)
  have "distinct (suspected_rows rid db)"
    using rows(1) by (simp add: distinct_map)
  then have sorted: "sorted_wrt (ranks_before F) ?rows"
    using sorted_order_ranked [OF assms(2) rows(2)] by blast
  have "mset (map fst ?rows) = mset (map fst (suspected_rows rid db))"
    by (simp add: mset_order_ranked)
  then have dist: "distinct (map fst ?rows)"
    using rows(1) by (metis distinct_count_atmost_1 mset_eq_imp_distinct_iff)
  have en: "map (\<lambda>(i, pk, s). ((rid, pk), (s, tau, i + 1, now))) (enumerate 0 xs) =
      map (\<lambda>i. ((rid, fst (xs ! i)), (snd (xs ! i), tau, i + 1, now))) [0..<length xs]" for xs :: "(string \<times> 'a) list"
    by (rule nth_equalityI) (auto simp: nth_enumerate_eq split: prod.split)
  have mat: "n = length ?rows" "db' = db\<lparr> t_suspected := filter (\<lambda>((r, _), _). r \<noteq> rid) (t_suspected db) @
      map (\<lambda>i. ((rid, fst (?rows ! i)), (snd (?rows ! i), tau, i + 1, now))) [0..<length ?rows] \<rparr>"
    using assms(3) tau en [of ?rows] by (auto simp: materialize_suspected_def Let_def)
  have "read_tau_from_run_snapshot tau_in rid db' = Inr tau" "suspected_rows rid db' = suspected_rows rid db"
    using tau by (simp_all add: mat(2) read_tau_from_run_snapshot_def suspected_rows_def)
  moreover have "filter (\<lambda>((r, _), _). r \<noteq> rid) (t_suspected db') = filter (\<lambda>((r, _), _). r \<noteq> rid) (t_suspected db)"
    by (simp add: mat(2) filter_map comp_def case_prod_beta')
  ultimately have "materialize_suspected F tau_in now rid db' = Inr (n, db')"
    using mat en [of ?rows] by (simp add: materialize_suspected_def Let_def)
  then show ?thesis
    using tau mat sorted dist suspected_iff [OF keys] set_order_ranked [of F "suspected_rows rid db"] by blast
qed

text \<open>
  C40: the export is exact: it replaces the run's snapshot by one row for every suspected pubkey of the
  run and nothing else, each with the score and the threshold of the run, ranked \<open>1..n\<close> from the highest
  score with ties in the order of the pubkeys; other runs and other tables keep their rows, and exporting
  again changes nothing but the time stamp.
\<close>

theorem materialize_suspected_exact:
  assumes "db_inv db" "total_on F (fst ` snd ` set (t_score db))"
    and "materialize_suspected F tau_in now rid db = Inr (n, db')"
  shows "(\<exists>tau rows. read_tau_from_run_snapshot tau_in rid db = Inr tau \<and> n = length rows \<and>
      sorted_wrt (ranks_before F) rows \<and> distinct (map fst rows) \<and>
      (\<forall>pk s. (pk, s) \<in> set rows \<longleftrightarrow> (\<exists>w. map_of (t_score db) (rid, pk) = Some (s, w, True))) \<and>
      db' = db\<lparr> t_suspected := filter (\<lambda>((r, _), _). r \<noteq> rid) (t_suspected db) @
        map (\<lambda>i. ((rid, fst (rows ! i)), (snd (rows ! i), tau, i + 1, now))) [0..<n] \<rparr>) \<and>
    materialize_suspected F tau_in now rid db' = Inr (n, db')"
  using assms by (rule materialize_rows)

theorem materialize_suspected_exact_witness:
  "\<exists>n db'. materialize_suspected example_f64 (\<lambda>_. Some (Some (Some (1/2)))) 7 1 example_suspects = Inr (n, db') \<and>
     t_suspected db' = [((1, ''b''), (Some (9/10), Some (1/2), 1, 7)), ((1, ''a''), (Some (3/5), Some (1/2), 2, 7))] \<and>
     materialize_suspected example_f64 (\<lambda>_. Some (Some (Some (1/2)))) 7 1 db' = Inr (n, db')"
proof -
  have "\<exists>n db'. materialize_suspected example_f64 (\<lambda>_. Some (Some (Some (1/2)))) 7 1 example_suspects = Inr (n, db') \<and>
      t_suspected db' = [((1, ''b''), (Some (9/10), Some (1/2), 1, 7)), ((1, ''a''), (Some (3/5), Some (1/2), 2, 7))]"
    by (simp add: materialize_suspected_def read_tau_from_run_snapshot_def example_suspects_def bootstrap_def example_run_def
        suspected_rows_def order_ranked_def ranks_before_def example_f64_def enumerate_eq_zip Let_def)
  moreover have "db_inv example_suspects"
    by (simp add: db_inv_def example_suspects_def bootstrap_def example_run_def has_run_def)
  moreover have "total_on example_f64 (fst ` snd ` set (t_score example_suspects))"
    by (simp add: total_on_def example_suspects_def bootstrap_def example_f64_def)
  ultimately show ?thesis
    using materialize_suspected_exact by blast
qed

end
