(* ===== verification/Enumerate.thy ===== *)
theory Enumerate
  imports GraphqlClient HunterStore
begin

text \<open>
  \<^verbatim>\<open>spamhunter/pubkey_iterator/src/enumerate.rs\<close>: the resumable walk over the \<^verbatim>\<open>authors\<close> pages, as a step
  machine whose statements interleave with the turns of the store's writer thread, with failures of
  SQLite, with crashes and with restarts.  The client is a parameter: the answer to a request as a
  function of the number of requests sent so far.  What a crash keeps is the committed database; under
  \<^verbatim>\<open>synchronous=NORMAL\<close> a power loss may fall back to an earlier commit, which is a crash at that earlier
  point.
\<close>

section \<open>The machine\<close>

definition LIMIT :: int where "LIMIT = 500"

record client =
  c_authors :: "nat \<Rightarrow> string option \<Rightarrow> int \<Rightarrow> (ClientError, ClientAuthorsPage) result"
  c_stats :: "nat \<Rightarrow> (ClientError, int) result"

datatype EnumerateError = Client ClientError | StoreFailed sqlite_error

definition is_valid_pubkey :: "string \<Rightarrow> bool" where
  "is_valid_pubkey pk \<longleftrightarrow> length (as_bytes pk) = 64 \<and>
     list_all (\<lambda>b. 48 \<le> b \<and> b \<le> 57 \<or> 97 \<le> b \<and> b \<le> 102) (as_bytes pk)"

fun is_invalid_cursor :: "ClientError \<Rightarrow> bool" where
  "is_invalid_cursor (Graphql (Some code) msg) = (code = ''INVALID_CURSOR'')"
| "is_invalid_cursor e = False"

text \<open>
  Where \<^verbatim>\<open>run\<close> stands, with its local variables: the run, the cursor \<^verbatim>\<open>after\<close>, the \<^verbatim>\<open>count\<close> of pubkeys seen.  The two flushes of
  the code are one pair of states: with the cursor to store, or without one for the final barrier.
\<close>

datatype walk_pc =
  Select bool
| ProbeStart int "string option" "int option"
| FetchPage int "string option" nat
| FlushSend int "string option" nat
| FlushWait int "string option" nat nat
| AdvanceCursor int string nat
| ProbeEnd int
| Returned int
| Failed EnumerateError
| Panicked

record 'f walk =
  wk_store :: "'f Store"
  wk_pc :: walk_pc
  wk_clock :: nat
  wk_acks :: nat
  wk_config :: string
  wk_limit :: "nat option"

definition launch :: "'f Database \<Rightarrow> bool \<Rightarrow> string \<Rightarrow> nat option \<Rightarrow> nat \<Rightarrow> 'f walk" where
  "launch db resume config lim clock =
     \<lparr> wk_store = open_store db, wk_pc = Select resume, wk_clock = clock, wk_acks = 0, wk_config = config, wk_limit = lim \<rparr>"

definition on_db :: "('f Database \<Rightarrow> 'f Database) \<Rightarrow> 'f walk \<Rightarrow> 'f walk" where
  "on_db f w = w\<lparr> wk_store := (wk_store w)\<lparr> s_db := f (s_db (wk_store w)) \<rparr> \<rparr>"

definition jump :: "walk_pc \<Rightarrow> 'f walk \<Rightarrow> 'f walk" where
  "jump pc w = w\<lparr> wk_pc := pc \<rparr>"

definition tick :: "nat \<Rightarrow> 'f walk \<Rightarrow> 'f walk" where
  "tick t w = w\<lparr> wk_clock := t \<rparr>"

text \<open>One statement per state.\<close>

definition step_select :: "int \<Rightarrow> bool \<Rightarrow> 'f walk \<Rightarrow> 'f walk" where
  "step_select now resume w =
     (let db = s_db (wk_store w)
      in case (if resume then latest_unfinished_run db else None) of
           Some run \<Rightarrow>
             jump (ProbeStart (run_id run) (last_cursor run) (max_lev_id_start run))
               (on_db (set_run_config_json (run_id run) (wk_config w)) w)
         | None \<Rightarrow>
             (case begin_run now (wk_config w) db of
                Inl e \<Rightarrow> jump (Failed (StoreFailed e)) w
              | Inr (rid, db') \<Rightarrow> jump (ProbeStart rid None None) (on_db (\<lambda>_. db') w)))"

definition step_probe_start :: "client \<Rightarrow> int \<Rightarrow> string option \<Rightarrow> int option \<Rightarrow> 'f walk \<Rightarrow> 'f walk" where
  "step_probe_start cl rid after existing_start w =
     (case retry (c_stats cl) (wk_clock w) of
        (Inl e, t, _) \<Rightarrow> jump (Failed (Client e)) (tick t w)
      | (Inr max_start, t, _) \<Rightarrow>
          jump (FetchPage rid after 0)
            (if existing_start = None then on_db (set_run_max_lev_start rid max_start) (tick t w) else tick t w))"

definition step_fetch :: "client \<Rightarrow> int \<Rightarrow> int \<Rightarrow> string option \<Rightarrow> nat \<Rightarrow> 'f walk \<Rightarrow> 'f walk" where
  "step_fetch cl now rid after seen w =
     (case retry (\<lambda>t. c_authors cl t after LIMIT) (wk_clock w) of
        (Inl e, t, _) \<Rightarrow>
          if is_invalid_cursor e \<and> after \<noteq> None
          then jump (FetchPage rid None seen) (tick t w)
          else jump (Failed (Client e)) (on_db (mark_run_aborted now rid) (tick t w))
      | (Inr page, t, _) \<Rightarrow>
          (let valid = filter is_valid_pubkey (cp_authors page)
           in case insert_pubkeys valid (wk_store w) of
                None \<Rightarrow> jump Panicked (tick t w)
              | Some st \<Rightarrow> jump (FlushSend rid (cp_end_cursor page) (seen + length valid)) ((tick t w)\<lparr> wk_store := st \<rparr>)))"

definition step_flush_send :: "int \<Rightarrow> string option \<Rightarrow> nat \<Rightarrow> 'f walk \<Rightarrow> 'f walk" where
  "step_flush_send rid cursor seen w =
     (jump (FlushWait rid cursor (wk_acks w) seen) w)\<lparr>
        wk_store := flush_send (wk_acks w) (wk_store w), wk_acks := wk_acks w + 1 \<rparr>"

definition step_advance :: "int \<Rightarrow> string \<Rightarrow> nat \<Rightarrow> 'f walk \<Rightarrow> 'f walk" where
  "step_advance rid c seen w =
     jump (case wk_limit w of
             Some lim \<Rightarrow> if lim \<le> seen then FlushSend rid None seen else FetchPage rid (Some c) seen
           | None \<Rightarrow> FetchPage rid (Some c) seen)
       (on_db (set_run_cursor rid c) w)"

definition step_probe_end :: "client \<Rightarrow> int \<Rightarrow> 'f walk \<Rightarrow> 'f walk" where
  "step_probe_end cl rid w =
     (case retry (c_stats cl) (wk_clock w) of
        (Inl e, t, _) \<Rightarrow> jump (Failed (Client e)) (tick t w)
      | (Inr max_end, t, _) \<Rightarrow> jump (Returned rid) (on_db (set_run_max_lev_end rid max_end) (tick t w)))"

text \<open>\<^const>\<open>None\<close> is a walk that has ended or that waits for a flush.\<close>

definition enum_step :: "client \<Rightarrow> int \<Rightarrow> 'f walk \<Rightarrow> 'f walk option" where
  "enum_step cl now w =
     (case wk_pc w of
        Select resume \<Rightarrow> Some (step_select now resume w)
      | ProbeStart rid after existing_start \<Rightarrow> Some (step_probe_start cl rid after existing_start w)
      | FetchPage rid after seen \<Rightarrow> Some (step_fetch cl now rid after seen w)
      | FlushSend rid cursor seen \<Rightarrow> Some (step_flush_send rid cursor seen w)
      | FlushWait rid cursor ack seen \<Rightarrow>
          if flush_returns ack (wk_store w)
          then Some (jump (case cursor of Some c \<Rightarrow> AdvanceCursor rid c seen | None \<Rightarrow> ProbeEnd rid) w)
          else None
      | AdvanceCursor rid c seen \<Rightarrow> Some (step_advance rid c seen w)
      | ProbeEnd rid \<Rightarrow> Some (step_probe_end cl rid w)
      | Returned rid \<Rightarrow> None
      | Failed e \<Rightarrow> None
      | Panicked \<Rightarrow> None)"

text \<open>The states in which the next statement calls SQLite on a connection of its own.\<close>

fun calls_sqlite :: "walk_pc \<Rightarrow> bool" where
  "calls_sqlite (Select resume) = True"
| "calls_sqlite (ProbeStart rid after existing_start) = (existing_start = None)"
| "calls_sqlite (FetchPage rid after seen) = True"
| "calls_sqlite (AdvanceCursor rid c seen) = True"
| "calls_sqlite (ProbeEnd rid) = True"
| "calls_sqlite pc = False"

definition with_turn :: "nat \<Rightarrow> 'f walk \<Rightarrow> 'f walk" where
  "with_turn n w = w\<lparr> wk_store := writer_turn n (wk_store w) \<rparr>"

text \<open>
  One step of a process: a statement of the walk or a turn of the writer.
\<close>

inductive advances :: "client \<Rightarrow> 'f walk \<Rightarrow> 'f walk \<Rightarrow> bool" for cl where
  statement: "enum_step cl now w = Some w' \<Longrightarrow> advances cl w w'"
| turn: "turn_ok n (wk_store w) \<Longrightarrow> advances cl w (with_turn n w)"

text \<open>
  The histories of a database under walks: each may be cut short at any point by a crash and followed
  by another launch; a call of SQLite may fail; the scoring caller marks a returned run done.  The flag
  \<open>faults\<close> admits failures of the writer's own transactions.
\<close>

inductive history :: "client \<Rightarrow> bool \<Rightarrow> 'f walk \<Rightarrow> bool" for cl faults where
  boot: "history cl faults (launch bootstrap resume config lim clock)"
| progress: "history cl faults w \<Longrightarrow> advances cl w w' \<Longrightarrow> history cl faults w'"
| sqlite_error: "history cl faults w \<Longrightarrow> calls_sqlite (wk_pc w) \<Longrightarrow> history cl faults (jump (Failed (StoreFailed e)) w)"
| writer_fault: "history cl faults w \<Longrightarrow> faults \<Longrightarrow> s_writer (wk_store w) = None \<Longrightarrow>
    history cl faults (w\<lparr> wk_store := writer_fails e (wk_store w) \<rparr>)"
| crash: "history cl faults w \<Longrightarrow> history cl faults (launch (s_db (wk_store w)) resume config lim clock)"
| finish: "history cl faults w \<Longrightarrow> wk_pc w = Returned rid \<Longrightarrow>
    mark_run_done now rid m (s_db (wk_store w)) = Inr db \<Longrightarrow> history cl faults (on_db (\<lambda>_. db) w)"

end
