(* ===== verification/WalkSafety.thy ===== *)
theory WalkSafety
  imports Enumerate
begin

text \<open>
  What the walk of \<open>Enumerate\<close> guarantees against a service that pages a fixed list of keys: an
  invariant over every interleaving, failure and restart (stored cursors never pass a key that is not
  durable, a walk that returns has stored every key), and termination.  The last section shows where
  the guarantee ends: a failing transaction of the writer.
\<close>


section \<open>The authors service\<close>

definition queued :: "'f WriteMsg list \<Rightarrow> string set" where
  "queued q = set (concat (map msg_pubkeys q))"

lemma queued_simps [simp]:
  "queued [] = {}"
  "queued (m # q) = set (msg_pubkeys m) \<union> queued q"
  "queued (q @ q') = queued q \<union> queued q'"
  by (auto simp: queued_def)

lemma queued_take_drop: "queued (take n q) \<union> queued (drop n q) = queued q"
  using queued_simps(3) [of "take n q" "drop n q"] by simp

text \<open>
  What a client of the adapter relies on: \<open>behind\<close> gives the keys behind a cursor, and an answered page
  and its cursor split the keys behind the cursor it was asked for.
\<close>

lemma select_pc:
  "(\<exists>rid after existing. wk_pc (step_select now resume w) = ProbeStart rid after existing) \<or>
   wk_pc (step_select now resume w) = Failed (StoreFailed DatabaseFull)"
  by (auto simp: step_select_def begin_run_def jump_def Let_def split: option.splits)

lemma advance_pc: "wk_pc (step_advance rid c seen w) \<in> {FlushSend rid None seen, FetchPage rid (Some c) seen}"
  by (auto simp: step_advance_def jump_def split: option.splits)

locale authors_service =
  fixes cl :: client and keys :: "string list" and behind :: "string option \<Rightarrow> string list"
    and known :: "string option \<Rightarrow> bool"
  assumes known_None: "known None"
    and behind_None: "behind None = keys"
    and keys_valid: "k \<in> set keys \<Longrightarrow> is_valid_pubkey k"
    and behind_keys: "known after \<Longrightarrow> set (behind after) \<subseteq> set keys"
    and page: "known after \<Longrightarrow> c_authors cl t after LIMIT = Inr p \<Longrightarrow>
      behind after = cp_authors p @ (case cp_end_cursor p of None \<Rightarrow> [] | Some c \<Rightarrow> behind (Some c))"
    and next_known: "known after \<Longrightarrow> c_authors cl t after LIMIT = Inr p \<Longrightarrow> cp_end_cursor p = Some c \<Longrightarrow>
      known (Some c)"
begin

text \<open>Every key is in the set or still behind the cursor.\<close>

definition covered :: "string set \<Rightarrow> string option \<Rightarrow> bool" where
  "covered X after \<longleftrightarrow> set keys \<subseteq> X \<union> set (behind after)"

definition cursor_safe :: "'f Database \<Rightarrow> bool" where
  "cursor_safe db \<longleftrightarrow>
     (\<forall>r\<in>set (t_run db). \<forall>c. last_cursor r = Some c \<longrightarrow> known (Some c) \<and> covered (set (t_pubkey db)) (Some c))"

text \<open>What the next flush must have made durable.\<close>

definition owed :: "nat option \<Rightarrow> string option \<Rightarrow> string set \<Rightarrow> bool" where
  "owed lim cursor X \<longleftrightarrow>
     (case cursor of Some c \<Rightarrow> known (Some c) \<and> covered X (Some c) | None \<Rightarrow> lim = None \<longrightarrow> set keys \<subseteq> X)"

definition pc_ok :: "nat option \<Rightarrow> walk_pc \<Rightarrow> string set \<Rightarrow> 'f WriteMsg list \<Rightarrow> bool" where
  "pc_ok lim pc D q \<longleftrightarrow>
     (case pc of
        ProbeStart rid after existing \<Rightarrow> q = [] \<and> known after \<and> covered D after
      | FetchPage rid after seen \<Rightarrow> q = [] \<and> known after \<and> covered D after
      | FlushSend rid cursor seen \<Rightarrow> owed lim cursor (D \<union> queued q)
      | FlushWait rid cursor ack seen \<Rightarrow> (q = [] \<or> last q = Flush ack) \<and> owed lim cursor (D \<union> queued q)
      | AdvanceCursor rid c seen \<Rightarrow> q = [] \<and> owed lim (Some c) D
      | ProbeEnd rid \<Rightarrow> q = [] \<and> owed lim None D
      | Returned rid \<Rightarrow> q = [] \<and> owed lim None D
      | _ \<Rightarrow> q = [])"

definition walk_inv :: "'f walk \<Rightarrow> bool" where
  "walk_inv w \<longleftrightarrow>
     (let s = wk_store w; D = set (t_pubkey (s_db s))
      in db_inv (s_db s) \<and> s_open s \<and> s_writer s = None \<and> (\<forall>m\<in>set (s_queue s). msg_runs m = []) \<and>
         D \<union> queued (s_queue s) \<subseteq> set keys \<and> cursor_safe (s_db s) \<and> pc_ok (wk_limit w) (wk_pc w) D (s_queue s))"

lemma covered_mono: "covered X after \<Longrightarrow> X \<subseteq> Y \<Longrightarrow> covered Y after"
  by (auto simp: covered_def)

lemma cursor_safe_mono:
  "cursor_safe db \<Longrightarrow> t_run db' = t_run db \<Longrightarrow> set (t_pubkey db) \<subseteq> set (t_pubkey db') \<Longrightarrow> cursor_safe db'"
  by (auto simp: cursor_safe_def intro: covered_mono)

lemma cursor_safe_update:
  assumes "cursor_safe db"
    and "\<And>r c. last_cursor (f r) = Some c \<Longrightarrow> last_cursor r \<noteq> Some c \<Longrightarrow>
      known (Some c) \<and> covered (set (t_pubkey db)) (Some c)"
  shows "cursor_safe (update_run f rid db)"
  using assms by (auto simp: cursor_safe_def update_run_def)

lemma cursor_safe_begin: "cursor_safe db \<Longrightarrow> begin_run now config db = Inr (rid, db') \<Longrightarrow> cursor_safe db'"
  by (auto simp: begin_run_def cursor_safe_def Let_def split: if_splits)

lemma launch_inv: "db_inv db \<Longrightarrow> set (t_pubkey db) \<subseteq> set keys \<Longrightarrow> cursor_safe db \<Longrightarrow> walk_inv (launch db resume config lim clock)"
  by (simp add: walk_inv_def launch_def open_store_def pc_ok_def)

lemma turn_inv:
  assumes inv: "walk_inv w"
  shows "walk_inv (with_turn n w)"
proof -
  let ?s = "wk_store w" and ?q = "s_queue (wk_store w)"
  let ?db = "s_db ?s" and ?q' = "drop n ?q"
  let ?db' = "apply_msgs (take n ?q) ?db"
  have old: "db_inv ?db" "\<forall>m\<in>set ?q. msg_runs m = []" "cursor_safe ?db" "s_open ?s" "s_writer ?s = None"
    "set (t_pubkey ?db) \<union> queued ?q \<subseteq> set keys" "pc_ok (wk_limit w) (wk_pc w) (set (t_pubkey ?db)) ?q"
    using inv by (simp_all add: walk_inv_def Let_def)
  have runs: "runs_exist (take k ?q) ?db" for k
    using old(2) by (auto simp: runs_exist_def list_all_iff dest!: in_set_takeD)
  have turn: "writer_turn n ?s = ?s\<lparr> s_db := ?db', s_queue := ?q' \<rparr>"
    using runs [of "length ?q"] by (intro writer_turn_ok) simp
  have D: "set (t_pubkey ?db') = set (t_pubkey ?db) \<union> queued (take n ?q)" and run: "t_run ?db' = t_run ?db"
    by (simp_all add: apply_msgs_def queued_def Un_commute)
  have all: "set (t_pubkey ?db') \<union> queued ?q' = set (t_pubkey ?db) \<union> queued ?q"
    unfolding D using queued_take_drop [of n ?q] by blast
  have "cursor_safe ?db'"
    by (rule cursor_safe_mono [OF old(3) run]) (simp add: D)
  moreover have "db_inv ?db'"
    using old(1) runs by (rule apply_msgs_inv)
  moreover have "\<forall>m\<in>set ?q'. msg_runs m = []"
    using old(2) by (auto dest: in_set_dropD)
  moreover have "pc_ok (wk_limit w) (wk_pc w) (set (t_pubkey ?db')) ?q'"
    using old(7) all D by (cases "wk_pc w"; cases "n < length ?q") (auto simp: pc_ok_def)
  moreover have "set (t_pubkey ?db') \<union> queued ?q' \<subseteq> set keys"
    unfolding all by (rule old(6))
  ultimately show ?thesis
    using old(4,5) unfolding walk_inv_def with_turn_def turn Let_def by simp
qed

abbreviation (input) durable :: "'f walk \<Rightarrow> string set" where
  "durable w \<equiv> set (t_pubkey (s_db (wk_store w)))"

lemma walk_inv_pc: "walk_inv w \<Longrightarrow> pc_ok (wk_limit w) (wk_pc w) (durable w) (s_queue (wk_store w))"
  by (simp add: walk_inv_def Let_def)

lemma walk_inv_tick [simp]: "walk_inv (tick t w) = walk_inv w"
  by (simp add: walk_inv_def tick_def)

lemma tick_sel [simp]:
  "wk_store (tick t w) = wk_store w" "wk_limit (tick t w) = wk_limit w" "wk_pc (tick t w) = wk_pc w"
  by (simp_all add: tick_def)

lemma walk_inv_jump:
  "walk_inv w \<Longrightarrow> pc_ok (wk_limit w) pc (durable w) (s_queue (wk_store w)) \<Longrightarrow> walk_inv (jump pc w)"
  by (simp add: walk_inv_def Let_def jump_def)

text \<open>A run row is updated and the walk moves on.\<close>

lemma walk_inv_update:
  assumes "walk_inv w" "run_update f" "pc_ok (wk_limit w) pc (durable w) (s_queue (wk_store w))"
    and "\<And>r c. last_cursor (f r) = Some c \<Longrightarrow> last_cursor r \<noteq> Some c \<Longrightarrow> known (Some c) \<and> covered (durable w) (Some c)"
  shows "walk_inv (jump pc (on_db (update_run f rid) w))"
proof -
  have "cursor_safe (update_run f rid (s_db (wk_store w)))"
    using assms(1,4) by (intro cursor_safe_update) (simp_all add: walk_inv_def Let_def)
  moreover have "db_inv (update_run f rid (s_db (wk_store w)))"
    using assms(1,2) by (intro run_update.update_inv) (simp_all add: walk_inv_def Let_def)
  ultimately show ?thesis
    using assms(1,3) by (simp add: walk_inv_def Let_def jump_def on_db_def) (simp add: update_run_def)
qed

lemma select_inv:
  assumes inv: "walk_inv w" and pc: "wk_pc w = Select resume"
  shows "walk_inv (step_select now resume w)"
proof (cases "if resume then latest_unfinished_run (s_db (wk_store w)) else None")
  case (Some run)
  have "run \<in> set (rev (t_run (s_db (wk_store w))))"
    using Some by (auto simp: latest_unfinished_run_def find_Some_iff simp del: set_rev split: if_splits)
  then have "known (last_cursor run) \<and> covered (durable w) (last_cursor run)"
    using inv known_None behind_None
    by (cases "last_cursor run") (auto simp: walk_inv_def Let_def cursor_safe_def covered_def)
  then have "walk_inv (jump (ProbeStart (run_id run) (last_cursor run) (max_lev_id_start run))
      (on_db (update_run (\<lambda>r. r\<lparr> config_json := wk_config w \<rparr>) (run_id run)) w))"
    using walk_inv_pc [OF inv] pc
    by (intro walk_inv_update [OF inv] config_update.run_update_axioms) (simp_all add: pc_ok_def)
  then show ?thesis
    using Some by (simp add: step_select_def set_run_config_json_def Let_def)
next
  case None
  show ?thesis
  proof (cases "begin_run now (wk_config w) (s_db (wk_store w))")
    case (Inl e)
    have "walk_inv (jump (Failed (StoreFailed e)) w)"
      using walk_inv_pc [OF inv] pc by (intro walk_inv_jump [OF inv]) (simp add: pc_ok_def)
    then show ?thesis
      using Inl None by (simp add: step_select_def)
  next
    case (Inr r)
    obtain rid db where r: "r = (rid, db)"
      by (cases r)
    have "t_pubkey db = t_pubkey (s_db (wk_store w))"
      using Inr r by (auto simp: begin_run_def Let_def split: if_splits)
    moreover have "db_inv db" "cursor_safe db"
      using begin_run_inv cursor_safe_begin inv Inr r by (simp_all add: walk_inv_def Let_def) blast+
    ultimately show ?thesis
      using inv pc None Inr r known_None behind_None
      by (simp add: step_select_def jump_def on_db_def walk_inv_def Let_def pc_ok_def covered_def)
  qed
qed

lemma probe_start_inv:
  assumes inv: "walk_inv w" and pc: "wk_pc w = ProbeStart rid after existing"
  shows "walk_inv (step_probe_start cl rid after existing w)"
proof -
  obtain r t sl where r: "retry (c_stats cl) (wk_clock w) = (r, t, sl)"
    by (cases "retry (c_stats cl) (wk_clock w)")
  have "walk_inv (jump (Failed (Client e)) (tick t w))" for e
    using walk_inv_pc [OF inv] pc inv by (intro walk_inv_jump) (simp_all add: pc_ok_def)
  moreover have "walk_inv (jump (FetchPage rid after 0) (tick t w))"
    using walk_inv_pc [OF inv] pc inv by (intro walk_inv_jump) (simp_all add: pc_ok_def)
  moreover have "walk_inv (jump (FetchPage rid after 0) (on_db (set_run_max_lev_start rid v) (tick t w)))" for v
    unfolding set_run_max_lev_start_def using walk_inv_pc [OF inv] pc inv
    by (intro walk_inv_update start_update.run_update_axioms) (simp_all add: pc_ok_def)
  ultimately show ?thesis
    using r by (cases r) (simp_all add: step_probe_start_def)
qed

lemma fetch_inv:
  assumes inv: "walk_inv w" and pc: "wk_pc w = FetchPage rid after seen"
  shows "walk_inv (step_fetch cl now rid after seen w)"
proof -
  have known: "known after" and cov: "covered (durable w) after" and q: "s_queue (wk_store w) = []"
    using walk_inv_pc [OF inv] pc by (simp_all add: pc_ok_def)
  obtain r t sl where r: "retry (\<lambda>t. c_authors cl t after LIMIT) (wk_clock w) = (r, t, sl)"
    by (cases "retry (\<lambda>t. c_authors cl t after LIMIT) (wk_clock w)")
  show ?thesis
  proof (cases r)
    case (Inl e)
    have "walk_inv (jump (FetchPage rid None seen) (tick t w))"
      using inv q known_None behind_None by (intro walk_inv_jump) (simp_all add: pc_ok_def covered_def)
    moreover have "walk_inv (jump (Failed (Client e)) (on_db (mark_run_aborted now rid) (tick t w)))"
      unfolding mark_run_aborted_def using inv q
      by (intro walk_inv_update abort_update.run_update_axioms) (simp_all add: pc_ok_def)
    ultimately show ?thesis
      using r Inl by (simp add: step_fetch_def)
  next
    case (Inr p)
    obtain k where p: "c_authors cl k after LIMIT = Inr p"
      using retry_Inr [OF r [unfolded Inr]] by blast
    have authors: "set (cp_authors p) \<subseteq> set keys"
      using page [OF known p] behind_keys [OF known] by auto
    then have valid: "filter is_valid_pubkey (cp_authors p) = cp_authors p"
      using keys_valid by (auto intro!: filter_True)
    have "owed (wk_limit w) (cp_end_cursor p) (durable w \<union> set (cp_authors p))"
      using cov page [OF known p] next_known [OF known p]
      by (auto simp: owed_def covered_def split: option.splits)
    then show ?thesis
      using inv r Inr valid authors q
      by (simp add: step_fetch_def insert_pubkeys_def send_def jump_def tick_def walk_inv_def Let_def pc_ok_def)
  qed
qed

lemma flush_send_inv:
  assumes "walk_inv w" "wk_pc w = FlushSend rid cursor seen"
  shows "walk_inv (step_flush_send rid cursor seen w)"
  using assms by (simp add: step_flush_send_def flush_send_def jump_def walk_inv_def Let_def pc_ok_def)

lemma flush_wait_inv:
  assumes inv: "walk_inv w" and pc: "wk_pc w = FlushWait rid cursor ack seen" and ret: "flush_returns ack (wk_store w)"
  shows "walk_inv (jump (case cursor of Some c \<Rightarrow> AdvanceCursor rid c seen | None \<Rightarrow> ProbeEnd rid) w)"
proof -
  have "s_queue (wk_store w) = []"
    using walk_inv_pc [OF inv] pc ret last_in_set by (force simp: flush_returns_def pc_ok_def)
  then show ?thesis
    using walk_inv_pc [OF inv] pc by (intro walk_inv_jump [OF inv]) (cases cursor; simp add: pc_ok_def)
qed

lemma advance_inv:
  assumes inv: "walk_inv w" and pc: "wk_pc w = AdvanceCursor rid c seen"
  shows "walk_inv (step_advance rid c seen w)"
proof -
  have c: "known (Some c)" "covered (durable w) (Some c)" "s_queue (wk_store w) = []"
    using walk_inv_pc [OF inv] pc by (simp_all add: pc_ok_def owed_def)
  then have "pc_ok (wk_limit w) (case wk_limit w of
      Some lim \<Rightarrow> if lim \<le> seen then FlushSend rid None seen else FetchPage rid (Some c) seen
    | None \<Rightarrow> FetchPage rid (Some c) seen) (durable w) (s_queue (wk_store w))"
    by (auto simp: pc_ok_def owed_def split: option.splits)
  then show ?thesis
    unfolding step_advance_def set_run_cursor_def
    using c by (intro walk_inv_update [OF inv] cursor_update.run_update_axioms) auto
qed

lemma probe_end_inv:
  assumes inv: "walk_inv w" and pc: "wk_pc w = ProbeEnd rid"
  shows "walk_inv (step_probe_end cl rid w)"
proof -
  obtain r t sl where r: "retry (c_stats cl) (wk_clock w) = (r, t, sl)"
    by (cases "retry (c_stats cl) (wk_clock w)")
  have "walk_inv (jump (Failed (Client e)) (tick t w))" for e
    using walk_inv_pc [OF inv] pc inv by (intro walk_inv_jump) (simp_all add: pc_ok_def)
  moreover have "walk_inv (jump (Returned rid) (on_db (set_run_max_lev_end rid v) (tick t w)))" for v
    unfolding set_run_max_lev_end_def using walk_inv_pc [OF inv] pc inv
    by (intro walk_inv_update end_update.run_update_axioms) (simp_all add: pc_ok_def)
  ultimately show ?thesis
    using r by (cases r) (simp_all add: step_probe_end_def)
qed

lemmas step_invs = select_inv probe_start_inv fetch_inv flush_send_inv flush_wait_inv advance_inv probe_end_inv

lemma enum_step_inv: "walk_inv w \<Longrightarrow> enum_step cl now w = Some w' \<Longrightarrow> walk_inv w'"
  by (cases "wk_pc w") (auto simp: enum_step_def intro: step_invs split: if_splits)

lemma advances_inv: "advances cl w w' \<Longrightarrow> walk_inv w \<Longrightarrow> walk_inv w'"
  by (induction rule: advances.induct) (simp_all add: enum_step_inv turn_inv)

lemma history_inv: "history cl False w \<Longrightarrow> walk_inv w"
proof (induction rule: history.induct)
  case (boot resume config lim clock)
  show ?case
    by (rule launch_inv [OF bootstrap_inv]) (simp_all add: bootstrap_def cursor_safe_def)
next
  case (sqlite_error w e)
  then show ?case
    by (cases "wk_pc w") (auto simp: jump_def walk_inv_def Let_def pc_ok_def)
next
  case (crash w resume config lim clock)
  then show ?case
    by (intro launch_inv) (simp_all add: walk_inv_def Let_def)
next
  case (finish w rid now m db)
  let ?upd = "\<lambda>r. r\<lparr> status := ''done'', finished_at := Some now, max_lev_id_end := Some m \<rparr>"
  have db: "db = update_run ?upd rid (s_db (wk_store w))"
    using finish.hyps by (simp add: mark_run_done_def split: if_splits)
  have "cursor_safe db"
    unfolding db using finish by (intro cursor_safe_update) (simp_all add: walk_inv_def Let_def)
  moreover have "db_inv db"
    unfolding db using finish by (intro done_update.update_inv) (simp add: walk_inv_def Let_def)
  ultimately show ?case
    using finish by (simp add: on_db_def walk_inv_def Let_def) (simp add: db update_run_def)
qed (simp_all add: advances_inv)

text \<open>The guarantee on the database, and the outcome of a walk without a limit.\<close>

lemma cursor_guarantee:
  "history cl False w \<Longrightarrow> r \<in> set (t_run (s_db (wk_store w))) \<Longrightarrow> last_cursor r = Some c \<Longrightarrow>
   set keys \<subseteq> durable w \<union> set (behind (Some c))"
  using history_inv by (fastforce simp: walk_inv_def Let_def cursor_safe_def covered_def)

lemma returned_complete:
  assumes "history cl False w" "wk_pc w = Returned rid" "wk_limit w = None"
  shows "read_pubkeys (s_db (wk_store w)) = sorted_list_of_set (set keys)"
proof -
  have "walk_inv w"
    by (rule history_inv [OF assms(1)])
  then have "durable w = set keys" "distinct (t_pubkey (s_db (wk_store w)))"
    using assms(2,3) by (auto simp: walk_inv_def Let_def pc_ok_def owed_def db_inv_def)
  then show ?thesis
    using sorted_list_of_set_sort_remdups [of "t_pubkey (s_db (wk_store w))"]
    by (simp add: read_pubkeys_def distinct_remdups_id)
qed

end

section \<open>Termination\<close>

text \<open>A service that answers every request, with pages that move on.\<close>

locale sure_service = authors_service +
  assumes stats_ok: "\<exists>m. c_stats cl t = Inr m"
    and pages_ok: "known after \<Longrightarrow> \<exists>p. c_authors cl t after LIMIT = Inr p"
    and moves_on: "known after \<Longrightarrow> c_authors cl t after LIMIT = Inr p \<Longrightarrow> cp_end_cursor p = Some c \<Longrightarrow> cp_authors p \<noteq> []"
begin

definition pages_left :: "walk_pc \<Rightarrow> nat" where
  "pages_left pc =
     (let left = (\<lambda>cursor. case cursor of None \<Rightarrow> 0 | Some c \<Rightarrow> Suc (length (behind (Some c))))
      in case pc of
           ProbeStart rid after existing \<Rightarrow> Suc (length (behind after))
         | FetchPage rid after seen \<Rightarrow> Suc (length (behind after))
         | FlushSend rid cursor seen \<Rightarrow> left cursor
         | FlushWait rid cursor ack seen \<Rightarrow> left cursor
         | AdvanceCursor rid c seen \<Rightarrow> left (Some c)
         | _ \<Rightarrow> 0)"

definition pc_rank :: "walk_pc \<Rightarrow> nat" where
  "pc_rank pc =
     (case pc of Select resume \<Rightarrow> 6 | ProbeStart rid after existing \<Rightarrow> 5 | FlushSend rid cursor seen \<Rightarrow> 4
      | FlushWait rid cursor ack seen \<Rightarrow> 3 | AdvanceCursor rid c seen \<Rightarrow> 2 | FetchPage rid after seen \<Rightarrow> 1
      | ProbeEnd rid \<Rightarrow> 1 | _ \<Rightarrow> 0)"

definition walk_order :: "('f walk \<times> 'f walk) set" where
  "walk_order = measures [\<lambda>w. if pc_rank (wk_pc w) = 6 then 1 else 0, \<lambda>w. pages_left (wk_pc w),
     \<lambda>w. pc_rank (wk_pc w), \<lambda>w. length (s_queue (wk_store w))]"

lemma retry_stats: obtains m t' sl where "retry (c_stats cl) t = (Inr m, t', sl)"
  using retry_sure [of "c_stats cl" t] stats_ok by blast

lemma retry_authors:
  assumes "known after"
  obtains p t' sl k where "retry (\<lambda>t. c_authors cl t after LIMIT) t = (Inr p, t', sl)" "c_authors cl k after LIMIT = Inr p"
  using retry_sure [of "\<lambda>t. c_authors cl t after LIMIT" t] pages_ok [OF assms] retry_Inr by (metis (no_types, lifting))

lemma fetch_step:
  assumes inv: "walk_inv w" and pc: "wk_pc w = FetchPage rid after seen"
  obtains cursor seen' where "wk_pc (step_fetch cl now rid after seen w) = FlushSend rid cursor seen'"
    "pages_left (FlushSend rid cursor seen') < Suc (length (behind after))"
proof -
  have known: "known after" and st: "s_open (wk_store w)" "s_writer (wk_store w) = None"
    using inv pc by (simp_all add: walk_inv_def Let_def pc_ok_def)
  obtain p t sl k where p: "retry (\<lambda>t. c_authors cl t after LIMIT) (wk_clock w) = (Inr p, t, sl)" "c_authors cl k after LIMIT = Inr p"
    using retry_authors [OF known] by blast
  have "pages_left (FlushSend rid (cp_end_cursor p) n) < Suc (length (behind after))" for n
    using page [OF known p(2)] moves_on [OF known p(2)]
    by (cases "cp_end_cursor p") (auto simp: pages_left_def)
  moreover have "wk_pc (step_fetch cl now rid after seen w) =
      FlushSend rid (cp_end_cursor p) (seen + length (filter is_valid_pubkey (cp_authors p)))"
    using p(1) st by (simp add: step_fetch_def insert_pubkeys_def send_def jump_def tick_def Let_def)
  ultimately show thesis
    using that by blast
qed

lemma statement_order:
  assumes inv: "walk_inv w" and step: "enum_step cl now w = Some w'"
  shows "(w', w) \<in> walk_order"
proof (cases "wk_pc w")
  case (FetchPage rid after seen)
  obtain cursor seen' where "wk_pc w' = FlushSend rid cursor seen'"
    "pages_left (FlushSend rid cursor seen') < Suc (length (behind after))"
    using fetch_step [OF inv FetchPage, of now] step FetchPage by (auto simp: enum_step_def)
  moreover have "pages_left (wk_pc w) = Suc (length (behind after))"
    by (simp add: FetchPage pages_left_def)
  ultimately show ?thesis
    by (simp add: FetchPage walk_order_def pc_rank_def)
next
  case (ProbeStart rid after existing)
  obtain m t sl where "retry (c_stats cl) (wk_clock w) = (Inr m, t, sl)"
    by (rule retry_stats)
  then show ?thesis
    using step ProbeStart
    by (auto simp: enum_step_def step_probe_start_def jump_def walk_order_def pc_rank_def pages_left_def)
next
  case (ProbeEnd rid)
  obtain m t sl where "retry (c_stats cl) (wk_clock w) = (Inr m, t, sl)"
    by (rule retry_stats)
  then show ?thesis
    using step ProbeEnd
    by (auto simp: enum_step_def step_probe_end_def jump_def walk_order_def pc_rank_def pages_left_def)
next
  case (Select resume)
  have "pc_rank (wk_pc w') \<noteq> 6"
    using step Select select_pc [of now resume w] by (auto simp: enum_step_def pc_rank_def)
  then show ?thesis
    by (simp add: Select walk_order_def) (simp add: pc_rank_def)
next
  case (AdvanceCursor rid c seen)
  have "wk_pc w' \<in> {FlushSend rid None seen, FetchPage rid (Some c) seen}"
    using step AdvanceCursor advance_pc [of rid c seen w] by (simp add: enum_step_def)
  then show ?thesis
    using AdvanceCursor by (auto simp: walk_order_def pc_rank_def pages_left_def)
qed (use step in \<open>auto simp: enum_step_def step_flush_send_def jump_def walk_order_def pc_rank_def pages_left_def
        split: if_splits option.splits\<close>)

lemma advances_order: "advances cl w w' \<Longrightarrow> walk_inv w \<Longrightarrow> (w', w) \<in> walk_order"
proof (induction rule: advances.induct)
  case (turn n w)
  have "runs_exist (s_queue (wk_store w)) (s_db (wk_store w))"
    using turn by (auto simp: walk_inv_def Let_def runs_exist_def list_all_iff)
  then show ?case
    using turn(1) by (auto simp: with_turn_def writer_turn_ok turn_ok_def walk_order_def)
qed (rule statement_order)

text \<open>A walk that cannot move has ended.\<close>

lemma stuck_final:
  assumes inv: "walk_inv w" and stuck: "\<And>w'. \<not> advances cl w w'"
  shows "(\<exists>rid. wk_pc w = Returned rid) \<or> (\<exists>e. wk_pc w = Failed e) \<or> wk_pc w = Panicked"
proof -
  have none: "enum_step cl now w = None" for now
    using stuck advances.statement by (metis not_None_eq)
  have "s_queue (wk_store w) = []"
  proof (rule ccontr)
    assume "s_queue (wk_store w) \<noteq> []"
    then have "turn_ok 1 (wk_store w)"
      using inv by (cases "s_queue (wk_store w)") (simp_all add: turn_ok_def BATCH_def walk_inv_def Let_def)
    then show False
      using stuck advances.turn by blast
  qed
  then show ?thesis
    using none by (cases "wk_pc w") (auto simp: enum_step_def flush_returns_def)
qed

text \<open>With such a service the only failure left is an exhausted id space.\<close>

definition healthy :: "walk_pc \<Rightarrow> bool" where
  "healthy pc \<longleftrightarrow> pc \<noteq> Panicked \<and> (\<forall>e. pc = Failed e \<longrightarrow> e = StoreFailed DatabaseFull)"

lemma statement_healthy:
  assumes inv: "walk_inv w" and step: "enum_step cl now w = Some w'"
  shows "healthy (wk_pc w')"
proof (cases "wk_pc w")
  case (FetchPage rid after seen)
  have "w' = step_fetch cl now rid after seen w"
    using step FetchPage by (simp add: enum_step_def)
  then obtain cursor seen' where "wk_pc w' = FlushSend rid cursor seen'"
    using fetch_step [OF inv FetchPage, of now] by metis
  then show ?thesis
    by (simp add: healthy_def)
next
  case (ProbeStart rid after existing)
  obtain m t sl where "retry (c_stats cl) (wk_clock w) = (Inr m, t, sl)"
    by (rule retry_stats)
  then show ?thesis
    using step ProbeStart by (auto simp: enum_step_def step_probe_start_def jump_def healthy_def)
next
  case (ProbeEnd rid)
  obtain m t sl where "retry (c_stats cl) (wk_clock w) = (Inr m, t, sl)"
    by (rule retry_stats)
  then show ?thesis
    using step ProbeEnd by (auto simp: enum_step_def step_probe_end_def jump_def healthy_def)
next
  case (Select resume)
  then show ?thesis
    using step select_pc [of now resume w] by (auto simp: enum_step_def healthy_def)
next
  case (AdvanceCursor rid c seen)
  then show ?thesis
    using step advance_pc [of rid c seen w] by (auto simp: enum_step_def healthy_def)
next
  case (FlushWait rid cursor ack seen)
  then show ?thesis
    using step by (cases cursor) (auto simp: enum_step_def jump_def healthy_def split: if_splits)
qed (use step in \<open>auto simp: enum_step_def step_flush_send_def jump_def healthy_def\<close>)

lemma advances_healthy: "advances cl w w' \<Longrightarrow> walk_inv w \<Longrightarrow> healthy (wk_pc w) \<Longrightarrow> healthy (wk_pc w')"
  by (induction rule: advances.induct) (simp_all add: statement_healthy with_turn_def)

lemma walk_reaches:
  assumes "(advances cl)\<^sup>*\<^sup>* w w'" "walk_inv w" "healthy (wk_pc w)"
  shows "walk_inv w' \<and> healthy (wk_pc w')"
  using assms by (induction rule: rtranclp_induct) (auto intro: advances_inv advances_healthy)

lemma walk_outcome:
  assumes "history cl False w" "healthy (wk_pc w)" "(advances cl)\<^sup>*\<^sup>* w w'" "\<And>w''. \<not> advances cl w' w''"
  shows "(\<exists>rid. wk_pc w' = Returned rid) \<or> wk_pc w' = Failed (StoreFailed DatabaseFull)"
proof -
  have "walk_inv w'" "healthy (wk_pc w')"
    using walk_reaches [OF assms(3) history_inv [OF assms(1)] assms(2)] by auto
  then show ?thesis
    using stuck_final [OF _ assms(4)] by (auto simp: healthy_def)
qed

lemma walk_stops:
  assumes "history cl False (f 0)"
  shows "\<not> (\<forall>i. advances cl (f i) (f (Suc i)))"
proof
  assume step: "\<forall>i. advances cl (f i) (f (Suc i))"
  have "walk_inv (f i)" for i
    by (induction i) (use step history_inv [OF assms] advances_inv in blast)+
  then have "(f (Suc i), f i) \<in> walk_order" for i
    using step advances_order by blast
  then show False
    using wf_no_infinite_down_chainE [of walk_order f] by (auto simp: walk_order_def)
qed

end

section \<open>A failing writer\<close>

text \<open>A service with two keys, one per page.\<close>

definition example_key_a :: string where "example_key_a = replicate 64 CHR ''a''"
definition example_key_b :: string where "example_key_b = replicate 64 CHR ''b''"

definition example_client :: client where
  "example_client = \<lparr> c_authors = (\<lambda>t after lim. Inr (if after = None
       then \<lparr> cp_authors = [example_key_a], cp_has_more = True, cp_end_cursor = Some example_key_a \<rparr>
       else \<lparr> cp_authors = [example_key_b], cp_has_more = False, cp_end_cursor = None \<rparr>)),
     c_stats = (\<lambda>t. Inr 7) \<rparr>"

lemma example_retry [simp]:
  "retry (c_stats example_client) t = (Inr 7, t + 1, [])"
  "retry (\<lambda>t. c_authors example_client t after lim) t = (Inr (if after = None
       then \<lparr> cp_authors = [example_key_a], cp_has_more = True, cp_end_cursor = Some example_key_a \<rparr>
       else \<lparr> cp_authors = [example_key_b], cp_has_more = False, cp_end_cursor = None \<rparr>), t + 1, [])"
  by (simp_all add: retry_def MAX_ATTEMPTS_def numeral_eq_Suc example_client_def)

lemma example_key_valid: "is_valid_pubkey example_key_a" "is_valid_pubkey example_key_b"
  by code_simp+

text \<open>The walk up to the barrier behind the first page, before the writer has taken a turn.\<close>

definition example_waiting :: "unit walk" where
  "example_waiting =
     \<lparr> wk_store = \<lparr> s_db = bootstrap\<lparr> t_run := [\<lparr> run_id = 1, started_at = 0, finished_at = None, max_lev_id_start = Some 7,
           max_lev_id_end = None, last_cursor = None, config_json = [], status = ''running'' \<rparr>], t_run_seq := 1 \<rparr>,
         s_queue = [Pubkeys [example_key_a], Flush 0], s_open = True, s_writer = None \<rparr>,
       wk_pc = FlushWait 1 (Some example_key_a) 0 1, wk_clock = 2, wk_acks = 1, wk_config = [], wk_limit = None \<rparr>"

lemma example_reaches_waiting: "history example_client faults example_waiting"
proof -
  let ?w0 = "launch bootstrap False [] None 0 :: unit walk"
  let ?w1 = "the (enum_step example_client 0 ?w0)"
  let ?w2 = "the (enum_step example_client 0 ?w1)"
  let ?w3 = "the (enum_step example_client 0 ?w2)"
  let ?w4 = "the (enum_step example_client 0 ?w3)"
  note simps = launch_def open_store_def enum_step_def step_select_def begin_run_def jump_def on_db_def bootstrap_def
    step_probe_start_def tick_def set_run_max_lev_start_def update_run_def step_fetch_def insert_pubkeys_def send_def
    step_flush_send_def flush_send_def example_key_valid example_waiting_def
  have "enum_step example_client 0 ?w0 = Some ?w1" "enum_step example_client 0 ?w1 = Some ?w2"
    "enum_step example_client 0 ?w2 = Some ?w3" "enum_step example_client 0 ?w3 = Some example_waiting"
    by (simp_all add: simps)
  then show ?thesis
    by (metis history.boot history.progress advances.statement)
qed

text \<open>
  C29: the barrier does not survive a failing writer.  When the transaction with a page's pubkeys fails,
  the writer thread ends and drops the acknowledgement, \<^verbatim>\<open>flush\<close> returns normally, and the next statement
  makes the cursor durable although no pubkey of the page is: a resumed walk skips the page for good.
\<close>

theorem flush_hides_writer_failure:
  "\<exists>w r. history example_client True (w :: unit walk) \<and> t_run (s_db (wk_store w)) = [r] \<and>
     last_cursor r = Some example_key_a \<and> t_pubkey (s_db (wk_store w)) = [] \<and>
     c_authors example_client t (last_cursor r) LIMIT =
       Inr \<lparr> cp_authors = [example_key_b], cp_has_more = False, cp_end_cursor = None \<rparr>"
proof -
  let ?w1 = "example_waiting\<lparr> wk_store := writer_fails SqliteIo (wk_store example_waiting) \<rparr>"
  let ?w2 = "the (enum_step example_client 0 ?w1)"
  let ?w3 = "the (enum_step example_client 0 ?w2)"
  note simps = writer_fails_def example_waiting_def enum_step_def flush_returns_def jump_def step_advance_def on_db_def
    set_run_cursor_def update_run_def bootstrap_def
  have "history example_client True ?w1"
    using history.writer_fault [OF example_reaches_waiting, of True SqliteIo] by (simp add: example_waiting_def)
  moreover have "enum_step example_client 0 ?w1 = Some ?w2" "enum_step example_client 0 ?w2 = Some ?w3"
    by (simp_all add: simps)
  ultimately have "history example_client True ?w3"
    by (metis history.progress advances.statement)
  moreover have "\<exists>r. t_run (s_db (wk_store ?w3)) = [r] \<and> last_cursor r = Some example_key_a"
    "t_pubkey (s_db (wk_store ?w3)) = []"
    by (simp_all add: simps)
  ultimately show ?thesis
    unfolding example_client_def by fastforce
qed

end
