(* ===== verification/Adapter.thy ===== *)
theory Adapter
  imports Resolvers Fetch WalkSafety
begin

text \<open>
  The two programs together: the spam hunter's walk and its batched fetch against the resolvers of
  LMDB2GraphQL.  A backend is an environment and a client whose successful answers are those of the
  resolvers; requests may fail in any way at any time.  The laws the clients rely on are discharged
  from the resolvers' properties, so the guarantees of the walk and of the fetch become statements on
  the index.
\<close>

section \<open>The wire\<close>

definition client_page :: "AuthorsPage \<Rightarrow> ClientAuthorsPage" where
  "client_page p = \<lparr> cp_authors = ap_authors p, cp_has_more = ap_has_more p, cp_end_cursor = ap_end_cursor p \<rparr>"

definition client_event :: "Event \<Rightarrow> ClientEvent" where
  "client_event e = \<lparr> ce_id = g_id e, ce_pubkey = g_pubkey e, ce_kind = g_kind e, ce_created_at = g_created_at e,
     ce_content = g_content e, ce_tags = g_tags e \<rparr>"

definition wire_error :: "gql_error \<Rightarrow> ClientError" where
  "wire_error e = Graphql (err_code e) (err_message e)"

text \<open>The adapter reached without a failure of the transport.\<close>

definition index_client :: "heed_env \<Rightarrow> int \<Rightarrow> client" where
  "index_client env max_lev =
     \<lparr> c_authors = (\<lambda>t after lim. map_err wire_error (map_ok client_page (authors_resolver env after (Some (word_of_int lim))))),
       c_stats = (\<lambda>t. Inr max_lev) \<rparr>"

definition answers_authors :: "heed_env \<Rightarrow> client \<Rightarrow> bool" where
  "answers_authors env cl \<longleftrightarrow>
     (\<forall>t after p. c_authors cl t after LIMIT = Inr p \<longrightarrow>
        (\<exists>page. authors_resolver env after (Some 500) = Inr page \<and> p = client_page page))"

text \<open>The groups of an answer list a map in some order.\<close>

definition lists_groups :: "AuthorGroups \<Rightarrow> AuthorGroup list \<Rightarrow> bool" where
  "lists_groups m groups \<longleftrightarrow>
     distinct (map ag_author groups) \<and> ag_author ` set groups = dom m \<and>
     (\<forall>g\<in>set groups. Some (ag_events g) = map_option (map client_event) (m (ag_author g)))"

definition answers_latest ::
  "'dd codec \<Rightarrow> heed_env \<Rightarrow> u64 \<Rightarrow> i64 \<Rightarrow> i32 \<Rightarrow> latest_call \<Rightarrow> bool" where
  "answers_latest cd env now kind per_author lpa \<longleftrightarrow>
     (\<forall>t batch groups. lpa t batch = Inr groups \<longrightarrow>
        (\<exists>cache m cache'. cache_coherent cd env cache \<and>
           latest_per_author_resolver cd env now kind per_author batch cache = Some (Inr m, cache') \<and>
           lists_groups m groups))"

text \<open>The listing of a map over the requested authors.\<close>

definition group_list :: "string list \<Rightarrow> AuthorGroups \<Rightarrow> AuthorGroup list" where
  "group_list batch m =
     map (\<lambda>a. \<lparr> ag_author = a, ag_events = map client_event (the (m a)) \<rparr>) (filter (\<lambda>a. m a \<noteq> None) (remdups batch))"

text \<open>
  An adapter behind a body limit that admits \<open>cap\<close> authors per request; it lists the groups in the
  order of the request.
\<close>

definition index_latest ::
  "nat \<Rightarrow> 'dd codec \<Rightarrow> heed_env \<Rightarrow> u64 \<Rightarrow> i64 \<Rightarrow> i32 \<Rightarrow> latest_call" where
  "index_latest cap cd env now kind per_author t batch =
     (if cap < length batch then Inl PayloadTooLarge
      else case latest_per_author_resolver cd env now kind per_author batch Map.empty of
             None \<Rightarrow> Inl (Transport ''connection closed'')
           | Some (Inl e, _) \<Rightarrow> Inl (wire_error e)
           | Some (Inr m, _) \<Rightarrow>
               Inr (group_list batch m))"

section \<open>Cursors on the wire\<close>

definition cursor_key :: "string option \<Rightarrow> bytes option" where
  "cursor_key after = (case after of None \<Rightarrow> None | Some s \<Rightarrow> (case decode_hex s of Inl _ \<Rightarrow> None | Inr b \<Rightarrow> Some b))"

definition keys_behind :: "entry list \<Rightarrow> string option \<Rightarrow> string list" where
  "keys_behind es after = map hex_encode_lowercase (authors_after es (cursor_key after))"

definition known_cursor :: "string option \<Rightarrow> bool" where
  "known_cursor after \<longleftrightarrow> (\<forall>s. after = Some s \<longrightarrow> (\<exists>a. length a = 32 \<and> s = hex_encode_lowercase a))"

lemma cursor_key_hex [simp]: "cursor_key (map_option hex_encode_lowercase a) = a"
  by (cases a) (simp_all add: cursor_key_def hex_encode_decode)

lemma known_cursorE:
  assumes "known_cursor after"
  obtains a where "after = map_option hex_encode_lowercase a" "\<And>b. a = Some b \<Longrightarrow> length b = 32"
proof (cases after)
  case None
  then show thesis
    using that [of None] by simp
next
  case (Some s)
  then obtain b where "length b = 32" "s = hex_encode_lowercase b"
    using assms by (auto simp: known_cursor_def)
  then show thesis
    using Some that [of "Some b"] by simp
qed

lemma hex_digit_range:
  assumes "n < 16"
  shows "48 \<le> hex_digit n \<and> hex_digit n \<le> 57 \<or> 97 \<le> hex_digit n \<and> hex_digit n \<le> 102"
proof -
  have "list_all (\<lambda>k. 48 \<le> hex_digit (word_of_nat k) \<and> hex_digit (word_of_nat k) \<le> 57 \<or>
      97 \<le> hex_digit (word_of_nat k) \<and> hex_digit (word_of_nat k) \<le> 102) [0..<16]"
    by code_simp
  moreover have "unat n \<in> set [0..<16]"
    using assms by (simp add: word_less_nat_alt)
  ultimately show ?thesis
    by (auto simp: list_all_iff dest!: bspec [of _ _ "unat n"])
qed

lemma hex_valid: "length a = 32 \<Longrightarrow> is_valid_pubkey (hex_encode_lowercase a)"
proof -
  assume "length a = 32"
  moreover have "length (hex_bytes a) = 2 * length a"
    by (induction a) (simp_all add: hex_bytes_def)
  moreover have "list_all (\<lambda>b. 48 \<le> b \<and> b \<le> 57 \<or> 97 \<le> b \<and> b \<le> 102) (hex_bytes a)"
    using hex_digit_range nibble_bounds by (auto simp: hex_bytes_def list_all_iff)
  ultimately show ?thesis
    by (simp add: is_valid_pubkey_def hex_encode_lowercase_def)
qed

lemma hex_inj: "inj hex_encode_lowercase"
  by (metis hex_encode_decode injI sum.inject(2))

section \<open>The walk over an index\<close>

locale authors_backend =
  fixes env :: heed_env and es :: "entry list" and cl :: client
  assumes served: "authors_served env es" and answers: "answers_authors env cl"
begin

lemma answered_page:
  assumes "known_cursor after" "c_authors cl t after LIMIT = Inr p"
  obtains pks nxt where "cp_authors p = map hex_encode_lowercase pks" "cp_end_cursor p = map_option hex_encode_lowercase nxt"
    "authors_after es (cursor_key after) = pks @ (case nxt of None \<Rightarrow> [] | Some a \<Rightarrow> authors_after es (Some a))"
    "\<And>a. nxt = Some a \<Longrightarrow> pks \<noteq> [] \<and> length a = 32"
proof -
  obtain a where a: "after = map_option hex_encode_lowercase a" "\<And>b. a = Some b \<Longrightarrow> length b = 32"
    using known_cursorE [OF assms(1)] by blast
  obtain page where page: "authors_resolver env after (Some 500) = Inr page" "p = client_page page"
    using answers assms(2) unfolding answers_authors_def by blast
  show thesis
    by (rule authors_resolver_page [OF served a(2), where limit = "Some 500"])
      (use page a(1) that in \<open>auto simp: client_page_def\<close>)
qed

end

sublocale authors_backend \<subseteq> walk: authors_service cl "map hex_encode_lowercase (author_list es)" "keys_behind es" known_cursor
proof
  fix k after t p c
  show "known_cursor None"
    by (simp add: known_cursor_def)
  show "keys_behind es None = map hex_encode_lowercase (author_list es)"
    by (simp add: keys_behind_def cursor_key_def authors_after_def)
  show "is_valid_pubkey k" if "k \<in> set (map hex_encode_lowercase (author_list es))"
    using that author_length [OF served, of _ None] by (auto simp: authors_after_def intro: hex_valid)
  show "set (keys_behind es after) \<subseteq> set (map hex_encode_lowercase (author_list es))"
    by (auto simp: keys_behind_def authors_after_def)
  assume after: "known_cursor after" and p: "c_authors cl t after LIMIT = Inr p"
  obtain pks nxt where page: "cp_authors p = map hex_encode_lowercase pks"
    "cp_end_cursor p = map_option hex_encode_lowercase nxt"
    "authors_after es (cursor_key after) = pks @ (case nxt of None \<Rightarrow> [] | Some a \<Rightarrow> authors_after es (Some a))"
    "\<And>a. nxt = Some a \<Longrightarrow> pks \<noteq> [] \<and> length a = 32"
    by (rule answered_page [OF after p]) blast
  show "keys_behind es after = cp_authors p @ (case cp_end_cursor p of None \<Rightarrow> [] | Some c \<Rightarrow> keys_behind es (Some c))"
    using cursor_key_hex [of nxt] unfolding keys_behind_def page(1-3) by (cases nxt) simp_all
  show "known_cursor (Some c)" if "cp_end_cursor p = Some c"
    using that page(2,4) by (auto simp: known_cursor_def)
qed

context authors_backend
begin

lemma stored_cursor:
  assumes "history cl False w" "r \<in> set (t_run (s_db (wk_store w)))" "last_cursor r = Some c" "a \<in> set (author_list es)"
    "hex_encode_lowercase a \<notin> set (t_pubkey (s_db (wk_store w)))"
  shows "\<exists>k. c = hex_encode_lowercase k \<and> k < a"
proof -
  have "hex_encode_lowercase a \<in> set (keys_behind es (Some c))"
    using walk.cursor_guarantee [OF assms(1-3)] assms(4,5) by auto
  then obtain b where b: "b \<in> set (authors_after es (cursor_key (Some c)))" "hex_encode_lowercase a = hex_encode_lowercase b"
    by (auto simp: keys_behind_def)
  obtain k where k: "c = hex_encode_lowercase k"
    using walk.history_inv [OF assms(1)] assms(2,3)
    by (fastforce simp: walk.walk_inv_def Let_def walk.cursor_safe_def known_cursor_def)
  then show ?thesis
    using b cursor_key_hex [of "Some k"] hex_inj by (auto simp: authors_after_def dest: injD)
qed

lemma complete_walk:
  assumes "history cl False w" "wk_pc w = Returned rid" "wk_limit w = None"
  shows "read_pubkeys (s_db (wk_store w)) = sort (map hex_encode_lowercase (author_list es))"
proof -
  have "distinct (map hex_encode_lowercase (author_list es))"
    using author_list_sorted(1) [OF served] hex_inj
    by (auto simp: distinct_map strict_sorted_iff intro: inj_on_subset)
  then show ?thesis
    using walk.returned_complete [OF assms] sorted_list_of_set_sort_remdups [of "map hex_encode_lowercase (author_list es)"]
    by (simp add: distinct_remdups_id)
qed

end

text \<open>A backend whose transport never fails.\<close>

locale sure_backend = authors_backend +
  assumes sure_stats: "\<exists>m. c_stats cl t = Inr m"
    and sure_authors: "authors_resolver env after (Some 500) = Inr page \<Longrightarrow> \<exists>p. c_authors cl t after LIMIT = Inr p"

sublocale sure_backend \<subseteq> sure_walk: sure_service cl "map hex_encode_lowercase (author_list es)" "keys_behind es" known_cursor
proof
  fix t after p c
  show "\<exists>m. c_stats cl t = Inr m"
    by (rule sure_stats)
  assume after: "known_cursor after"
  obtain a where a: "after = map_option hex_encode_lowercase a" "\<And>b. a = Some b \<Longrightarrow> length b = 32"
    using known_cursorE [OF after] by blast
  show "\<exists>p. c_authors cl t after LIMIT = Inr p"
    by (rule authors_resolver_page [OF served a(2), where limit = "Some 500"]) (use a(1) sure_authors in blast)+
  show "cp_authors p \<noteq> []" if p: "c_authors cl t after LIMIT = Inr p" "cp_end_cursor p = Some c"
  proof -
    obtain pks nxt where "cp_authors p = map hex_encode_lowercase pks"
      "cp_end_cursor p = map_option hex_encode_lowercase nxt" "\<And>a. nxt = Some a \<Longrightarrow> pks \<noteq> []"
      by (rule answered_page [OF after p(1)]) blast
    then show ?thesis
      using p(2) by (cases nxt) auto
  qed
qed

context sure_backend
begin

lemma walk_ends:
  "history cl False (f 0) \<Longrightarrow> \<not> (\<forall>i. advances cl (f i) (f (Suc i)))"
  by (rule sure_walk.walk_stops)

lemma walk_ends_well:
  assumes "history cl False (launch db resume config lim clock)" "(advances cl)\<^sup>*\<^sup>* (launch db resume config lim clock) w"
    "\<And>w'. \<not> advances cl w w'"
  shows "(\<exists>rid. wk_pc w = Returned rid) \<or> wk_pc w = Failed (StoreFailed DatabaseFull)"
  using assms by (intro sure_walk.walk_outcome) (simp_all add: sure_walk.healthy_def launch_def)

end

lemma index_client_sure: "authors_served env es \<Longrightarrow> sure_backend env es (index_client env m)"
  by unfold_locales (auto simp: answers_authors_def index_client_def LIMIT_def result_eqs)

interpretation example_backend: sure_backend example_pubkey_env "mem_entries StringUint64Cmp example_pubkeys"
  "index_client example_pubkey_env 7"
  by (rule index_client_sure [OF example_authors_served])

section \<open>The fetch from an index\<close>

definition author_events :: "'dd codec \<Rightarrow> heed_env \<Rightarrow> u64 \<Rightarrow> i64 \<Rightarrow> i32 \<Rightarrow> entry list \<Rightarrow> string \<Rightarrow> ClientEvent list" where
  "author_events cd env now kind per_author es a =
     map (client_event \<circ> decoded_event_to_gql) (bucket cd env now kind (clamp_page per_author) es a)"

lemma latest_resolver_eq:
  assumes "buckets_served env es" "cache_coherent cd env cache" "length batch \<le> MAX_AUTHORS" "0 \<le> sint kind"
  shows "\<exists>cache'. latest_per_author_resolver cd env now kind per_author batch cache =
    Some (Inr (\<lambda>a. if a \<in> set batch \<and> bucket cd env now kind (clamp_page per_author) es a \<noteq> []
      then Some (map decoded_event_to_gql (bucket cd env now kind (clamp_page per_author) es a)) else None), cache')"
proof -
  have "0 < clamp_page per_author"
    using clamp_page_range(1) [of per_author] by simp
  then obtain cache' where "latest_per_author cd env now kind (clamp_page per_author) batch cache =
      Some (Inr (\<lambda>a. if a \<in> set batch \<and> bucket cd env now kind (clamp_page per_author) es a \<noteq> []
                     then Some (bucket cd env now kind (clamp_page per_author) es a) else None), cache')"
    using latest_per_author_eq [OF assms(1) _ assms(2)] by blast
  then show ?thesis
    using assms(3,4) by (auto simp: latest_per_author_resolver_def u64_try_from_def fun_eq_iff)
qed

lemma latest_resolver_Inr:
  assumes "latest_per_author_resolver cd env now kind per_author batch cache = Some (Inr m, cache')"
  shows "length batch \<le> MAX_AUTHORS" "0 \<le> sint kind"
  using assms by (auto simp: latest_per_author_resolver_def u64_try_from_def split: if_splits)

locale latest_backend =
  fixes cd :: "'dd codec" and env :: heed_env and es :: "entry list" and now :: u64 and kind :: i64
    and per_author :: i32 and lpa :: latest_call
  assumes latest_served: "buckets_served env es"
    and latest_answers: "answers_latest cd env now kind per_author lpa"

sublocale latest_backend \<subseteq> latest: adapter lpa "author_events cd env now kind per_author es"
proof
  fix t batch groups
  assume "lpa t batch = Inr groups"
  then obtain cache m cache' where m: "cache_coherent cd env cache"
    "latest_per_author_resolver cd env now kind per_author batch cache = Some (Inr m, cache')" "lists_groups m groups"
    using latest_answers unfolding answers_latest_def by blast
  let ?bucket = "bucket cd env now kind (clamp_page per_author) es"
  have m_eq: "m = (\<lambda>a. if a \<in> set batch \<and> ?bucket a \<noteq> [] then Some (map decoded_event_to_gql (?bucket a)) else None)"
    using latest_resolver_eq [OF latest_served m(1) latest_resolver_Inr [OF m(2)], of now per_author] m(2) by auto
  have "dom m = {a \<in> set batch. ?bucket a \<noteq> []}"
    by (auto simp: m_eq dom_def)
  then show "covers (author_events cd env now kind per_author es) batch groups"
    using m(3) unfolding lists_groups_def covers_def
    by (auto simp: m_eq author_events_def split: if_splits)
qed

context latest_backend
begin

lemma latest_adapter: "adapter lpa (author_events cd env now kind per_author es)"
  by (rule latest.adapter_axioms)

end

lemma lists_group_list: "dom m \<subseteq> set batch \<Longrightarrow> lists_groups m (group_list batch m)"
  by (auto simp: lists_groups_def group_list_def comp_def dom_def image_image)

lemma index_latest_Inr:
  assumes "buckets_served env es" "index_latest cap cd env now kind per_author t batch = Inr groups"
  shows "\<exists>m cache'. latest_per_author_resolver cd env now kind per_author batch Map.empty = Some (Inr m, cache') \<and>
    lists_groups m groups"
proof -
  obtain m cache' where m: "latest_per_author_resolver cd env now kind per_author batch Map.empty = Some (Inr m, cache')"
    "groups = group_list batch m"
    using assms(2) by (auto simp: index_latest_def split: if_splits option.splits prod.splits sum.splits)
  have "dom m \<subseteq> set batch"
    using latest_resolver_eq [OF assms(1) cache_coherent_empty latest_resolver_Inr [OF m(1)], of cd now per_author] m(1)
    by (auto split: if_splits)
  then show ?thesis
    using m lists_group_list by blast
qed

lemma index_latest_answers:
  "buckets_served env es \<Longrightarrow> answers_latest cd env now kind per_author (index_latest cap cd env now kind per_author)"
  unfolding answers_latest_def using index_latest_Inr cache_coherent_empty by blast

lemma index_latest_backend:
  "buckets_served env es \<Longrightarrow> latest_backend cd env es now kind per_author (index_latest cap cd env now kind per_author)"
  by unfold_locales (simp_all add: index_latest_answers)

lemma index_latest_sized:
  assumes "buckets_served env es" "1 \<le> cap" "cap \<le> MAX_AUTHORS" "0 \<le> sint kind"
  shows "sized_adapter (index_latest cap cd env now kind per_author) (author_events cd env now kind per_author es) cap"
proof (intro sized_adapter.intro sized_adapter_axioms.intro)
  show "adapter (index_latest cap cd env now kind per_author) (author_events cd env now kind per_author es)"
    by (rule latest_backend.latest_adapter [OF index_latest_backend [OF assms(1)]])
  fix batch :: "string list" and t
  show "\<exists>groups. index_latest cap cd env now kind per_author t batch = Inr groups" if "length batch \<le> cap"
    using latest_resolver_eq [OF assms(1) cache_coherent_empty, of batch kind cd now per_author] that assms(3,4)
    by (auto simp: index_latest_def)
qed (use assms(2) in \<open>simp_all add: index_latest_def\<close>)

section \<open>An example\<close>

abbreviation example_walk_client :: client where
  "example_walk_client \<equiv> index_client example_pubkey_env 7"

definition example_hex_keys :: "string list" where
  "example_hex_keys = map hex_encode_lowercase [nat_le 32 256, nat_le 32 5, nat_le 32 255]"

lemma example_page:
  assumes "authors_served env (mem_entries StringUint64Cmp example_pubkeys)"
  shows "authors_resolver env None (Some 500) =
    Inr \<lparr> ap_authors = example_hex_keys, ap_end_cursor = None, ap_has_more = False \<rparr>"
proof -
  have "authors_after (mem_entries StringUint64Cmp example_pubkeys) None = [nat_le 32 256, nat_le 32 5, nat_le 32 255]"
    by (simp add: authors_after_def example_author_list)
  moreover have "effective_limit (Some 500) = 500"
    by (simp add: effective_limit_def clamp_page_def)
  ultimately show ?thesis
    using distinct_authors_spec [OF assms, of None 500]
    by (simp add: authors_resolver_def decode_author_cursor_def Let_def example_hex_keys_def)
qed

lemma example_walk_retry:
  assumes "authors_served env (mem_entries StringUint64Cmp example_pubkeys)"
  shows "retry (c_stats (index_client env 7)) t = (Inr 7, t + 1, [])"
    and "retry (\<lambda>t. c_authors (index_client env 7) t None LIMIT) t =
      (Inr \<lparr> cp_authors = example_hex_keys, cp_has_more = False, cp_end_cursor = None \<rparr>, t + 1, [])"
  using example_page [OF assms]
  by (simp_all add: retry_def MAX_ATTEMPTS_def numeral_eq_Suc index_client_def LIMIT_def client_page_def)

lemma example_keys_valid: "filter is_valid_pubkey example_hex_keys = example_hex_keys"
  by (simp add: example_hex_keys_def hex_valid)

lemma example_returned: "\<exists>w. history example_walk_client False (w :: unit walk) \<and> wk_pc w = Returned 1 \<and> wk_limit w = None"
proof -
  let ?cl = example_walk_client
  let ?w0 = "launch bootstrap False [] None 0 :: unit walk"
  let ?w1 = "the (enum_step ?cl 0 ?w0)"
  let ?w2 = "the (enum_step ?cl 0 ?w1)"
  let ?w3 = "the (enum_step ?cl 0 ?w2)"
  let ?w4 = "the (enum_step ?cl 0 ?w3)"
  let ?w5 = "with_turn 2 ?w4"
  let ?w6 = "the (enum_step ?cl 0 ?w5)"
  let ?w7 = "the (enum_step ?cl 0 ?w6)"
  note simps = launch_def open_store_def enum_step_def step_select_def begin_run_def jump_def on_db_def bootstrap_def
    step_probe_start_def tick_def set_run_max_lev_start_def update_run_def step_fetch_def insert_pubkeys_def send_def
    step_flush_send_def flush_send_def example_walk_retry [OF example_authors_served] example_keys_valid with_turn_def writer_turn_def
    commit_batch_eq runs_exist_def flush_returns_def step_probe_end_def turn_ok_def BATCH_def
  have "enum_step ?cl 0 ?w0 = Some ?w1" "enum_step ?cl 0 ?w1 = Some ?w2" "enum_step ?cl 0 ?w2 = Some ?w3"
    "enum_step ?cl 0 ?w3 = Some ?w4" "turn_ok 2 (wk_store ?w4)" "enum_step ?cl 0 ?w5 = Some ?w6"
    "enum_step ?cl 0 ?w6 = Some ?w7" "wk_pc ?w7 = Returned 1" "wk_limit ?w7 = None"
    by (simp_all add: simps)
  moreover from this have "history ?cl False ?w7"
    by (metis history.boot history.progress advances.statement advances.turn)
  ultimately show ?thesis
    by blast
qed

interpretation example_latest: sized_adapter "index_latest 1 example_codec example_authors_env 0 1 5"
  "author_events example_codec example_authors_env 0 1 5 (mem_entries StringUint64Uint64Cmp example_pubkey_kinds)" 1
  by (rule index_latest_sized [OF example_buckets_served]) (simp_all add: MAX_AUTHORS_def)

section \<open>Properties\<close>



text \<open>
  C24: termination of the walk.  When the adapter answers, no interleaving of the walk with the writer
  runs forever, and an execution that can go no further has returned, unless the run ids are exhausted.
\<close>

theorem enumerate_terminates:
  assumes "authors_served env es" "history (index_client env m) False (launch db resume config lim clock)"
  shows "(\<nexists>f. f 0 = launch db resume config lim clock \<and> (\<forall>i. advances (index_client env m) (f i) (f (Suc i)))) \<and>
    (\<forall>w. (advances (index_client env m))\<^sup>*\<^sup>* (launch db resume config lim clock) w \<and>
         (\<forall>w'. \<not> advances (index_client env m) w w') \<longrightarrow>
         (\<exists>rid. wk_pc w = Returned rid) \<or> wk_pc w = Failed (StoreFailed DatabaseFull))"
  using sure_backend.walk_ends [OF index_client_sure [OF assms(1)]] assms(2)
    sure_backend.walk_ends_well [OF index_client_sure [OF assms(1)] assms(2)] by metis

text \<open>
  Attribution.  However the batch was split and retried, every requested author gets exactly its own
  events, the newest of the kind in the database, and an author the adapter omits gets none.
\<close>

theorem fetch_attribution:
  assumes "buckets_served env es" "answers_latest cd env now kind per_author lpa" "distinct batch"
    and "fetch_batch lpa batch t = (Inr groups, t')"
  shows "match_groups batch groups = map (\<lambda>a. (a, author_events cd env now kind per_author es a)) batch"
proof -
  have "adapter lpa (author_events cd env now kind per_author es)"
    using assms(1,2) by (intro latest_backend.latest_adapter latest_backend.intro)
  then show ?thesis
    using adapter.fetch_covers assms(3,4) match_groups_covers by blast
qed

text \<open>
  C25: splitting succeeds.  Behind a body limit that admits at least one author, the fetch of any batch
  ends with every author's events, although each request over the limit is refused.
\<close>

theorem fetch_split_complete:
  assumes "buckets_served env es" "1 \<le> cap" "cap \<le> MAX_AUTHORS" "0 \<le> sint kind" "distinct batch"
  shows "\<exists>groups t'. fetch_batch (index_latest cap cd env now kind per_author) batch t = (Inr groups, t') \<and>
    match_groups batch groups = map (\<lambda>a. (a, author_events cd env now kind per_author es a)) batch"
  by (rule sized_adapter.fetch_matches [OF index_latest_sized [OF assms(1-4)] assms(5)])



theorem enumerate_terminates_witness:
  "\<nexists>f. f 0 = (launch bootstrap False [] None 0 :: unit walk) \<and>
     (\<forall>i. advances example_walk_client (f i) (f (Suc i)))"
  using enumerate_terminates [OF example_authors_served history.boot] by blast

theorem fetch_attribution_witness:
  "\<exists>groups t'. fetch_batch (index_latest 1 example_codec example_authors_env 0 1 5) [''zz'', example_hex] 0 = (Inr groups, t') \<and>
     match_groups [''zz'', example_hex] groups = map (\<lambda>a. (a, author_events example_codec example_authors_env 0 1 5
       (mem_entries StringUint64Uint64Cmp example_pubkey_kinds) a)) [''zz'', example_hex]"
  using example_latest.fetch_succeeds [of "[''zz'', example_hex]" 0]
    fetch_attribution [OF example_buckets_served index_latest_answers [OF example_buckets_served], of "[''zz'', example_hex]"]
  by (fastforce simp: example_hex_def)

theorem fetch_split_complete_witness:
  "\<exists>groups t'. fetch_batch (index_latest 1 example_codec example_authors_env 0 1 5) [''zz'', example_hex] 0 = (Inr groups, t') \<and>
     match_groups [''zz'', example_hex] groups = map (\<lambda>a. (a, author_events example_codec example_authors_env 0 1 5
       (mem_entries StringUint64Uint64Cmp example_pubkey_kinds) a)) [''zz'', example_hex]"
  by (rule fetch_split_complete [OF example_buckets_served]) (simp_all add: MAX_AUTHORS_def example_hex_def)

end
