(* ===== verification/Batch.thy ===== *)
theory Batch
  imports Pipeline Export Adapter
begin

text \<open>
  \<^verbatim>\<open>spamhunter/pubkey_iterator/src/run.rs\<close>: one batch, from the seeding of the weights over the walk and the
  scoring pipeline to the mark on the run and the closing of the store, interleaved with the writer
  thread, and the histories of such batches over one database file.  The services of a batch (the
  adapter, the whitelist server, the floating-point and text operations, the JSON printer) are the record
  \<open>services\<close>.
\<close>

section \<open>The batch\<close>

definition FETCH_KIND :: i64 where "FETCH_KIND = 1"
definition FETCH_PER_AUTHOR :: i32 where "FETCH_PER_AUTHOR = 100"

datatype RunError =
  RunEnumerate EnumerateError
| RunClient ClientError
| RunStore sqlite_error
| RunSnapshot string
| MissingRunRow int

record 'f Snapshot =
  sn_tau :: 'f
  sn_bias :: 'f
  sn_weights :: "'f Weight list"
  sn_adapter_url :: string
  sn_channel_cap :: nat
  sn_authors_per_call :: nat

text \<open>\<open>sv_latest\<close> is the client's call with \<^const>\<open>FETCH_KIND\<close> and \<^const>\<open>FETCH_PER_AUTHOR\<close> applied.\<close>

record ('f, 'b) services =
  sv_runtime :: "'f runtime"
  sv_to_string :: "'f Snapshot \<Rightarrow> (string, string) result"
  sv_client :: client
  sv_latest :: latest_call
  sv_wl_json :: "'b \<Rightarrow> (string, string \<rightharpoonup> bool) result"
  sv_wl_post :: "nat \<Rightarrow> string list \<Rightarrow> (string, nat \<times> 'b) result"

definition snapshot :: "'f HunterConfig \<Rightarrow> 'f Weight list \<Rightarrow> 'f Snapshot" where
  "snapshot config weights =
     \<lparr> sn_tau = tau_of weights (hc_tau config), sn_bias = weight_of weights BIAS_KEY (hc_bias config),
       sn_weights = weights, sn_adapter_url = hc_adapter_url config,
       sn_channel_cap = DEFAULT_CHANNEL_CAP, sn_authors_per_call = DEFAULT_AUTHORS_PER_CALL \<rparr>"

definition batch_fetch :: "('f, 'b) services \<Rightarrow> (nat \<times> wl_cache) fetch_stage" where
  "batch_fetch S = production_fetch_with_whitelist (sv_latest S) (sv_wl_json S) (sv_wl_post S)"

definition batch_consumer ::
  "'f runtime \<Rightarrow> 'f ScoringStage \<Rightarrow> int \<Rightarrow> ('f Store \<times> u64) sink" where
  "batch_consumer R stage rid input = (\<lambda>(st, processed).
     Option.bind (stage_score R stage rid (ag_author (si_group input)) (ag_events (si_group input)) (si_whitelisted input)) (\<lambda>p.
     Option.bind (persist p st) (\<lambda>st. Some (st, processed + 1))))"

definition read_max_lev_end :: "'f Database \<Rightarrow> int \<Rightarrow> int option" where
  "read_max_lev_end db rid = Option.bind (find (\<lambda>r. run_id r = rid) (t_run db)) max_lev_id_end"

text \<open>Where \<^verbatim>\<open>run_batch\<close> stands, with the store of that moment.\<close>

datatype 'f batch_pc =
  Seeding "'f Store"
| Enumerating "'f Weight list" "'f walk"
| ScoringRun int "'f ScoringStage" "(nat \<times> wl_cache, 'f Store \<times> u64) pipe"
| ReadEnd int "'f Store"
| MarkDone int int "'f Store"
| Closing int "'f Store"
| BatchReturned int "'f Store"
| BatchFailed RunError "'f Store"
| BatchPanicked "'f Store"

record 'f batch =
  bt_config :: "'f HunterConfig"
  bt_resume :: bool
  bt_limit :: "nat option"
  bt_pc :: "'f batch_pc"

definition run_batch :: "'f Database \<Rightarrow> 'f HunterConfig \<Rightarrow> bool \<Rightarrow> nat option \<Rightarrow> 'f batch" where
  "run_batch db config resume bound =
     \<lparr> bt_config = config, bt_resume = resume, bt_limit = bound, bt_pc = Seeding (open_store db) \<rparr>"

fun pc_store :: "'f batch_pc \<Rightarrow> 'f Store" where
  "pc_store (Seeding st) = st"
| "pc_store (Enumerating ws w) = wk_store w"
| "pc_store (ScoringRun rid stage p) = fst (pp_sink p)"
| "pc_store (ReadEnd rid st) = st"
| "pc_store (MarkDone rid m st) = st"
| "pc_store (Closing rid st) = st"
| "pc_store (BatchReturned rid st) = st"
| "pc_store (BatchFailed e st) = st"
| "pc_store (BatchPanicked st) = st"

text \<open>
  The statements of \<^verbatim>\<open>run_batch\<close> itself; \<^const>\<open>None\<close> while the walk, the pipeline or the joined writer is at work
  and after the end.
\<close>

definition step_seed :: "('f, 'b) services \<Rightarrow> 'f HunterConfig \<Rightarrow> bool \<Rightarrow> nat option \<Rightarrow> 'f Store \<Rightarrow> 'f batch_pc" where
  "step_seed S config resume bound st =
     (case seed_weights_if_empty config (s_db st) of
        Inl e \<Rightarrow> BatchFailed (RunStore e) st
      | Inr db \<Rightarrow>
          (let weights = read_weights db
           in case sv_to_string S (snapshot config weights) of
                Inl e \<Rightarrow> BatchFailed (RunSnapshot e) (st\<lparr> s_db := db \<rparr>)
              | Inr json \<Rightarrow> Enumerating weights (launch db resume json bound 0)))"

definition step_enumerated :: "('f, 'b) services \<Rightarrow> 'f HunterConfig \<Rightarrow> 'f Weight list \<Rightarrow> 'f walk \<Rightarrow> 'f batch_pc option" where
  "step_enumerated S config weights w =
     (case wk_pc w of
        Returned rid \<Rightarrow>
          Some (ScoringRun rid (from_config (sv_runtime S) config weights)
            (run_pipeline (read_pubkeys (s_db (wk_store w))) DEFAULT_AUTHORS_PER_CALL (wk_clock w, Map.empty) (wk_store w, 0)))
      | Failed e \<Rightarrow> Some (BatchFailed (RunEnumerate e) (wk_store w))
      | Panicked \<Rightarrow> Some (BatchPanicked (wk_store w))
      | _ \<Rightarrow> None)"

definition step_scored :: "int \<Rightarrow> (nat \<times> wl_cache, 'f Store \<times> u64) pipe \<Rightarrow> 'f batch_pc option" where
  "step_scored rid p =
     (case pp_status p of
        PipeReturned (Inl e) \<Rightarrow> Some (BatchFailed (RunClient e) (fst (pp_sink p)))
      | PipeReturned (Inr _) \<Rightarrow> Some (ReadEnd rid (fst (pp_sink p)))
      | PipePanicked \<Rightarrow> Some (BatchPanicked (fst (pp_sink p)))
      | _ \<Rightarrow> None)"

definition step_read_end :: "int \<Rightarrow> 'f Store \<Rightarrow> 'f batch_pc" where
  "step_read_end rid st =
     (case read_max_lev_end (s_db st) rid of
        Some v \<Rightarrow> MarkDone rid v st
      | None \<Rightarrow> BatchFailed (MissingRunRow rid) st)"

definition step_mark_done :: "int \<Rightarrow> int \<Rightarrow> int \<Rightarrow> 'f Store \<Rightarrow> 'f batch_pc" where
  "step_mark_done now rid max_lev_end st =
     (case mark_run_done now rid max_lev_end (s_db st) of
        Inl e \<Rightarrow> BatchFailed (RunStore e) st
      | Inr db \<Rightarrow> Closing rid (close_send (st\<lparr> s_db := db \<rparr>)))"

definition step_closed :: "int \<Rightarrow> 'f Store \<Rightarrow> 'f batch_pc option" where
  "step_closed rid st =
     (case close_result st of
        None \<Rightarrow> None
      | Some (Inl e) \<Rightarrow> Some (BatchFailed (RunStore e) st)
      | Some (Inr _) \<Rightarrow> Some (BatchReturned rid st))"

definition batch_step :: "('f, 'b) services \<Rightarrow> int \<Rightarrow> 'f batch \<Rightarrow> 'f batch_pc option" where
  "batch_step S now b =
     (case bt_pc b of
        Seeding st \<Rightarrow> Some (step_seed S (bt_config b) (bt_resume b) (bt_limit b) st)
      | Enumerating weights w \<Rightarrow> step_enumerated S (bt_config b) weights w
      | ScoringRun rid stage p \<Rightarrow> step_scored rid p
      | ReadEnd rid st \<Rightarrow> Some (step_read_end rid st)
      | MarkDone rid v st \<Rightarrow> Some (step_mark_done now rid v st)
      | Closing rid st \<Rightarrow> step_closed rid st
      | _ \<Rightarrow> None)"

section \<open>Its moves\<close>

definition writer_moves :: "'f Store \<times> u64 \<Rightarrow> 'f Store \<times> u64 \<Rightarrow> bool" where
  "writer_moves s s' \<longleftrightarrow> (\<exists>n. turn_ok n (fst s) \<and> s' = (writer_turn n (fst s), snd s))"

text \<open>
  The states in which only the writer thread is at work beside the statements; a dropped store joins its
  writer too.
\<close>

fun with_writer :: "('f Store \<Rightarrow> 'f Store) \<Rightarrow> 'f batch_pc \<Rightarrow> 'f batch_pc option" where
  "with_writer f (ReadEnd rid st) = Some (ReadEnd rid (f st))"
| "with_writer f (MarkDone rid m st) = Some (MarkDone rid m (f st))"
| "with_writer f (Closing rid st) = Some (Closing rid (f st))"
| "with_writer f (BatchFailed e st) = Some (BatchFailed e (f st))"
| "with_writer f (BatchPanicked st) = Some (BatchPanicked (f st))"
| "with_writer f pc = None"

inductive batch_moves :: "('f, 'b) services \<Rightarrow> 'f batch \<Rightarrow> 'f batch_pc \<Rightarrow> bool" for S where
  statement: "batch_step S now b = Some pc \<Longrightarrow> batch_moves S b pc"
| walking: "bt_pc b = Enumerating weights w \<Longrightarrow> advances (sv_client S) w w' \<Longrightarrow> batch_moves S b (Enumerating weights w')"
| piping: "bt_pc b = ScoringRun rid stage p \<Longrightarrow>
    pipe_moves DEFAULT_CHANNEL_CAP (batch_fetch S) (batch_consumer (sv_runtime S) stage rid) writer_moves p p' \<Longrightarrow>
    batch_moves S b (ScoringRun rid stage p')"
| turn: "turn_ok n (pc_store (bt_pc b)) \<Longrightarrow> with_writer (writer_turn n) (bt_pc b) = Some pc \<Longrightarrow> batch_moves S b pc"
| exit: "bt_pc b = Closing rid st \<Longrightarrow> s_writer st = None \<Longrightarrow> s_queue st = [] \<Longrightarrow> batch_moves S b (Closing rid (writer_exit st))"

text \<open>A statement that calls SQLite fails.\<close>

fun sqlite_fails :: "sqlite_error \<Rightarrow> 'f batch_pc \<Rightarrow> 'f batch_pc option" where
  "sqlite_fails e (Seeding st) = Some (BatchFailed (RunStore e) st)"
| "sqlite_fails e (Enumerating ws w) =
     (if calls_sqlite (wk_pc w) then Some (Enumerating ws (jump (Failed (StoreFailed e)) w))
      else case wk_pc w of Returned rid \<Rightarrow> Some (BatchFailed (RunStore e) (wk_store w)) | _ \<Rightarrow> None)"
| "sqlite_fails e (ReadEnd rid st) = Some (BatchFailed (RunStore e) st)"
| "sqlite_fails e (MarkDone rid m st) = Some (BatchFailed (RunStore e) st)"
| "sqlite_fails e pc = None"

text \<open>Equal but for the tables that a half-done seeding, the tuner, the exporter and the labelling change.\<close>

definition same_runs :: "'f Database \<Rightarrow> 'f Database \<Rightarrow> bool" where
  "same_runs db db' \<longleftrightarrow> db' = db\<lparr> t_backpropagation := t_backpropagation db', t_weight := t_weight db',
     t_suspected := t_suspected db', t_review := t_review db' \<rparr>"

text \<open>
  The histories of a database file: batches that may crash at any point, each followed by a batch on what
  was committed, with any configuration.
\<close>

inductive batch_history :: "('f, 'b) services \<Rightarrow> 'f batch \<Rightarrow> bool" for S where
  boot: "same_runs bootstrap db \<Longrightarrow> batch_history S (run_batch db config resume bound)"
| move: "batch_history S b \<Longrightarrow> batch_moves S b pc \<Longrightarrow> batch_history S (b\<lparr> bt_pc := pc \<rparr>)"
| sqlite_error: "batch_history S b \<Longrightarrow> sqlite_fails e (bt_pc b) = Some pc \<Longrightarrow> batch_history S (b\<lparr> bt_pc := pc \<rparr>)"
| crash: "batch_history S b \<Longrightarrow> same_runs (s_db (pc_store (bt_pc b))) db \<Longrightarrow> batch_history S (run_batch db config resume bound)"

section \<open>Scoring a run\<close>

lemma stage_score_total:
  "\<exists>p. stage_score R (from_config R config ws) rid pk evs w = Some p \<and>
     p_run_id p = rid \<and> p_pubkey p = pk \<and> p_whitelisted p = w \<and> distinct (map ss_layer (p_subscores p))"
proof -
  let ?ls = "enabled_layers R (hc_layers config) ws"
  obtain ss where ss: "score_loop R (map fst ?ls) evs w = Some ss" "map ss_layer ss = map (ly_name \<circ> fst) ?ls"
    using score_loop_total [of "map fst ?ls" evs w R] enabled_total [of _ _ R "hc_layers config" ws evs w] by fastforce
  moreover have "distinct (map (ly_name \<circ> fst) ?ls)"
    unfolding enabled_names by (simp add: config_layer_keys_def)
  ultimately show ?thesis
    by (simp add: stage_score_def from_config_def Let_def)
qed

text \<open>The row of an author, as the consumer makes it.\<close>

definition row_of :: "'f runtime \<Rightarrow> 'f ScoringStage \<Rightarrow> int \<Rightarrow> ScoredInput \<Rightarrow> 'f Persist" where
  "row_of R stage rid input =
     the (stage_score R stage rid (ag_author (si_group input)) (ag_events (si_group input)) (si_whitelisted input))"

lemma row_of_from_config:
  "stage_score R (from_config R config ws) rid (ag_author (si_group input)) (ag_events (si_group input)) (si_whitelisted input) =
     Some (row_of R (from_config R config ws) rid input)"
  "p_run_id (row_of R (from_config R config ws) rid input) = rid"
  "p_pubkey (row_of R (from_config R config ws) rid input) = ag_author (si_group input)"
  "p_whitelisted (row_of R (from_config R config ws) rid input) = si_whitelisted input"
  "distinct (map ss_layer (p_subscores (row_of R (from_config R config ws) rid input)))"
  using stage_score_total [of R config ws rid "ag_author (si_group input)" "ag_events (si_group input)" "si_whitelisted input"]
  by (auto simp: row_of_def)

definition settled :: "'f Store \<Rightarrow> 'f Database" where
  "settled st = apply_msgs (s_queue st) (s_db st)"

text \<open>The run's row of an author, with its sub-scores.\<close>

definition has_row :: "'f Database \<Rightarrow> 'f Persist \<Rightarrow> bool" where
  "has_row db p \<longleftrightarrow>
     map_of (t_score db) (p_run_id p, p_pubkey p) = Some (p_score p, p_whitelisted p, p_suspected p) \<and>
     (\<forall>s\<in>set (p_subscores p). map_of (t_signal db) (p_run_id p, p_pubkey p, ss_layer s) = Some (ss_value s, ss_evidence s))"

lemma has_row_cong: "t_score db' = t_score db \<Longrightarrow> t_signal db' = t_signal db \<Longrightarrow> has_row db' p = has_row db p"
  by (simp add: has_row_def)

lemma has_row_written:
  assumes "distinct (map ss_layer (p_subscores p))"
  shows "has_row (apply_msgs [Score p] db) p"
proof -
  have "map_of (rev (map (\<lambda>s. ((p_run_id p, p_pubkey p, ss_layer s), ss_value s, ss_evidence s)) (p_subscores p)))
      (p_run_id p, p_pubkey p, ss_layer s) = Some (ss_value s, ss_evidence s)" if "s \<in> set (p_subscores p)" for s
    using that assms by (intro map_of_is_SomeI) (auto simp: rev_map [symmetric] comp_def distinct_map inj_on_def)
  then show ?thesis
    by (simp add: has_row_def apply_msgs_def upserts_map map_add_def update_conv')
qed

lemma has_row_kept:
  assumes "has_row db p" "p_pubkey q \<noteq> p_pubkey p"
  shows "has_row (apply_msgs [Score q] db) p"
proof -
  have "map_of (rev (map (\<lambda>s. ((p_run_id q, p_pubkey q, ss_layer s), ss_value s, ss_evidence s)) (p_subscores q)))
      (p_run_id p, p_pubkey p, l) = None" for l
    using assms(2) by (auto simp: map_of_eq_None_iff)
  then show ?thesis
    using assms by (auto simp: has_row_def apply_msgs_def upserts_map map_add_def update_conv')
qed

lemma fold_rows:
  fixes rows :: "'f Persist list"
  assumes "distinct (map p_pubkey rows)" "\<forall>p\<in>set rows. distinct (map ss_layer (p_subscores p))"
  shows "\<forall>p\<in>set rows. has_row (fold (\<lambda>p. apply_msgs [Score p]) rows db) p"
  using assms
proof (induction rows rule: rev_induct)
  case (snoc q rows)
  then show ?case
    using has_row_written [of q] has_row_kept [of _ _ q] by fastforce
qed simp

lemma apply_rest: "t_weight (apply_msgs ms db) = t_weight db" "t_run (apply_msgs ms db) = t_run db"
  "has_run rid (apply_msgs ms db) = has_run rid db"
  "set (t_pubkey (apply_msgs ms db)) = set (t_pubkey db) \<union> queued ms"
  by (auto simp: apply_msgs_def queued_def has_run_def)

lemma fold_rows_rest:
  "t_weight (fold (\<lambda>p. apply_msgs [Score p]) rows db) = t_weight db"
  "set (t_pubkey (fold (\<lambda>p. apply_msgs [Score p]) rows db)) = set (t_pubkey db) \<union> p_pubkey ` set rows"
  by (induction rows arbitrary: db) (auto simp: apply_rest)

section \<open>What the walk leaves alone\<close>

fun pc_run :: "walk_pc \<Rightarrow> int option" where
  "pc_run (ProbeStart rid after existing) = Some rid"
| "pc_run (FetchPage rid after seen) = Some rid"
| "pc_run (FlushSend rid cursor seen) = Some rid"
| "pc_run (FlushWait rid cursor ack seen) = Some rid"
| "pc_run (AdvanceCursor rid c seen) = Some rid"
| "pc_run (ProbeEnd rid) = Some rid"
| "pc_run (Returned rid) = Some rid"
| "pc_run pc = None"

definition walk_on :: "'f walk \<Rightarrow> bool" where
  "walk_on w \<longleftrightarrow> (\<forall>rid. pc_run (wk_pc w) = Some rid \<longrightarrow> has_run rid (s_db (wk_store w)))"

definition weights_and_limit :: "'f walk \<Rightarrow> 'f Weight list \<times> nat option" where
  "weights_and_limit w = (t_weight (s_db (wk_store w)), wk_limit w)"

lemma update_run_rest [simp]: "t_weight (update_run f rid db) = t_weight db"
  by (simp add: update_run_def)

lemma selected_run:
  "latest_unfinished_run db = Some r \<Longrightarrow> has_run (run_id r) db"
  "begin_run now config db = Inr (rid, db') \<Longrightarrow> has_run rid db' \<and> t_weight db' = t_weight db"
proof -
  assume "latest_unfinished_run db = Some r"
  then have "r \<in> set (rev (t_run db))"
    unfolding latest_unfinished_run_def find_Some_iff by (metis nth_mem)
  then show "has_run (run_id r) db"
    by (simp add: has_run_def)
qed (auto simp: begin_run_def has_run_def Let_def split: if_splits)

lemma statement_keeps:
  assumes "enum_step cl now w = Some w'" "walk_on w"
  shows "walk_on w' \<and> weights_and_limit w' = weights_and_limit w"
  using assms
  by (cases "wk_pc w")
    (auto simp: enum_step_def step_select_def step_probe_start_def step_fetch_def step_flush_send_def step_advance_def
      step_probe_end_def jump_def on_db_def tick_def walk_on_def weights_and_limit_def insert_pubkeys_def send_def flush_send_def
      run_ops run_ops_has_run Let_def dest: selected_run
      split: if_splits option.splits prod.splits sum.splits)

lemma advances_keeps:
  assumes "advances cl w w'" "walk_on w"
  shows "walk_on w' \<and> weights_and_limit w' = weights_and_limit w"
  using assms
proof cases
  case (turn n)
  then show ?thesis
    using assms(2)
    by (auto simp: walk_on_def weights_and_limit_def with_turn_def writer_turn_def writer_fails_def commit_batch_eq apply_rest)
qed (use assms statement_keeps in blast)

lemma same_runs_tables:
  assumes "same_runs db db'"
  shows "t_run db' = t_run db" "t_run_seq db' = t_run_seq db" "t_pubkey db' = t_pubkey db" "t_score db' = t_score db"
    "t_signal db' = t_signal db" "t_fingerprint db' = t_fingerprint db"
  using assms by (cases db; cases db'; simp add: same_runs_def)+

lemma same_runs_refl [simp]: "same_runs db db"
  by (simp add: same_runs_def)

lemma same_runs_weight [simp]: "same_runs (db\<lparr> t_weight := ws \<rparr>) db' = same_runs db db'"
  by (cases db) (simp add: same_runs_def)

lemma seed_keeps:
  assumes "seed_weights_if_empty config db = Inr db'"
  shows "same_runs db db'"
proof -
  have "execute_all insert_weight rows db = Inr db' \<Longrightarrow> same_runs db db'" for rows db
    by (induction rows arbitrary: db) (fastforce simp: insert_weight_def split: if_splits)+
  then show ?thesis
    using assms by (auto simp: seed_weights_if_empty_def split: if_splits)
qed

section \<open>The invariant of a batch\<close>

locale batch_services = walk: authors_service "sv_client S" keys behind known + fetch: adapter "sv_latest S" events_of
  for S :: "('f, 'b) services" and keys behind known events_of
begin

abbreviation (input) stage_of :: "'f HunterConfig \<Rightarrow> 'f Database \<Rightarrow> 'f ScoringStage" where
  "stage_of config db \<equiv> from_config (sv_runtime S) config (read_weights db)"

definition safe :: "'f Database \<Rightarrow> bool" where
  "safe db \<longleftrightarrow> db_inv db \<and> set (t_pubkey db) \<subseteq> set keys \<and> walk.cursor_safe db"

definition calm :: "'f Store \<Rightarrow> bool" where
  "calm st \<longleftrightarrow> safe (s_db st) \<and> queued (s_queue st) \<subseteq> set keys \<and> runs_exist (s_queue st) (s_db st) \<and>
     (s_writer st = None \<or> s_queue st = [])"

text \<open>Every stored pubkey has its row, made from its own events by the stage of the stored weights.\<close>

definition scored :: "'f HunterConfig \<Rightarrow> int \<Rightarrow> 'f Database \<Rightarrow> bool" where
  "scored config rid db \<longleftrightarrow>
     (\<forall>pk\<in>set (t_pubkey db). \<exists>w p. stage_score (sv_runtime S) (stage_of config db) rid pk (events_of pk) w = Some p \<and> has_row db p)"

definition ended :: "'f batch \<Rightarrow> int \<Rightarrow> 'f Store \<Rightarrow> bool" where
  "ended b rid st \<longleftrightarrow> calm st \<and> scored (bt_config b) rid (settled st) \<and>
     (bt_limit b = None \<longrightarrow> set keys \<subseteq> set (t_pubkey (settled st)))"

lemma safe_apply: "safe db \<Longrightarrow> queued ms \<subseteq> set keys \<Longrightarrow> runs_exist ms db \<Longrightarrow> safe (apply_msgs ms db)"
  unfolding safe_def using apply_msgs_inv [of db ms] walk.cursor_safe_mono [of db "apply_msgs ms db"]
  by (auto simp: apply_rest)

lemma calm_turn:
  assumes "calm st" "turn_ok n st"
  shows "calm (writer_turn n st) \<and> settled (writer_turn n st) = settled st \<and>
    s_open (writer_turn n st) = s_open st \<and> s_writer (writer_turn n st) = s_writer st \<and>
    t_run (s_db (writer_turn n st)) = t_run (s_db st) \<and> t_weight (s_db (writer_turn n st)) = t_weight (s_db st)"
proof -
  let ?q = "s_queue st" and ?db = "s_db st"
  have runs: "runs_exist ?q ?db" and keys: "queued ?q \<subseteq> set keys" and safe: "safe ?db"
    using assms by (simp_all add: calm_def)
  note turn = writer_turn_ok [OF runs, of n]
  have part: "queued (take n ?q) \<subseteq> set keys" "queued (drop n ?q) \<subseteq> set keys"
    using keys queued_take_drop [of n ?q] by auto
  have "runs_exist (take n ?q @ drop n ?q) ?db"
    using runs by simp
  then have "runs_exist (take n ?q) ?db" "runs_exist (drop n ?q) ?db"
    unfolding runs_exist_def by (simp_all del: append_take_drop_id)
  then have "calm (writer_turn n st)"
    using assms safe part safe_apply by (simp add: turn calm_def turn_ok_def)
  moreover have "settled (writer_turn n st) = settled st"
    using apply_msgs_append [of "take n ?q" "drop n ?q" ?db] by (simp add: turn settled_def)
  ultimately show ?thesis
    by (simp add: turn apply_rest)
qed

definition sink_ok :: "int \<Rightarrow> 'f Store \<times> u64 \<Rightarrow> bool" where
  "sink_ok rid s \<longleftrightarrow> calm (fst s) \<and> s_open (fst s) \<and> s_writer (fst s) = None \<and> has_run rid (s_db (fst s))"

definition input_ok :: "ScoredInput \<Rightarrow> bool" where
  "input_ok input \<longleftrightarrow> ag_author (si_group input) \<in> set keys"

lemma batch_sink:
  assumes "stage = from_config (sv_runtime S) config ws"
  shows "pipeline_sink (batch_consumer (sv_runtime S) stage rid) writer_moves (sink_ok rid) input_ok (settled \<circ> fst)
    (\<lambda>input. apply_msgs [Score (row_of (sv_runtime S) stage rid input)])"
proof
  fix s s' :: "'f Store \<times> u64" and input
  note row = row_of_from_config [of "sv_runtime S" config ws rid input, folded assms]
  let ?st = "fst s" and ?m = "Score (row_of (sv_runtime S) stage rid input)"
  assume s: "sink_ok rid s"
  have "runs_exist [?m] (s_db ?st)"
    using s row(2) by (simp add: runs_exist_def sink_ok_def)
  moreover assume "input_ok input"
  ultimately have "calm (?st\<lparr> s_queue := s_queue ?st @ [?m] \<rparr>)"
    using s row(3) by (simp add: calm_def sink_ok_def input_ok_def runs_exist_def)
  then show "\<exists>s'. batch_consumer (sv_runtime S) stage rid input s = Some s' \<and> sink_ok rid s' \<and>
      (settled \<circ> fst) s' = apply_msgs [?m] ((settled \<circ> fst) s)"
    using s row(1) apply_msgs_append [of "s_queue ?st" "[?m]"]
    by (cases s) (simp add: batch_consumer_def persist_def send_def sink_ok_def settled_def)
next
  fix s s' :: "'f Store \<times> u64"
  assume "sink_ok rid s" "writer_moves s s'"
  then show "sink_ok rid s' \<and> (settled \<circ> fst) s' = (settled \<circ> fst) s"
    using calm_turn [of "fst s"] by (auto simp: sink_ok_def writer_moves_def has_run_def)
qed

lemma production_events:
  assumes "batch_fetch S batch c = (Inr inputs, c')" "distinct batch"
  shows "\<forall>input\<in>set inputs. ag_events (si_group input) = events_of (ag_author (si_group input))"
proof -
  obtain t cache groups t' where "fetch_batch (sv_latest S) batch t = (Inr groups, t')" "c = (t, cache)"
    and inputs: "\<forall>input\<in>set inputs. (ag_author (si_group input), ag_events (si_group input)) \<in> set (match_groups batch groups)"
    using assms(1) by (cases c) (fastforce simp: batch_fetch_def production_fetch_with_whitelist_def Let_def split: prod.splits sum.splits)
  then have "match_groups batch groups = map (\<lambda>a. (a, events_of a)) batch"
    using fetch.fetch_covers match_groups_covers assms(2) by blast
  then show ?thesis
    using inputs by auto
qed

lemma fetch_all_events:
  assumes "fetch_all (batch_fetch S) batches c = (inputs, r)" "distinct (concat batches)"
  shows "\<forall>input\<in>set inputs. ag_events (si_group input) = events_of (ag_author (si_group input))"
  using assms
proof (induction batches arbitrary: c inputs)
  case (Cons batch batches)
  obtain res c' where f: "batch_fetch S batch c = (res, c')"
    by (rule prod.exhaust)
  show ?case
  proof (cases res)
    case (Inr ins)
    then obtain rest where rest: "fetch_all (batch_fetch S) batches c' = (rest, r)" "inputs = ins @ rest"
      using Cons.prems(1) f by (auto split: prod.splits)
    then show ?thesis
      using Cons.IH [OF rest(1)] production_events [OF f [unfolded Inr]] Cons.prems(2) by auto
  qed (use Cons.prems(1) f in auto)
qed simp

text \<open>When all batches have been fetched, their rows score every stored pubkey.\<close>

lemma all_scored:
  assumes "safe db" "fetch_all (batch_fetch S) (chunks apc (read_pubkeys db)) c = (inputs, Inr ())" "0 < apc"
  shows "scored config rid (fold (\<lambda>input. apply_msgs [Score (row_of (sv_runtime S) (stage_of config db) rid input)]) inputs db)"
    (is "scored config rid ?db")
    and "set (t_pubkey (fold (\<lambda>input. apply_msgs [Score (row_of (sv_runtime S) (stage_of config db) rid input)]) inputs db)) =
      set (t_pubkey db)"
proof -
  let ?row = "row_of (sv_runtime S) (stage_of config db) rid"
  have d: "distinct (read_pubkeys db)"
    using assms(1) by (simp add: safe_def db_inv_def read_pubkeys_def)
  have authors: "map (ag_author \<circ> si_group) inputs = read_pubkeys db"
    using fetch_all_authors [OF assms(2) [unfolded batch_fetch_def]] concat_chunks [OF assms(3)] by auto
  have evs: "\<forall>input\<in>set inputs. ag_events (si_group input) = events_of (ag_author (si_group input))"
    by (rule fetch_all_events [OF assms(2)]) (simp add: concat_chunks [OF assms(3)] d)
  have db: "?db = fold (\<lambda>p. apply_msgs [Score p]) (map ?row inputs) db"
    by (simp add: fold_map comp_def)
  have pks: "map p_pubkey (map ?row inputs) = read_pubkeys db"
    using authors by (simp add: row_of_from_config comp_def)
  then have "set (read_pubkeys db) = p_pubkey ` set (map ?row inputs)"
    by (metis set_map)
  then show keys: "set (t_pubkey ?db) = set (t_pubkey db)"
    unfolding db fold_rows_rest by (auto simp: read_pubkeys_def)
  have rows: "\<forall>p\<in>set (map ?row inputs). has_row ?db p"
    unfolding db using d pks by (intro fold_rows) (auto simp: row_of_from_config)
  have weights: "read_weights ?db = read_weights db"
    unfolding db by (simp add: read_weights_def fold_rows_rest)
  show "scored config rid ?db"
    unfolding scored_def keys weights
  proof
    fix pk
    assume "pk \<in> set (t_pubkey db)"
    then have "pk \<in> (ag_author \<circ> si_group) ` set inputs"
      using arg_cong [OF authors, of set] by (simp add: read_pubkeys_def)
    then obtain input where "input \<in> set inputs" "ag_author (si_group input) = pk"
      by auto
    then show "\<exists>w p. stage_score (sv_runtime S) (stage_of config db) rid pk (events_of pk) w = Some p \<and> has_row ?db p"
      using row_of_from_config(1) [of "sv_runtime S" config "read_weights db" rid input] evs rows by auto
  qed
qed

text \<open>The start of the pipeline on a database, and the rows it is to write.\<close>

abbreviation (input) batch_track ::
  "int \<Rightarrow> 'f ScoringStage \<Rightarrow> 'f Database \<Rightarrow> (ClientError, u64) result \<Rightarrow> (nat \<times> wl_cache, 'f Store \<times> u64) pipe \<Rightarrow> bool" where
  "batch_track rid stage \<equiv> pipeline_sink.on_track (sink_ok rid) input_ok (settled \<circ> fst)
     (\<lambda>input. apply_msgs [Score (row_of (sv_runtime S) stage rid input)]) (batch_fetch S)"

definition piping_ok :: "'f batch \<Rightarrow> int \<Rightarrow> 'f ScoringStage \<Rightarrow> (nat \<times> wl_cache, 'f Store \<times> u64) pipe \<Rightarrow> bool" where
  "piping_ok b rid stage p \<longleftrightarrow>
     (\<exists>config ws. stage = from_config (sv_runtime S) config ws) \<and>
     (\<exists>db r. batch_track rid stage db r p \<and>
        (\<not> isl r \<longrightarrow> scored (bt_config b) rid db \<and> (bt_limit b = None \<longrightarrow> set keys \<subseteq> set (t_pubkey db))))"

definition batch_inv :: "'f batch \<Rightarrow> bool" where
  "batch_inv b \<longleftrightarrow>
     (case bt_pc b of
        Enumerating weights w \<Rightarrow>
          walk.walk_inv w \<and> walk_on w \<and> wk_limit w = bt_limit b \<and> read_weights (s_db (wk_store w)) = weights
      | ScoringRun rid stage p \<Rightarrow> piping_ok b rid stage p
      | ReadEnd rid st \<Rightarrow> ended b rid st
      | MarkDone rid m st \<Rightarrow> ended b rid st
      | Closing rid st \<Rightarrow> ended b rid st \<and> (\<exists>r\<in>set (t_run (s_db st)). run_id r = rid \<and> status r = ''done'')
      | BatchReturned rid st \<Rightarrow> ended b rid st \<and> s_queue st = [] \<and> (\<exists>r\<in>set (t_run (s_db st)). run_id r = rid \<and> status r = ''done'')
      | pc \<Rightarrow> calm (pc_store pc))"

lemma walk_inv_calm: "walk.walk_inv w \<Longrightarrow> calm (wk_store w)"
  by (auto simp: walk.walk_inv_def calm_def safe_def runs_exist_def list_all_iff Let_def)

lemma track_calm: "batch_track rid stage db r p \<Longrightarrow> stage = from_config (sv_runtime S) config ws \<Longrightarrow> calm (fst (pp_sink p))"
  by (simp add: pipeline_sink.on_track_def [OF batch_sink] sink_ok_def)

lemma inv_calm: "batch_inv b \<Longrightarrow> calm (pc_store (bt_pc b))"
  by (cases "bt_pc b")
    (auto simp: batch_inv_def ended_def piping_ok_def intro: walk_inv_calm track_calm)

lemma start_inv:
  assumes "safe db" "same_runs db db'"
  shows "batch_inv (run_batch db' config resume bound)"
proof -
  have "safe db'"
    using assms same_runs_tables [OF assms(2)] by (simp add: safe_def db_inv_def has_run_def walk.cursor_safe_def)
  then show ?thesis
    by (simp add: batch_inv_def run_batch_def calm_def safe_def open_store_def runs_exist_def)
qed

lemma calm_db: "calm st \<Longrightarrow> safe (s_db st)"
  by (simp add: calm_def)

lemma step_seed_inv:
  assumes "batch_inv b" "bt_pc b = Seeding st"
  shows "batch_inv (b\<lparr> bt_pc := step_seed S (bt_config b) (bt_resume b) (bt_limit b) st \<rparr>)"
proof (cases "seed_weights_if_empty (bt_config b) (s_db st)")
  case (Inl e)
  then show ?thesis
    using assms by (simp add: batch_inv_def step_seed_def)
next
  case (Inr db)
  have calm: "calm st"
    using assms by (simp add: batch_inv_def)
  note same = same_runs_tables [OF seed_keeps [OF Inr]]
  have "safe db"
    using calm_db [OF calm] same by (simp add: safe_def db_inv_def has_run_def walk.cursor_safe_def)
  moreover from this have "calm (st\<lparr> s_db := db \<rparr>)"
    using calm same by (simp add: calm_def runs_exist_def has_run_def)
  moreover have "walk_on (launch db resume json bound clock)" for resume json bound clock
    by (simp add: walk_on_def launch_def)
  ultimately show ?thesis
    using Inr walk.launch_inv [of db] by (auto simp: batch_inv_def step_seed_def safe_def Let_def split: sum.splits)
      (simp_all add: launch_def open_store_def)
qed

lemma piping_okI:
  "stage = from_config (sv_runtime S) config ws \<Longrightarrow> batch_track rid stage db r p \<Longrightarrow>
   (\<not> isl r \<Longrightarrow> scored (bt_config b) rid db) \<Longrightarrow> (\<not> isl r \<Longrightarrow> bt_limit b = None \<Longrightarrow> set keys \<subseteq> set (t_pubkey db)) \<Longrightarrow>
   piping_ok b rid stage p"
  unfolding piping_ok_def by (intro conjI exI [of _ config] exI [of _ ws] exI [of _ db] exI [of _ r]) auto

lemma piping_starts:
  assumes w: "walk.walk_inv w" "walk_on w" "wk_limit w = bt_limit b" and rid: "wk_pc w = Returned rid"
  shows "piping_ok b rid (stage_of (bt_config b) (s_db (wk_store w)))
    (run_pipeline (read_pubkeys (s_db (wk_store w))) DEFAULT_AUTHORS_PER_CALL (wk_clock w, Map.empty) (wk_store w, 0))"
proof -
  let ?st = "wk_store w" and ?db = "s_db (wk_store w)"
  let ?batches = "chunks DEFAULT_AUTHORS_PER_CALL (read_pubkeys ?db)"
  note calm = walk_inv_calm [OF w(1)]
  have st: "sink_ok rid (?st, 0)" "settled ?st = ?db" "bt_limit b = None \<longrightarrow> set keys \<subseteq> set (t_pubkey ?db)"
    using w calm rid
    by (simp_all add: sink_ok_def walk.walk_inv_def walk.pc_ok_def walk.owed_def walk_on_def settled_def apply_msgs_def Let_def)
  obtain inputs r where fa: "fetch_all (batch_fetch S) ?batches (wk_clock w, Map.empty) = (inputs, r)"
    by (rule prod.exhaust)
  have apc: "0 < DEFAULT_AUTHORS_PER_CALL"
    by (simp add: DEFAULT_AUTHORS_PER_CALL_def)
  obtain n where "map (ag_author \<circ> si_group) inputs = concat (take n ?batches)"
    using fetch_all_authors [OF fa [unfolded batch_fetch_def]] by blast
  then have "(ag_author \<circ> si_group) ` set inputs \<subseteq> set (concat ?batches)"
    by (metis (no_types, lifting) append_take_drop_id concat_append set_append set_map sup_ge1)
  then have "list_all input_ok inputs"
    using calm unfolding concat_chunks [OF apc]
    by (auto simp: list_all_iff input_ok_def calm_def safe_def read_pubkeys_def)
  note start = pipeline_sink.pipe_start [OF batch_sink [OF refl] st(1) apc fa this]
  have "r = Inr ()" if "\<not> isl (map_sum id (\<lambda>_. 0 :: u64) r)"
    using that by (cases r) simp_all
  then show ?thesis
    using all_scored [OF calm_db [OF calm] _ apc, of _ inputs "bt_config b" rid] fa st(3)
    by (intro piping_okI [OF refl start]) (simp_all only: st(2) comp_apply fst_conv simp_thms)
qed

lemma step_enumerated_inv:
  assumes "batch_inv b" "bt_pc b = Enumerating weights w" "step_enumerated S (bt_config b) weights w = Some pc"
  shows "batch_inv (b\<lparr> bt_pc := pc \<rparr>)"
proof -
  have w: "walk.walk_inv w" "walk_on w" "wk_limit w = bt_limit b" "read_weights (s_db (wk_store w)) = weights"
    using assms(1,2) by (simp_all add: batch_inv_def)
  have "piping_ok (b\<lparr> bt_pc := pc \<rparr>) rid stage p \<longleftrightarrow> piping_ok b rid stage p" for rid stage p
    by (simp add: piping_ok_def)
  then show ?thesis
    using assms(3) walk_inv_calm [OF w(1)] piping_starts [OF w(1-3)] unfolding w(4)
    by (auto simp: step_enumerated_def batch_inv_def split: walk_pc.splits)
qed

lemma ended_pc [simp]: "ended (b\<lparr> bt_pc := pc \<rparr>) rid st = ended b rid st" "piping_ok (b\<lparr> bt_pc := pc \<rparr>) rid stage p = piping_ok b rid stage p"
  by (simp_all add: ended_def piping_ok_def)

lemma step_scored_inv:
  assumes "batch_inv b" "bt_pc b = ScoringRun rid stage p" "step_scored rid p = Some pc"
  shows "batch_inv (b\<lparr> bt_pc := pc \<rparr>)"
proof -
  obtain config ws db r where stage: "stage = from_config (sv_runtime S) config ws" and track: "batch_track rid stage db r p"
    and r: "\<not> isl r \<longrightarrow> scored (bt_config b) rid db \<and> (bt_limit b = None \<longrightarrow> set keys \<subseteq> set (t_pubkey db))"
    using assms(1,2) by (auto simp: batch_inv_def piping_ok_def)
  note calm = track_calm [OF track stage]
  have "ended b rid (fst (pp_sink p))" if "pp_status p = PipeReturned (Inr v)" for v
  proof -
    have "Inr v = r" "settled (fst (pp_sink p)) = db"
      using pipeline_sink.on_track_returned [OF batch_sink [OF stage] track that] by simp_all
    then show ?thesis
      using r calm by (auto simp: ended_def)
  qed
  then show ?thesis
    using assms(3) calm by (auto simp: step_scored_def batch_inv_def split: pipe_status.splits sum.splits)
qed

lemma calm_update:
  assumes "run_update f" "calm st" "\<And>r. last_cursor (f r) = last_cursor r"
  shows "calm (st\<lparr> s_db := update_run f rid (s_db st) \<rparr>)"
proof -
  have "safe (update_run f rid (s_db st))"
    using assms run_update.update_inv [OF assms(1), of "s_db st" rid] walk.cursor_safe_update [of "s_db st" f rid]
    by (simp add: calm_def safe_def) (simp add: update_run_def)
  then show ?thesis
    using assms(2) by (simp add: calm_def runs_exist_def run_update.update_has_run [OF assms(1)])
qed

lemma step_mark_done_inv:
  assumes "batch_inv b" "bt_pc b = MarkDone rid m st"
  shows "batch_inv (b\<lparr> bt_pc := step_mark_done now rid m st \<rparr>)"
proof (cases "mark_run_done now rid m (s_db st)")
  case (Inl e)
  then show ?thesis
    using assms by (simp add: step_mark_done_def batch_inv_def ended_def)
next
  case (Inr db)
  let ?f = "\<lambda>r. r\<lparr> status := ''done'', finished_at := Some now, max_lev_id_end := Some m \<rparr>"
  have db: "db = update_run ?f rid (s_db st)" and "filter (\<lambda>r. run_id r = rid) (t_run (s_db st)) \<noteq> []"
    using Inr by (auto simp: mark_run_done_def split: if_splits)
  then obtain r where r: "r \<in> set (t_run (s_db st))" "run_id r = rid"
    by (auto simp: filter_empty_conv)
  have st: "ended b rid st"
    using assms by (simp add: batch_inv_def)
  have "calm (st\<lparr> s_db := db \<rparr>)"
    unfolding db using st by (intro calm_update done_update.run_update_axioms) (simp_all add: ended_def)
  then have "calm (close_send (st\<lparr> s_db := db \<rparr>))"
    by (simp add: calm_def close_send_def)
  moreover have "settled (close_send (st\<lparr> s_db := db \<rparr>)) = (settled st)\<lparr> t_run := t_run db \<rparr>"
    by (simp add: db settled_def close_send_def apply_msgs_def update_run_def)
  moreover have "scored config rid ((settled st)\<lparr> t_run := t_run db \<rparr>) = scored config rid (settled st)" for config
    by (simp add: scored_def read_weights_def has_row_def)
  ultimately have "ended b rid (close_send (st\<lparr> s_db := db \<rparr>))"
    using st by (simp add: ended_def)
  moreover have "\<exists>r\<in>set (t_run db). run_id r = rid \<and> status r = ''done''"
  proof
    show "?f r \<in> set (t_run db)"
      unfolding db update_run_def using r by (auto intro!: image_eqI [of _ _ r])
  qed (simp add: r(2))
  ultimately show ?thesis
    by (simp add: step_mark_done_def batch_inv_def close_send_def Inr)
qed

lemma ended_turn: "ended b rid st \<Longrightarrow> turn_ok n st \<Longrightarrow> ended b rid (writer_turn n st) \<and> t_run (s_db (writer_turn n st)) = t_run (s_db st)"
  using calm_turn [of st n] by (simp add: ended_def)

lemma turn_inv:
  assumes "batch_inv b" "turn_ok n (pc_store (bt_pc b))" "with_writer (writer_turn n) (bt_pc b) = Some pc"
  shows "batch_inv (b\<lparr> bt_pc := pc \<rparr>)"
  using assms calm_turn [of "pc_store (bt_pc b)" n] ended_turn [of b _ "pc_store (bt_pc b)" n]
  by (cases "bt_pc b") (auto simp: batch_inv_def)

lemma exit_inv:
  assumes "batch_inv b" "bt_pc b = Closing rid st" "s_queue st = []"
  shows "batch_inv (b\<lparr> bt_pc := Closing rid (writer_exit st) \<rparr>)"
  using assms by (auto simp: batch_inv_def writer_exit_def ended_def calm_def settled_def)

lemma step_closed_inv:
  assumes "batch_inv b" "bt_pc b = Closing rid st" "step_closed rid st = Some pc"
  shows "batch_inv (b\<lparr> bt_pc := pc \<rparr>)"
  using assms by (auto simp: batch_inv_def step_closed_def close_result_def ended_def calm_def split: option.splits sum.splits)

lemma statement_inv:
  assumes "batch_inv b" "batch_step S now b = Some pc"
  shows "batch_inv (b\<lparr> bt_pc := pc \<rparr>)"
proof (cases "bt_pc b")
  case (ReadEnd rid st)
  then show ?thesis
    using assms by (auto simp: batch_step_def step_read_end_def batch_inv_def ended_def split: option.splits)
qed (use assms step_seed_inv step_enumerated_inv step_scored_inv step_mark_done_inv step_closed_inv in \<open>auto simp: batch_step_def\<close>)

lemma walking_inv:
  assumes "batch_inv b" "bt_pc b = Enumerating weights w" "advances (sv_client S) w w'"
  shows "batch_inv (b\<lparr> bt_pc := Enumerating weights w' \<rparr>)"
  using assms(1,2) walk.advances_inv [OF assms(3)] advances_keeps [OF assms(3)]
  by (auto simp: batch_inv_def weights_and_limit_def read_weights_def)

lemma piping_inv:
  assumes "batch_inv b" "bt_pc b = ScoringRun rid stage p"
    and move: "pipe_moves DEFAULT_CHANNEL_CAP (batch_fetch S) (batch_consumer (sv_runtime S) stage rid) writer_moves p p'"
  shows "batch_inv (b\<lparr> bt_pc := ScoringRun rid stage p' \<rparr>)"
proof -
  obtain config ws db r where stage: "stage = from_config (sv_runtime S) config ws" and track: "batch_track rid stage db r p"
    and r: "\<not> isl r \<longrightarrow> scored (bt_config b) rid db \<and> (bt_limit b = None \<longrightarrow> set keys \<subseteq> set (t_pubkey db))"
    using assms(1,2) by (auto simp: batch_inv_def piping_ok_def)
  have "piping_ok b rid stage p'"
    using r by (intro piping_okI [OF stage pipeline_sink.pipe_step [OF batch_sink [OF stage] move track]]) auto
  then show ?thesis
    by (simp add: batch_inv_def)
qed

lemma moves_inv: "batch_moves S b pc \<Longrightarrow> batch_inv b \<Longrightarrow> batch_inv (b\<lparr> bt_pc := pc \<rparr>)"
  by (induction rule: batch_moves.cases) (auto intro: statement_inv walking_inv piping_inv turn_inv exit_inv)

lemma sqlite_fails_inv:
  assumes "batch_inv b" "sqlite_fails e (bt_pc b) = Some pc"
  shows "batch_inv (b\<lparr> bt_pc := pc \<rparr>)"
proof (cases "bt_pc b")
  case (Enumerating ws w)
  have w: "walk.walk_inv w" "walk_on w" "wk_limit w = bt_limit b" "read_weights (s_db (wk_store w)) = ws"
    using assms(1) Enumerating by (simp_all add: batch_inv_def)
  have "walk.walk_inv (jump (Failed (StoreFailed e)) w)" if "calls_sqlite (wk_pc w)"
    using walk.walk_inv_pc [OF w(1)] that by (intro walk.walk_inv_jump [OF w(1)]) (cases "wk_pc w"; simp add: walk.pc_ok_def)
  then show ?thesis
    using assms(2) Enumerating w walk_inv_calm [OF w(1)]
    by (auto simp: batch_inv_def jump_def walk_on_def split: if_splits walk_pc.splits)
qed (use assms in \<open>auto simp: batch_inv_def ended_def\<close>)

lemma batch_history_inv: "batch_history S b \<Longrightarrow> batch_inv b"
proof (induction rule: batch_history.induct)
  case (boot db config resume bound)
  have "safe bootstrap"
    using bootstrap_inv by (simp add: safe_def walk.cursor_safe_def) (simp add: bootstrap_def)
  then show ?case
    using boot start_inv by blast
next
  case (crash b db config resume bound)
  then show ?case
    using start_inv calm_db [OF inv_calm] by blast
qed (simp_all add: moves_inv sqlite_fails_inv)

text \<open>A batch that returns has scored what it enumerated.\<close>

lemma batch_returned:
  assumes "batch_history S b" "bt_pc b = BatchReturned rid st"
  shows "safe (s_db st) \<and> scored (bt_config b) rid (s_db st) \<and> (bt_limit b = None \<longrightarrow> set (t_pubkey (s_db st)) = set keys) \<and>
    (\<exists>r\<in>set (t_run (s_db st)). run_id r = rid \<and> status r = ''done'')"
proof -
  have "ended b rid st" "s_queue st = []" "\<exists>r\<in>set (t_run (s_db st)). run_id r = rid \<and> status r = ''done''"
    using batch_history_inv [OF assms(1)] assms(2) by (simp_all add: batch_inv_def)
  then show ?thesis
    by (auto simp: ended_def calm_def safe_def settled_def apply_msgs_def)
qed

end

end
