(* ===== verification/BatchRuns.thy ===== *)
theory BatchRuns
  imports Batch
begin

text \<open>
  What a batch achieves: the end-to-end property of a batch that returns, against the resolvers of
  LMDB2GraphQL, a concrete batch that runs through to its return, and the crash between the mark on the
  run and the commit of its scores.
\<close>

section \<open>A batch that runs through\<close>

lemma pipe_finishes:
  assumes "0 < cap"
  shows "\<exists>p'. (pipe_moves cap fetch consumer env)\<^sup>*\<^sup>* p p' \<and> ((\<exists>r. pp_status p' = PipeReturned r) \<or> pp_status p' = PipePanicked)"
proof (induction "work p" arbitrary: p rule: wf_induct_rule [OF wf_lex_prod [OF wf_less_than wf_less_than]])
  case 1
  show ?case
  proof (cases "produce cap fetch p = None \<and> consume consumer p = None")
    case True
    then show ?thesis
      using stuck_iff [OF assms] by blast
  next
    case False
    then obtain q where "pipe_moves cap fetch consumer env p q" "(work q, work p) \<in> less_than <*lex*> less_than"
      using work_decreases pipe_moves.producer pipe_moves.consumer by (metis option.exhaust)
    then show ?thesis
      using 1 by (meson converse_rtranclp_into_rtranclp)
  qed
qed

text \<open>Without a turn of the writer the consumer only queues its rows.\<close>

lemma quiet_sink:
  "pipeline_sink (batch_consumer R (from_config R config ws) rid) (\<lambda>_ _. False)
     (\<lambda>s. s_open (fst s) \<and> s_writer (fst s) = None \<and> s_db (fst s) = db) (\<lambda>_. True) (s_queue \<circ> fst)
     (\<lambda>input q. q @ [Score (row_of R (from_config R config ws) rid input)])"
  by unfold_locales (auto simp: batch_consumer_def row_of_from_config persist_def send_def split: prod.split)

lemma fold_snoc: "fold (\<lambda>x q. q @ [f x]) xs q = q @ map f xs"
  by (induction xs arbitrary: q) simp_all

lemma piping_moves:
  assumes "(pipe_moves DEFAULT_CHANNEL_CAP (batch_fetch S) (batch_consumer (sv_runtime S) stage rid) (\<lambda>_ _. False))\<^sup>*\<^sup>* p p'"
    and "batch_history S (b\<lparr> bt_pc := ScoringRun rid stage p \<rparr>)"
  shows "batch_history S (b\<lparr> bt_pc := ScoringRun rid stage p' \<rparr>)"
  using assms
proof (induction rule: rtranclp_induct)
  case (step q q')
  have "pipe_moves DEFAULT_CHANNEL_CAP (batch_fetch S) (batch_consumer (sv_runtime S) stage rid) writer_moves q q'"
    using step.hyps(2) by cases (auto intro: pipe_moves.intros)
  then show ?case
    using batch_history.move [OF step.IH [OF step.prems] batch_moves.piping] by simp
qed simp

lemma reach_closing:
  assumes hist: "batch_history S b" and pc: "bt_pc b = Enumerating ws w" "wk_pc w = Returned rid"
    and st: "wk_store w = \<lparr> s_db = db, s_queue = [], s_open = True, s_writer = None \<rparr>"
    and fa: "fetch_all (batch_fetch S) (chunks DEFAULT_AUTHORS_PER_CALL (read_pubkeys db)) (wk_clock w, Map.empty) = (inputs, Inr ())"
    and marks: "read_max_lev_end db rid = Some v" "mark_run_done now rid v db = Inr db'"
  shows "batch_history S (b\<lparr> bt_pc := Closing rid \<lparr> s_db = db',
    s_queue = map (\<lambda>input. Score (row_of (sv_runtime S) (from_config (sv_runtime S) (bt_config b) ws) rid input)) inputs,
    s_open = False, s_writer = None \<rparr> \<rparr>)"
proof -
  let ?stage = "from_config (sv_runtime S) (bt_config b) ws"
  let ?p = "run_pipeline (read_pubkeys db) DEFAULT_AUTHORS_PER_CALL (wk_clock w, Map.empty) (wk_store w, 0 :: u64)"
  let ?q = "map (\<lambda>input. Score (row_of (sv_runtime S) ?stage rid input)) inputs"
  let ?on = "pipeline_sink.on_track (\<lambda>s. s_open (fst s) \<and> s_writer (fst s) = None \<and> s_db (fst s) = db) (\<lambda>_. True) (s_queue \<circ> fst)
     (\<lambda>input q. q @ [Score (row_of (sv_runtime S) ?stage rid input)]) (batch_fetch S) ?q (Inr 0)"
  have move: "batch_history S (b'\<lparr> bt_pc := pc' \<rparr>)" if "batch_history S b'" "batch_step S now b' = Some pc'" for b' pc'
    using that by (rule batch_history.move [OF _ batch_moves.statement])
  have b1: "batch_history S (b\<lparr> bt_pc := ScoringRun rid ?stage ?p \<rparr>)"
    using hist pc st by (intro move) (simp_all add: batch_step_def step_enumerated_def)
  have start: "?on ?p"
    using pipeline_sink.pipe_start [OF quiet_sink, of "(wk_store w, 0)" db DEFAULT_AUTHORS_PER_CALL "batch_fetch S" _ _ inputs "Inr ()"] fa st
    by (simp add: DEFAULT_AUTHORS_PER_CALL_def list_all_iff fold_snoc)
  have "0 < DEFAULT_CHANNEL_CAP"
    by (simp add: DEFAULT_CHANNEL_CAP_def)
  then obtain p where run: "(pipe_moves DEFAULT_CHANNEL_CAP (batch_fetch S) (batch_consumer (sv_runtime S) ?stage rid) (\<lambda>_ _. False))\<^sup>*\<^sup>* ?p p"
    and stop: "(\<exists>r. pp_status p = PipeReturned r) \<or> pp_status p = PipePanicked"
    using pipe_finishes [of _ "batch_fetch S" "batch_consumer (sv_runtime S) ?stage rid" "\<lambda>_ _. False" ?p] by blast
  have on: "?on p"
    by (rule pipeline_sink.pipe_run [OF quiet_sink run start])
  then have sink: "s_open (fst (pp_sink p))" "s_writer (fst (pp_sink p)) = None" "s_db (fst (pp_sink p)) = db" "pp_status p \<noteq> PipePanicked"
    unfolding pipeline_sink.on_track_def [OF quiet_sink] by simp_all
  have ret: "r = Inr 0 \<and> s_queue (fst (pp_sink p)) = ?q" if "pp_status p = PipeReturned r" for r
    using pipeline_sink.on_track_returned [OF quiet_sink on that] by simp
  then have "pp_status p = PipeReturned (Inr 0)"
    using stop sink(4) by blast
  moreover from this have "fst (pp_sink p) = \<lparr> s_db = db, s_queue = ?q, s_open = True, s_writer = None \<rparr>" (is "_ = ?st")
    using ret sink(1-3) by (cases "fst (pp_sink p)") simp
  ultimately have "batch_history S (b\<lparr> bt_pc := ReadEnd rid ?st \<rparr>)"
    using move [OF piping_moves [OF run b1]] by (simp add: batch_step_def step_scored_def)
  then have "batch_history S (b\<lparr> bt_pc := MarkDone rid v ?st \<rparr>)"
    using move [of "b\<lparr> bt_pc := ReadEnd rid ?st \<rparr>"] marks(1) by (simp add: batch_step_def step_read_end_def)
  then show ?thesis
    using move [of "b\<lparr> bt_pc := MarkDone rid v ?st \<rparr>"] marks(2) by (simp add: batch_step_def step_mark_done_def close_send_def)
qed

lemma fetch_all_succeeds:
  assumes "\<And>batch t. \<exists>groups t'. fetch_batch (sv_latest S) batch t = (Inr groups, t')"
  shows "\<exists>inputs. fetch_all (batch_fetch S) batches c = (inputs, Inr ())"
proof (induction batches arbitrary: c)
  case (Cons batch batches)
  obtain groups t' where "fetch_batch (sv_latest S) batch (fst c) = (Inr groups, t')"
    using assms by blast
  then obtain ins c' where "batch_fetch S batch c = (Inr ins, c')"
    by (cases c) (simp add: batch_fetch_def production_fetch_with_whitelist_def Let_def case_prod_beta)
  moreover obtain rest where "fetch_all (batch_fetch S) batches c' = (rest, Inr ())"
    using Cons.IH by blast
  ultimately show ?case
    by simp
qed simp

lemma walking_moves:
  assumes "(advances (sv_client S))\<^sup>*\<^sup>* w w'" "batch_history S (b\<lparr> bt_pc := Enumerating ws w \<rparr>)"
  shows "batch_history S (b\<lparr> bt_pc := Enumerating ws w' \<rparr>)"
  using assms
proof (induction rule: rtranclp_induct)
  case (step v v')
  then show ?case
    using batch_history.move [OF step.IH [OF step.prems] batch_moves.walking [OF _ step.hyps(2)]] by simp
qed simp

section \<open>An example\<close>

text \<open>A database with an index of authors and one of their events, behind a body limit of two authors.\<close>

definition example_relay_env :: heed_env where
  "example_relay_env = with_store EVENT_PAYLOAD_DB_NAME example_payloads
     (mem_env [(''Event__pubkey'', StringUint64Cmp, example_pubkeys),
               (''Event__pubkeyKind'', StringUint64Uint64Cmp, example_pubkey_kinds)])"

abbreviation example_author_entries :: "entry list" where
  "example_author_entries \<equiv> mem_entries StringUint64Cmp example_pubkeys"

abbreviation example_bucket_entries :: "entry list" where
  "example_bucket_entries \<equiv> mem_entries StringUint64Uint64Cmp example_pubkey_kinds"

definition example_services :: "(rat option, string \<rightharpoonup> bool) services" where
  "example_services = \<lparr> sv_runtime = example_runtime, sv_to_string = (\<lambda>_. Inr ''{}''),
     sv_client = index_client example_relay_env 7,
     sv_latest = index_latest 2 example_codec example_relay_env 0 FETCH_KIND FETCH_PER_AUTHOR,
     sv_wl_json = Inr, sv_wl_post = (\<lambda>t pks. Inl ''refused'') \<rparr>"

lemma relay_authors_served: "authors_served example_relay_env example_author_entries"
proof -
  have "serves_index example_relay_env ''Event__pubkey'' StringUint64Cmp example_author_entries"
    unfolding example_relay_env_def
    by (intro with_store_serves mem_env_serves)
      (simp_all add: index_comparator_def full_db_name_def RASGUEADB_PREFIX_def EVENT_PAYLOAD_DB_NAME_def)
  then show ?thesis
    using example_authors_served by (simp add: authors_served_def)
qed

lemma relay_buckets_served: "buckets_served example_relay_env example_bucket_entries"
proof -
  have "serves_index example_relay_env ''Event__pubkeyKind'' StringUint64Uint64Cmp example_bucket_entries"
    unfolding example_relay_env_def
    by (intro with_store_serves mem_env_serves)
      (simp_all add: index_comparator_def full_db_name_def RASGUEADB_PREFIX_def EVENT_PAYLOAD_DB_NAME_def)
  moreover have "get_event_payload example_relay_env lev_id = get_event_payload example_authors_env lev_id" for lev_id
    by (simp add: get_event_payload_def open_event_payload_db_def example_authors_env_def example_relay_env_def
        with_store_def mem_env_def)
  ultimately show ?thesis
    using example_buckets_served by (simp add: buckets_served_def)
qed

interpretation relay_authors: sure_backend example_relay_env example_author_entries "index_client example_relay_env 7"
  by (rule index_client_sure [OF relay_authors_served])

interpretation relay_latest: sized_adapter "index_latest 2 example_codec example_relay_env 0 FETCH_KIND FETCH_PER_AUTHOR"
  "author_events example_codec example_relay_env 0 FETCH_KIND FETCH_PER_AUTHOR example_bucket_entries" 2
  by (rule index_latest_sized [OF relay_buckets_served]) (simp_all add: MAX_AUTHORS_def FETCH_KIND_def)

interpretation relay_backend: latest_backend example_codec example_relay_env example_bucket_entries 0 FETCH_KIND FETCH_PER_AUTHOR
  "index_latest 2 example_codec example_relay_env 0 FETCH_KIND FETCH_PER_AUTHOR"
  by (rule index_latest_backend [OF relay_buckets_served])

interpretation example_batch: batch_services example_services "map hex_encode_lowercase (author_list example_author_entries)"
  "keys_behind example_author_entries" known_cursor
  "author_events example_codec example_relay_env 0 FETCH_KIND FETCH_PER_AUTHOR example_bucket_entries"
  by (intro batch_services.intro) (simp_all add: example_services_def relay_authors.walk.authors_service_axioms relay_latest.adapter_axioms)

definition example_walked_run :: "string \<Rightarrow> Run" where
  "example_walked_run json = \<lparr> run_id = 1, started_at = 0, finished_at = None, max_lev_id_start = Some 7, max_lev_id_end = Some 7,
     last_cursor = None, config_json = json, status = ''running'' \<rparr>"

definition example_walked :: "'f Weight list \<Rightarrow> string \<Rightarrow> 'f Database" where
  "example_walked ws json = bootstrap\<lparr> t_run := [example_walked_run json], t_run_seq := 1, t_pubkey := add_keys example_hex_keys [],
     t_weight := ws \<rparr>"

lemma relay_walk:
  fixes ws :: "'f Weight list"
  shows "\<exists>w. (advances (index_client example_relay_env 7))\<^sup>*\<^sup>* (launch (bootstrap\<lparr> t_weight := ws \<rparr>) False json None 0) w \<and>
    wk_pc w = Returned 1 \<and> wk_store w = \<lparr> s_db = example_walked ws json, s_queue = [], s_open = True, s_writer = None \<rparr>"
proof -
  let ?cl = "index_client example_relay_env 7"
  let ?w0 = "launch (bootstrap\<lparr> t_weight := ws \<rparr>) False json None 0"
  let ?w1 = "the (enum_step ?cl 0 ?w0)"
  let ?w2 = "the (enum_step ?cl 0 ?w1)"
  let ?w3 = "the (enum_step ?cl 0 ?w2)"
  let ?w4 = "the (enum_step ?cl 0 ?w3)"
  let ?w5 = "with_turn 2 ?w4"
  let ?w6 = "the (enum_step ?cl 0 ?w5)"
  let ?w7 = "the (enum_step ?cl 0 ?w6)"
  note simps = launch_def open_store_def enum_step_def step_select_def begin_run_def jump_def on_db_def bootstrap_def
    step_probe_start_def tick_def set_run_max_lev_start_def set_run_max_lev_end_def update_run_def step_fetch_def insert_pubkeys_def
    send_def step_flush_send_def flush_send_def example_walk_retry [OF relay_authors_served] example_keys_valid with_turn_def writer_turn_def
    commit_batch_eq runs_exist_def apply_msgs_def flush_returns_def step_probe_end_def turn_ok_def BATCH_def
  have "enum_step ?cl 0 ?w0 = Some ?w1" "enum_step ?cl 0 ?w1 = Some ?w2" "enum_step ?cl 0 ?w2 = Some ?w3"
    "enum_step ?cl 0 ?w3 = Some ?w4" "turn_ok 2 (wk_store ?w4)" "enum_step ?cl 0 ?w5 = Some ?w6" "enum_step ?cl 0 ?w6 = Some ?w7"
    by (simp_all add: simps)
  then have "(advances ?cl)\<^sup>*\<^sup>* ?w0 ?w7"
    by (meson advances.statement advances.turn rtranclp.rtrancl_into_rtrancl rtranclp.rtrancl_refl)
  moreover have "wk_pc ?w7 = Returned 1"
    "wk_store ?w7 = \<lparr> s_db = example_walked ws json, s_queue = [], s_open = True, s_writer = None \<rparr>"
    by (simp_all add: simps example_walked_def example_walked_run_def)
  ultimately show ?thesis
    by blast
qed

definition example_closing :: "rat option Database \<Rightarrow> rat option WriteMsg list \<Rightarrow> rat option batch" where
  "example_closing db q = \<lparr> bt_config = example_config, bt_resume = False, bt_limit = None,
     bt_pc = Closing 1 \<lparr> s_db = db, s_queue = q, s_open = False, s_writer = None \<rparr> \<rparr>"

lemma example_fetches: "\<exists>inputs. fetch_all (batch_fetch example_services) batches c = (inputs, Inr ())"
  by (rule fetch_all_succeeds) (simp add: example_services_def relay_latest.fetch_succeeds)

abbreviation (input) example_rows :: "rat option Weight list" where
  "example_rows \<equiv> seed_rows example_config"

lemma example_seeded:
  "batch_history example_services ((run_batch bootstrap example_config False None)\<lparr> bt_pc :=
     Enumerating (read_weights (bootstrap\<lparr> t_weight := example_rows \<rparr>)) (launch (bootstrap\<lparr> t_weight := example_rows \<rparr>) False ''{}'' None 0) \<rparr>)"
proof -
  have "seed_weights_if_empty example_config bootstrap = Inr (bootstrap\<lparr> t_weight := example_rows \<rparr>)"
    using execute_inserts [of bootstrap example_rows] seed_keys [of example_config] distinct_seed_keys
    by (simp add: seed_weights_if_empty_def bootstrap_def)
  then show ?thesis
    by (intro batch_history.move [OF batch_history.boot [OF same_runs_refl] batch_moves.statement [where now = 0]])
      (simp add: batch_step_def run_batch_def step_seed_def open_store_def example_services_def Let_def)
qed

lemma example_hex_keys_distinct: "add_keys example_hex_keys [] = example_hex_keys"
  by code_simp

text \<open>The example batch just before its writer commits the scores.\<close>

lemma example_reaches_closing:
  obtains db q where "batch_history example_services (example_closing db q)" "t_score db = []" "t_pubkey db = example_hex_keys"
    "map (\<lambda>r. (run_id r, status r)) (t_run db) = [(1, ''done'')]" "length q = 3" "runs_exist q db"
proof -
  let ?S = example_services and ?b = "run_batch bootstrap example_config False None :: rat option batch"
  let ?sws = "read_weights (bootstrap\<lparr> t_weight := example_rows \<rparr>)" and ?db = "example_walked example_rows ''{}''"
  obtain w where w: "(advances (sv_client ?S))\<^sup>*\<^sup>* (launch (bootstrap\<lparr> t_weight := example_rows \<rparr>) False ''{}'' None 0) w"
    "wk_pc w = Returned 1" "wk_store w = \<lparr> s_db = ?db, s_queue = [], s_open = True, s_writer = None \<rparr>"
    using relay_walk [of example_rows "''{}''"] by (auto simp: example_services_def)
  note hist = walking_moves [OF w(1) example_seeded]
  obtain inputs where fa: "fetch_all (batch_fetch ?S) (chunks DEFAULT_AUTHORS_PER_CALL (read_pubkeys ?db)) (wk_clock w, Map.empty) = (inputs, Inr ())"
    using example_fetches by blast
  let ?done = "?db\<lparr> t_run := [(example_walked_run ''{}'')\<lparr> status := ''done'', finished_at := Some 0, max_lev_id_end := Some 7 \<rparr>] \<rparr>"
  let ?q = "map (\<lambda>input. Score (row_of (sv_runtime ?S) (from_config (sv_runtime ?S) example_config ?sws) 1 input)) inputs"
  have "read_max_lev_end ?db 1 = Some 7" "mark_run_done 0 1 7 ?db = Inr ?done"
    by (simp_all add: read_max_lev_end_def mark_run_done_def update_run_def example_walked_def example_walked_run_def)
  from reach_closing [OF hist _ w(2,3) fa this]
  have "batch_history ?S (example_closing ?done ?q)"
    by (simp add: example_closing_def run_batch_def)
  moreover have "length (map (ag_author \<circ> si_group) inputs) = 3"
    using fetch_all_authors [OF fa [unfolded batch_fetch_def]] concat_chunks [of DEFAULT_AUTHORS_PER_CALL "read_pubkeys ?db"]
    by (auto simp: DEFAULT_AUTHORS_PER_CALL_def read_pubkeys_def example_walked_def example_hex_keys_distinct)
      (simp add: example_hex_keys_def)
  moreover have "runs_exist ?q ?done"
    by (auto simp: runs_exist_def list_all_iff row_of_from_config has_run_def example_walked_def example_walked_run_def)
  ultimately show thesis
    by (intro that [of ?done ?q]) (simp_all add: example_walked_def example_walked_run_def bootstrap_def example_hex_keys_distinct)
qed

lemma example_returns:
  obtains db where "batch_history example_services ((example_closing db [])\<lparr> bt_pc := BatchReturned 1 \<lparr> s_db = db, s_queue = [],
    s_open = False, s_writer = Some (Inr ()) \<rparr> \<rparr>)"
proof -
  obtain db q where hist: "batch_history example_services (example_closing db q)" and q: "length q = 3" "runs_exist q db"
    using example_reaches_closing by metis
  let ?st = "\<lambda>db q r. \<lparr> s_db = db, s_queue = q, s_open = False, s_writer = r \<rparr>"
  note simps = example_closing_def with_writer.simps turn_ok_def BATCH_def writer_exit_def batch_step_def step_closed_def close_result_def
  have turn: "writer_turn 3 (?st db q None) = ?st (apply_msgs q db) [] None"
    using q by (simp add: writer_turn_ok)
  have "batch_history example_services (example_closing (apply_msgs q db) [])"
    using batch_history.move [OF hist batch_moves.turn [of 3]] q turn by (simp add: simps)
  from batch_history.move [OF this batch_moves.exit [where rid = 1 and st = "?st (apply_msgs q db) [] None"]]
  have "batch_history example_services ((example_closing (apply_msgs q db) [])\<lparr> bt_pc := Closing 1 (?st (apply_msgs q db) [] (Some (Inr ()))) \<rparr>)"
    by (simp add: simps)
  from batch_history.move [OF this batch_moves.statement [where now = 0]]
  show thesis
    by (intro that [of "apply_msgs q db"]) (simp add: simps)
qed

section \<open>Properties\<close>

context authors_backend
begin

lemma walk_service: "authors_service cl (map hex_encode_lowercase (author_list es)) (keys_behind es) known_cursor"
  by (rule walk.authors_service_axioms)

end

lemma backends_batch:
  assumes "authors_served env es" "answers_authors env (sv_client S)"
    and "buckets_served env bs" "answers_latest cd env now kind per_author (sv_latest S)"
  shows "batch_services S (map hex_encode_lowercase (author_list es)) (keys_behind es) known_cursor (author_events cd env now kind per_author bs)"
proof -
  have "authors_service (sv_client S) (map hex_encode_lowercase (author_list es)) (keys_behind es) known_cursor"
    using authors_backend.intro [OF assms(1,2)] by (rule authors_backend.walk_service)
  then show ?thesis
    using latest_backend.latest_adapter [OF latest_backend.intro [OF assms(3,4)]] by (rule batch_services.intro)
qed

lemma batch_scored:
  assumes "authors_served env es" "answers_authors env (sv_client S)"
    and "buckets_served env bs" "answers_latest cd env now FETCH_KIND FETCH_PER_AUTHOR (sv_latest S)"
    and "batch_history S b" "bt_pc b = BatchReturned rid st" "bt_limit b = None"
  shows "(\<forall>a\<in>set (author_list es). \<exists>w p.
       stage_score (sv_runtime S) (from_config (sv_runtime S) (bt_config b) (read_weights (s_db st))) rid (hex_encode_lowercase a)
         (author_events cd env now FETCH_KIND FETCH_PER_AUTHOR bs (hex_encode_lowercase a)) w = Some p \<and> has_row (s_db st) p) \<and>
     {pk. (rid, pk) \<in> fst ` set (t_score (s_db st))} = hex_encode_lowercase ` set (author_list es) \<and>
     (\<exists>r\<in>set (t_run (s_db st)). run_id r = rid \<and> status r = ''done'')"
proof -
  let ?stage = "from_config (sv_runtime S) (bt_config b) (read_weights (s_db st))" and ?keys = "hex_encode_lowercase ` set (author_list es)"
  note batch = backends_batch [OF assms(1-4)]
  note ret = batch_services.batch_returned [OF batch assms(5,6)]
  have keys: "set (t_pubkey (s_db st)) = ?keys" and inv: "db_inv (s_db st)"
    using ret assms(7) by (auto simp: batch_services.safe_def [OF batch])
  have rows: "\<forall>pk\<in>?keys. \<exists>w p. stage_score (sv_runtime S) ?stage rid pk (author_events cd env now FETCH_KIND FETCH_PER_AUTHOR bs pk) w = Some p \<and>
      has_row (s_db st) p"
    using ret unfolding batch_services.scored_def [OF batch] keys by blast
  have "(rid, pk) \<in> fst ` set (t_score (s_db st))" if pk: "pk \<in> ?keys" for pk
  proof -
    obtain w p where p: "stage_score (sv_runtime S) ?stage rid pk (author_events cd env now FETCH_KIND FETCH_PER_AUTHOR bs pk) w = Some p"
      "has_row (s_db st) p"
      using rows pk by blast
    have "p_run_id p = rid" "p_pubkey p = pk"
      using stage_score_total [of "sv_runtime S" "bt_config b" "read_weights (s_db st)" rid pk _ w] p(1) by (metis option.inject)+
    then have "map_of (t_score (s_db st)) (rid, pk) \<noteq> None"
      using p(2) by (simp add: has_row_def)
    then show ?thesis
      by (simp add: map_of_eq_None_iff)
  qed
  moreover have "pk \<in> ?keys" if "(rid, pk) \<in> fst ` set (t_score (s_db st))" for pk
    using inv that unfolding db_inv_def keys by fastforce
  ultimately show ?thesis
    using rows ret by blast
qed


text \<open>
  C6: the mark comes too early.  \<^verbatim>\<open>mark_run_done\<close> runs before \<^verbatim>\<open>close\<close> has made the writer commit, so a
  crash between the two leaves a run that is done, that an export selects, that no resume will pick up
  again, and that has no score row for any of its pubkeys.
\<close>

theorem done_before_commit:
  "\<exists>db. batch_history example_services (run_batch db example_config True None) \<and> latest_done_run db = Some 1 \<and>
     latest_unfinished_run db = None \<and> t_pubkey db \<noteq> [] \<and> t_score db = []"
proof -
  obtain db q where hist: "batch_history example_services (example_closing db q)" "t_score db = []" "t_pubkey db = example_hex_keys"
    and runs: "map (\<lambda>r. (run_id r, status r)) (t_run db) = [(1, ''done'')]"
    by (rule example_reaches_closing)
  then obtain r where r: "t_run db = [r]" "run_id r = 1" "status r = ''done''"
    by auto
  have "batch_history example_services (run_batch db example_config True None)"
    by (rule batch_history.crash [OF hist(1)]) (simp add: example_closing_def)
  then show ?thesis
    using hist(2,3) r by (intro exI [of _ db]) (simp add: latest_done_run_def latest_unfinished_run_def example_hex_keys_def)
qed


end
