(* ===== verification/Tune.thy ===== *)
theory Tune
  imports Export
begin

text \<open>
  \<^verbatim>\<open>spamhunter/pubkey_iterator/src/tune.rs\<close>: the tuner that fits weights to labelled pubkeys and adopts them
  only past a backtest, and the review queue.  The logistic regression of \<^verbatim>\<open>linfa_logistic\<close> is the
  parameter \<open>logistic\<close>: from the feature rows, the classes, the regularisation and the iteration cap to the
  class it oriented itself towards, the coefficients and the intercept.
\<close>

section \<open>Labelled features\<close>

definition LAYERS :: "string list" where
  "LAYERS = [''L0_whitelist_absence'', ''L1_near_duplicate'', ''L3_content_entropy'', ''L4_link_mention'']"

fun position :: "string \<Rightarrow> string list \<Rightarrow> nat option" where
  "position l [] = None"
| "position l (k # ks) = (if k = l then Some 0 else map_option Suc (position l ks))"

text \<open>The \<^verbatim>\<open>BTreeMap\<close> of labels in key order.\<close>

definition read_labels :: "'f Database \<Rightarrow> (string \<times> bool) list" where
  "read_labels db = sort_key fst (fold (\<lambda>l. AList.update (lb_pubkey l) (lb_is_spam l)) (t_backpropagation db) [])"

definition fill_feature ::
  "string list \<Rightarrow> (int \<times> string \<times> string) \<times> ('f \<times> string option) \<Rightarrow> (string \<rightharpoonup> 'f list) \<Rightarrow> (string \<rightharpoonup> 'f list)" where
  "fill_feature layers = (\<lambda>((_, pk, layer), (value, _)) feats.
     case feats pk of
       None \<Rightarrow> feats
     | Some v \<Rightarrow> (case position layer layers of None \<Rightarrow> feats | Some j \<Rightarrow> feats(pk \<mapsto> v[j := value])))"

text \<open>Every label has its initialised vector, so the \<^verbatim>\<open>expect\<close> on the removal never fails.\<close>

definition labeled_features ::
  "'f f64 \<Rightarrow> int \<Rightarrow> string list \<Rightarrow> 'f Database \<Rightarrow> (string \<times> bool \<times> 'f list) list" where
  "labeled_features F rid layers db =
     (let labels = read_labels db;
          feats0 = (\<lambda>pk. if pk \<in> fst ` set labels then Some (replicate (length layers) (f_lit F 0)) else None);
          feats = fold (fill_feature layers) (filter (\<lambda>((r, _), _). r = rid) (t_signal db)) feats0
      in map (\<lambda>(pk, is_spam). (pk, is_spam, case feats pk of Some f \<Rightarrow> f | None \<Rightarrow> [])) labels)"

section \<open>Fit and backtest\<close>

record Regression =
  new_false_negatives :: "string list"
  new_false_positives :: "string list"

datatype 'f TuneReport =
  Adopted "(string \<times> 'f) list" 'f int
| BlockedByRegression Regression
| BlockedByPrecondition string

type_synonym 'f logistic = "'f list list \<Rightarrow> nat list \<Rightarrow> 'f \<Rightarrow> nat \<Rightarrow> (string, nat \<times> 'f list \<times> 'f) result"

definition fit ::
  "'f f64 \<Rightarrow> 'f logistic \<Rightarrow> (string \<times> bool \<times> 'f list) list \<Rightarrow> 'f \<Rightarrow> nat \<Rightarrow> (string, 'f list \<times> 'f) result" where
  "fit F logistic labeled alpha max_iterations =
     (if labeled = [] then Inl ''no labeled pubkeys to tune''
      else if \<not> (list_ex (\<lambda>(_, is_spam, _). is_spam) labeled \<and> list_ex (\<lambda>(_, is_spam, _). \<not> is_spam) labeled)
      then Inl ''need both spam and ham labels to tune (single-class label set)''
      else case logistic (map (\<lambda>(_, _, xs). xs) labeled) (map (\<lambda>(_, is_spam, _). if is_spam then 1 else 0) labeled)
                  alpha max_iterations of
             Inl e \<Rightarrow> Inl (''logistic fit failed: '' @ e)
           | Inr (pos_class, coeffs, intercept) \<Rightarrow>
               Inr (if pos_class = 1 then (coeffs, intercept) else (map (f_neg F) coeffs, f_neg F intercept)))"

fun backtest_loop ::
  "'f f64 \<Rightarrow> 'f list \<Rightarrow> 'f \<Rightarrow> 'f \<Rightarrow> (string \<times> bool \<times> 'f list) list \<Rightarrow> string list \<Rightarrow> string list \<Rightarrow> string list \<times> string list" where
  "backtest_loop F staging_w staging_b tau [] fns fps = (fns, fps)"
| "backtest_loop F staging_w staging_b tau ((pubkey, is_spam, xs) # labeled) fns fps =
     (let flagged = f_less F tau (combine F staging_w staging_b xs)
      in backtest_loop F staging_w staging_b tau labeled
           (if is_spam \<and> \<not> flagged then fns @ [pubkey] else fns)
           (if \<not> is_spam \<and> flagged then fps @ [pubkey] else fps))"

definition backtest ::
  "'f f64 \<Rightarrow> (string \<times> bool \<times> 'f list) list \<Rightarrow> 'f list \<Rightarrow> 'f \<Rightarrow> 'f \<Rightarrow> (Regression, unit) result" where
  "backtest F labeled staging_w staging_b tau =
     (case backtest_loop F staging_w staging_b tau labeled [] [] of
        (fns, fps) \<Rightarrow>
          if fns = [] \<and> fps = [] then Inr ()
          else Inl \<lparr> new_false_negatives = fns, new_false_positives = fps \<rparr>)"

definition update_weight :: "int \<Rightarrow> int \<Rightarrow> string \<times> 'f \<Rightarrow> 'f Database \<Rightarrow> 'f Database" where
  "update_weight now rid = (\<lambda>(layer, w) db. db\<lparr> t_weight :=
     map (\<lambda>row. if w_layer row = layer
                 then row\<lparr> w_weight := w, w_tuned_at := Some now, w_tuned_from_run := Some rid \<rparr> else row) (t_weight db) \<rparr>)"

definition write_weights :: "int \<Rightarrow> 'f list \<Rightarrow> 'f \<Rightarrow> int \<Rightarrow> 'f Database \<Rightarrow> 'f Database" where
  "write_weights now staging_w staging_b rid db =
     update_weight now rid (BIAS_KEY, staging_b) (fold (update_weight now rid) (zip LAYERS staging_w) db)"

section \<open>Review queue\<close>

definition populate_review_queue :: "int \<Rightarrow> int \<Rightarrow> nat \<Rightarrow> 'f Database \<Rightarrow> 'f Database" where
  "populate_review_queue now rid sample_size db =
     (let unflagged = map (\<lambda>((_, pk), s, _). (pk, s)) (filter (\<lambda>((r, _), _, _, suspected). r = rid \<and> \<not> suspected) (t_score db));
          sample = take sample_size (sort_key (\<lambda>(pk, _). (fnv1a64 (as_bytes pk), pk)) unflagged)
      in db\<lparr> t_review := filter (\<lambda>((r, _), _). r \<noteq> rid) (t_review db) @ map (\<lambda>(pk, s). ((rid, pk), (s, now))) sample \<rparr>)"

section \<open>The tuner\<close>

text \<open>
  The result and the database afterwards, for a resolved run; the queue is filled before anything can
  block the adoption.
\<close>

definition tune_on ::
  "'f f64 \<Rightarrow> 'f logistic \<Rightarrow> int \<Rightarrow> 'f HunterConfig \<Rightarrow> int \<Rightarrow> 'f Database \<Rightarrow> (string, 'f TuneReport) result \<times> 'f Database" where
  "tune_on F logistic now config rid db0 =
     (let db = populate_review_queue now rid (tc_review_sample_size (hc_tune config)) db0;
          labeled = labeled_features F rid LAYERS db;
          any_spam = list_ex (\<lambda>(_, is_spam, _). is_spam) labeled;
          any_ham = list_ex (\<lambda>(_, is_spam, _). \<not> is_spam) labeled
      in if labeled = [] then (Inr (BlockedByPrecondition ''no labeled pubkeys for the chosen run''), db)
         else if \<not> (any_spam \<and> any_ham) then (Inr (BlockedByPrecondition ''need both spam and ham labels to tune''), db)
         else case fit F logistic labeled (tc_alpha (hc_tune config)) (tc_max_iterations (hc_tune config)) of
                Inl e \<Rightarrow> (Inl e, db)
              | Inr (staging_w, staging_b) \<Rightarrow>
                  (case backtest F labeled staging_w staging_b (tau_of (read_weights db) (hc_tau config)) of
                     Inl regression \<Rightarrow> (Inr (BlockedByRegression regression), db)
                   | Inr _ \<Rightarrow> (Inr (Adopted (zip LAYERS staging_w) staging_b rid),
                                write_weights now staging_w staging_b rid db)))"

definition run_tune ::
  "'f f64 \<Rightarrow> 'f logistic \<Rightarrow> int \<Rightarrow> 'f HunterConfig \<Rightarrow> int option \<Rightarrow> 'f Database \<Rightarrow> (string, 'f TuneReport) result \<times> 'f Database" where
  "run_tune F logistic now config rid_arg db =
     (case (case rid_arg of Some rid \<Rightarrow> Some rid | None \<Rightarrow> latest_done_run db) of
        None \<Rightarrow> (Inl ''no completed run to tune'', db)
      | Some rid \<Rightarrow> tune_on F logistic now config rid db)"

section \<open>What the tuner leaves behind\<close>

lemma backtest_loop_spec:
  "backtest_loop F ws b tau labeled fns fps =
     (fns @ map fst (filter (\<lambda>(_, is_spam, xs). is_spam \<and> \<not> f_less F tau (combine F ws b xs)) labeled),
      fps @ map fst (filter (\<lambda>(_, is_spam, xs). \<not> is_spam \<and> f_less F tau (combine F ws b xs)) labeled))"
  by (induction labeled arbitrary: fns fps) (auto simp: Let_def split: if_splits)

lemma backtest_ok:
  "backtest F labeled ws b tau = Inr () \<longleftrightarrow>
     (\<forall>(pk, is_spam, xs)\<in>set labeled. f_less F tau (combine F ws b xs) \<longleftrightarrow> is_spam)"
proof -
  have "filter (\<lambda>(_, is_spam, xs). is_spam \<and> \<not> f_less F tau (combine F ws b xs)) labeled = [] \<and>
      filter (\<lambda>(_, is_spam, xs). \<not> is_spam \<and> f_less F tau (combine F ws b xs)) labeled = [] \<longleftrightarrow>
      (\<forall>(pk, is_spam, xs)\<in>set labeled. f_less F tau (combine F ws b xs) \<longleftrightarrow> is_spam)"
    by (induction labeled) auto
  then show ?thesis
    by (simp add: backtest_def backtest_loop_spec)
qed

lemma update_weight_at:
  "weight_at (t_weight (update_weight now rid (k, w) db)) l =
     (if l = k then map_option (\<lambda>row. row\<lparr> w_weight := w, w_tuned_at := Some now, w_tuned_from_run := Some rid \<rparr>) (weight_at (t_weight db) l)
      else weight_at (t_weight db) l)"
proof -
  have "weight_at (map (\<lambda>row. if w_layer row = k then f row else row) ws) l =
      (if l = k then map_option f (weight_at ws l) else weight_at ws l)" if "\<And>row. w_layer (f row) = w_layer row"
    for f :: "'a Weight \<Rightarrow> 'a Weight" and ws
    using that by (induction ws) (auto simp: weight_at_def)
  then show ?thesis
    by (simp add: update_weight_def)
qed

lemma update_weight_keys: "map w_layer (t_weight (update_weight now rid kw db)) = map w_layer (t_weight db)"
  by (cases kw) (simp add: update_weight_def cong: if_cong)

lemma update_weight_other:
  "update_weight now rid kw db = db\<lparr> t_weight := t_weight (update_weight now rid kw db) \<rparr>"
  by (cases kw) (simp add: update_weight_def)

lemma fold_update_weight_at:
  assumes "distinct (map fst kws)"
  shows "weight_at (t_weight (fold (update_weight now rid) kws db)) l =
    (case map_of kws l of
       Some w \<Rightarrow> map_option (\<lambda>row. row\<lparr> w_weight := w, w_tuned_at := Some now, w_tuned_from_run := Some rid \<rparr>) (weight_at (t_weight db) l)
     | None \<Rightarrow> weight_at (t_weight db) l)"
  using assms
proof (induction kws arbitrary: db)
  case (Cons kw kws)
  obtain k w where kw: "kw = (k, w)"
    by fastforce
  have "map_of kws k = None"
    using Cons.prems by (simp add: kw map_of_eq_None_iff)
  then show ?case
    using Cons by (auto simp: kw update_weight_at split: option.splits)
qed simp

lemma fold_update_weight_other:
  "map w_layer (t_weight (fold (update_weight now rid) kws db)) = map w_layer (t_weight db) \<and>
   fold (update_weight now rid) kws db = db\<lparr> t_weight := t_weight (fold (update_weight now rid) kws db) \<rparr>"
proof (induction kws arbitrary: db)
  case (Cons kw kws)
  have "fold (update_weight now rid) kws (update_weight now rid kw db) =
      (update_weight now rid kw db)\<lparr> t_weight := t_weight (fold (update_weight now rid) kws (update_weight now rid kw db)) \<rparr>"
    using Cons [of "update_weight now rid kw db"] by blast
  also have "\<dots> = db\<lparr> t_weight := t_weight (fold (update_weight now rid) kws (update_weight now rid kw db)) \<rparr>"
    by (subst update_weight_other) simp
  finally show ?case
    using Cons [of "update_weight now rid kw db"] update_weight_keys by simp
qed simp

lemma write_weights_fold:
  "length ws = length LAYERS \<Longrightarrow> write_weights now ws b rid db = fold (update_weight now rid) (zip LAYERS ws @ [(BIAS_KEY, b)]) db"
  by (simp add: write_weights_def)

section \<open>Features are the stored signals\<close>

definition features_of :: "'f f64 \<Rightarrow> 'f Database \<Rightarrow> int \<Rightarrow> string list \<Rightarrow> string \<Rightarrow> 'f list" where
  "features_of F db rid layers pk =
     map (\<lambda>k. case map_of (t_signal db) (rid, pk, k) of Some (v, _) \<Rightarrow> v | None \<Rightarrow> f_lit F 0) layers"

lemma position_spec: "distinct ks \<Longrightarrow> position l ks = Some j \<longleftrightarrow> j < length ks \<and> ks ! j = l"
proof (induction ks arbitrary: j)
  case (Cons k ks)
  then have "position l (k # ks) = Some j \<longleftrightarrow> (if k = l then j = 0 else \<exists>i. j = Suc i \<and> i < length ks \<and> ks ! i = l)"
    by auto
  then show ?case
    using Cons.prems by (cases j) (auto simp: in_set_conv_nth)
qed simp

lemma position_None: "position l ks = None \<longleftrightarrow> l \<notin> set ks"
  by (induction ks) auto

lemma map_update_position:
  assumes "distinct ks" "position l ks = Some j"
  shows "(map f ks)[j := v] = map (f(l := v)) ks"
proof (rule nth_equalityI)
  fix i assume i: "i < length ((map f ks)[j := v])"
  have "j < length ks" "ks ! j = l"
    using assms(2) position_spec [OF assms(1)] by simp_all
  then have "ks ! i = l \<longleftrightarrow> i = j"
    using i nth_eq_iff_index_eq [OF assms(1), of i j] by simp
  then show "(map f ks)[j := v] ! i = map (f(l := v)) ks ! i"
    using i by (auto simp: nth_list_update)
qed simp

lemma fill_features:
  assumes "distinct ks" "distinct (map fst rows)" "\<forall>((r, _), _)\<in>set rows. r = rid"
    and "feats0 = (\<lambda>pk. if pk \<in> L then Some (replicate (length ks) z) else None)"
  shows "fold (fill_feature ks) rows feats0 =
    (\<lambda>pk. if pk \<in> L then Some (map (\<lambda>k. case map_of rows (rid, pk, k) of Some (v, _) \<Rightarrow> v | None \<Rightarrow> z) ks) else None)"
  using assms(2,3)
proof (induction rows rule: rev_induct)
  case Nil
  then show ?case
    by (auto simp: assms(4) fun_eq_iff map_replicate_const)
next
  case (snoc row rows)
  obtain pk l v e where row: "row = ((rid, pk, l), (v, e))"
    using snoc.prems(2) by (cases row) auto
  have new: "map_of rows (rid, pk, l) = None"
    using snoc.prems(1) by (auto simp: row map_of_eq_None_iff)
  let ?g = "\<lambda>rs p k. case map_of rs (rid, p, k) of Some (v, _) \<Rightarrow> v | None \<Rightarrow> z"
  have g: "?g (rows @ [row]) p = (if p = pk then (?g rows p)(l := v) else ?g rows p)" for p
    using new by (auto simp: fun_eq_iff row map_add_def split: option.splits)
  have IH: "fold (fill_feature ks) rows feats0 = (\<lambda>pk. if pk \<in> L then Some (map (?g rows pk) ks) else None)"
    using snoc by simp
  have "fill_feature ks row (\<lambda>pk. if pk \<in> L then Some (map (?g rows pk) ks) else None) p =
      (if p \<in> L then Some (map (?g (rows @ [row]) p) ks) else None)" for p
  proof (cases "position l ks")
    case None
    then have "map (?g (rows @ [row]) p) ks = map (?g rows p) ks"
      unfolding g by (auto simp: position_None)
    moreover have "fill_feature ks row m = m" for m :: "string \<rightharpoonup> 'a list"
      using None by (simp add: fill_feature_def row split: option.split)
    ultimately show ?thesis
      by (simp only:)
  next
    case (Some j)
    then show ?thesis
      unfolding g using map_update_position [OF assms(1) Some, of "?g rows pk" v] by (simp add: fill_feature_def row)
  qed
  then show ?case
    by (simp add: IH fun_eq_iff)
qed

lemma set_read_labels:
  assumes "distinct (map lb_pubkey (t_backpropagation db))"
  shows "set (read_labels db) = (\<lambda>l. (lb_pubkey l, lb_is_spam l)) ` set (t_backpropagation db)"
proof -
  let ?kvs = "map (\<lambda>l. (lb_pubkey l, lb_is_spam l)) (t_backpropagation db)"
  have d: "distinct (map fst ?kvs)"
    using assms by (simp add: comp_def)
  have "fold (\<lambda>l. AList.update (lb_pubkey l) (lb_is_spam l)) (t_backpropagation db) [] = upserts ?kvs []"
    by (simp add: upserts_def fold_map comp_def)
  moreover have "distinct (map fst (upserts ?kvs []))"
    by (simp add: upserts_keys)
  moreover have "map_of (upserts ?kvs []) = map_of ?kvs"
    using map_of_inject_set [of "rev ?kvs" ?kvs] d by (simp add: upserts_map rev_map [symmetric])
  ultimately have "set (fold (\<lambda>l. AList.update (lb_pubkey l) (lb_is_spam l)) (t_backpropagation db) []) = set ?kvs"
    using map_of_inject_set [of "upserts ?kvs []" ?kvs] d by simp
  then show ?thesis
    by (simp add: read_labels_def)
qed

lemma labeled_features_spec:
  assumes "db_inv db" "distinct ks"
  shows "labeled_features F rid ks db = map (\<lambda>(pk, is_spam). (pk, is_spam, features_of F db rid ks pk)) (read_labels db)"
proof -
  let ?rows = "filter (\<lambda>((r, _), _). r = rid) (t_signal db)"
  have "distinct (map fst (t_signal db))"
    using assms(1) by (simp add: db_inv_def)
  then have d: "distinct (map fst ?rows)"
    by (rule distinct_map_filter)
  have of: "map_of (filter (\<lambda>((r, _), _). r = rid) rows) (rid, pk, k) = map_of rows (rid, pk, k)"
    for rows :: "((int \<times> string \<times> string) \<times> 'a \<times> string option) list" and pk k
    by (induction rows) auto
  have in_fst: "(pk, b) \<in> set (read_labels db) \<Longrightarrow> pk \<in> fst ` set (read_labels db)" for pk b
    by force
  note fill = fill_features [OF assms(2) d _ refl, of rid]
  show ?thesis
    unfolding labeled_features_def Let_def
    by (subst fill) (auto simp: features_of_def of dest: in_fst)
qed

section \<open>Properties\<close>

lemma populate_other:
  "t_weight (populate_review_queue now rid n db) = t_weight db"
  "t_signal (populate_review_queue now rid n db) = t_signal db"
  "t_backpropagation (populate_review_queue now rid n db) = t_backpropagation db"
  "db_inv (populate_review_queue now rid n db) = db_inv db"
  "\<exists>q. populate_review_queue now rid n db = db\<lparr> t_review := q \<rparr>"
  by (auto simp: populate_review_queue_def Let_def db_inv_def has_run_def)

lemma distinct_LAYERS: "distinct (LAYERS @ [BIAS_KEY])"
  by (simp add: LAYERS_def BIAS_KEY_def)

text \<open>The stored weights of the four layers and of the bias, as the next stage reads them.\<close>

definition stored_score :: "'f f64 \<Rightarrow> 'f HunterConfig \<Rightarrow> 'f Database \<Rightarrow> 'f list \<Rightarrow> 'f" where
  "stored_score F config db xs =
     combine F (map (\<lambda>k. weight_of (read_weights db) k (layer_default config k)) LAYERS)
       (weight_of (read_weights db) BIAS_KEY (hc_bias config)) xs"

lemma adopted_weights:
  assumes d: "distinct (map w_layer (t_weight db))" and rows: "set (LAYERS @ [BIAS_KEY]) \<subseteq> w_layer ` set (t_weight db)"
    and len: "length ws = length LAYERS" and db': "db' = write_weights now ws b rid db"
  shows "map (\<lambda>k. weight_of (read_weights db') k (fallback k)) LAYERS = ws"
    "weight_of (read_weights db') BIAS_KEY fb = b" "tau_of (read_weights db') t = tau_of (read_weights db) t"
proof -
  let ?kws = "zip LAYERS ws @ [(BIAS_KEY, b)]"
  have keys: "map fst ?kws = LAYERS @ [BIAS_KEY]"
    using len by simp
  have at: "weight_at (read_weights db') l =
      (case map_of ?kws l of
         Some w \<Rightarrow> map_option (\<lambda>row. row\<lparr> w_weight := w, w_tuned_at := Some now, w_tuned_from_run := Some rid \<rparr>) (weight_at (t_weight db) l)
       | None \<Rightarrow> weight_at (t_weight db) l)" for l
    unfolding read_weights_def db' write_weights_fold [OF len]
    using d fold_update_weight_other [of now rid ?kws db] distinct_LAYERS
    by (subst weight_at_sort) (simp_all only: fold_update_weight_at keys)
  have new: "weight_of (read_weights db') k f = w" if kw: "(k, w) \<in> set ?kws" for k w f
  proof -
    have "map_of ?kws k = Some w"
      using kw keys distinct_LAYERS by (intro map_of_is_SomeI) simp_all
    moreover have "k \<in> set (LAYERS @ [BIAS_KEY])"
      using kw keys by (metis fst_conv image_eqI set_map)
    then have "weight_at (t_weight db) k \<noteq> None"
      using rows unfolding weight_at_def map_of_eq_None_iff by (auto simp: image_iff)
    ultimately show ?thesis
      unfolding weight_of_at at by (auto split: option.split)
  qed
  show "map (\<lambda>k. weight_of (read_weights db') k (fallback k)) LAYERS = ws"
    using len new by (intro nth_equalityI) (auto simp: set_zip)
  show "weight_of (read_weights db') BIAS_KEY fb = b"
    by (rule new) simp
  have none: "map_of ?kws THRESHOLD_KEY = None"
    unfolding map_of_eq_None_iff set_map [symmetric] keys by (simp add: LAYERS_def BIAS_KEY_def THRESHOLD_KEY_def)
  have "weight_at (read_weights db') THRESHOLD_KEY = weight_at (read_weights db) THRESHOLD_KEY"
    unfolding at none option.case by (simp add: read_weights_def weight_at_sort [OF d])
  then show "tau_of (read_weights db') t = tau_of (read_weights db) t"
    by (simp add: tau_of_at)
qed

lemma fit_length:
  assumes "\<And>rows classes a m pos cs c. logistic rows classes a m = Inr (pos, cs, c) \<Longrightarrow> rows \<noteq> [] \<Longrightarrow> length cs = length (hd rows)"
    and "fit F logistic labeled a m = Inr (ws, b)" "labeled \<noteq> []" "\<And>pk is_spam xs. (pk, is_spam, xs) \<in> set labeled \<Longrightarrow> length xs = n"
  shows "length ws = n"
proof -
  let ?rows = "map (\<lambda>(_, _, xs). xs) labeled"
  obtain pos cs c where cs: "logistic ?rows (map (\<lambda>(_, is_spam, _). if is_spam then 1 else 0) labeled) a m = Inr (pos, cs, c)"
    "ws = (if pos = 1 then cs else map (f_neg F) cs)"
    using assms(2) by (auto simp: fit_def split: if_splits sum.splits)
  then have "length cs = length (hd ?rows)"
    using assms(1,3) by simp
  moreover have "length (hd ?rows) = n"
    using assms(3,4) by (cases labeled) auto
  ultimately show ?thesis
    using cs(2) by simp
qed

definition is_adopted :: "(string, 'f TuneReport) result \<Rightarrow> bool" where
  "is_adopted report = (case report of Inr (Adopted ws b rid) \<Rightarrow> True | _ \<Rightarrow> False)"

lemma tune_on_cases:
  assumes "tune_on F logistic now config rid db = (report, db')"
    and "db1 = populate_review_queue now rid (tc_review_sample_size (hc_tune config)) db"
    and "labeled = labeled_features F rid LAYERS db1"
  obtains (blocked) "\<not> is_adopted report" "db' = db1"
  | (adopted) ws b where "report = Inr (Adopted (zip LAYERS ws) b rid)" "labeled \<noteq> []"
      "fit F logistic labeled (tc_alpha (hc_tune config)) (tc_max_iterations (hc_tune config)) = Inr (ws, b)"
      "backtest F labeled ws b (tau_of (read_weights db1) (hc_tau config)) = Inr ()" "db' = write_weights now ws b rid db1"
proof (cases "labeled = [] \<or> \<not> (list_ex (\<lambda>(_, is_spam, _). is_spam) labeled \<and> list_ex (\<lambda>(_, is_spam, _). \<not> is_spam) labeled)")
  case True
  then show ?thesis
    using assms(1) blocked unfolding tune_on_def Let_def assms(2,3) [symmetric] by (auto simp: is_adopted_def split: if_splits)
next
  case labels: False
  let ?fit = "fit F logistic labeled (tc_alpha (hc_tune config)) (tc_max_iterations (hc_tune config))"
  show ?thesis
  proof (cases ?fit)
    case (Inl e)
    then show ?thesis
      using assms(1) blocked labels unfolding tune_on_def Let_def assms(2,3) [symmetric] by (auto simp: is_adopted_def)
  next
    case (Inr wb)
    obtain ws b where wb: "wb = (ws, b)"
      by fastforce
    show ?thesis
    proof (cases "backtest F labeled ws b (tau_of (read_weights db1) (hc_tau config))")
      case (Inl r)
      then show ?thesis
        using assms(1) blocked labels Inr wb unfolding tune_on_def Let_def assms(2,3) [symmetric] by (auto simp: is_adopted_def)
    next
      case u: (Inr u)
      then have "tune_on F logistic now config rid db =
          (Inr (Adopted (zip LAYERS ws) b rid), write_weights now ws b rid db1)"
        using labels Inr wb unfolding tune_on_def Let_def assms(2,3) [symmetric] by simp
      then show ?thesis
        using adopted [of ws b] assms(1) labels Inr wb u by simp
    qed
  qed
qed


text \<open>A finished run with a labelled spammer and a labelled ham, and a weight table after \<open>n\<close> inserts of the seeding.\<close>

definition example_labels :: "Label list" where
  "example_labels = [\<lparr> lb_pubkey = ''a'', lb_is_spam = True, lb_labeled_at = 0, lb_source = None, lb_note = None \<rparr>,
     \<lparr> lb_pubkey = ''b'', lb_is_spam = False, lb_labeled_at = 0, lb_source = None, lb_note = None \<rparr>]"

definition example_tuned :: "nat \<Rightarrow> rat option Database" where
  "example_tuned n = bootstrap\<lparr> t_run := [example_run\<lparr> status := ''done'' \<rparr>], t_run_seq := 1, t_pubkey := [''a'', ''b''],
     t_signal := [((1, ''a'', ''L1_near_duplicate''), (Some 1, None)), ((1, ''b'', ''L1_near_duplicate''), (Some 0, None))],
     t_backpropagation := example_labels, t_weight := take n (seed_rows example_config) \<rparr>"

definition example_logistic :: "rat option logistic" where
  "example_logistic rows classes a m = Inr (1, map (\<lambda>j. if j = 1 then Some 8 else Some 0) [0..<length (hd rows)], Some (- 4))"

lemma example_labeled:
  "labeled_features example_f64 1 LAYERS ((example_tuned n)\<lparr> t_review := q \<rparr>) =
     [(''a'', True, [Some 0, Some 1, Some 0, Some 0]), (''b'', False, [Some 0, Some 0, Some 0, Some 0])]"
  by (simp add: labeled_features_def read_labels_def example_tuned_def example_labels_def fill_feature_def LAYERS_def
      bootstrap_def example_f64_def Let_def)

lemma example_combine:
  "combine example_f64 [Some 0, Some 8, Some 0, Some 0] (Some (- 4)) [Some 0, Some 1, Some 0, Some 0] = Some (5/6)"
  "combine example_f64 [Some 0, Some 8, Some 0, Some 0] (Some (- 4)) [Some 0, Some 0, Some 0, Some 0] = Some (1/6)"
  "combine example_f64 [Some 0, Some 2, Some (3/2), Some (3/2)] (Some (- 4)) [Some 0, Some 1, Some 0, Some 0] = Some (1/4)"
  by (simp_all add: combine_def example_f64_def f_sum_def nan_op_def example_exp_def Let_def)

lemma tau_of_const:
  assumes "\<forall>w\<in>set ws. w_layer w = THRESHOLD_KEY \<longrightarrow> w_threshold w = Some t"
  shows "tau_of ws t = t"
proof (cases "find (\<lambda>w. w_layer w = THRESHOLD_KEY) ws")
  case (Some w)
  then have "w \<in> set ws" "w_layer w = THRESHOLD_KEY"
    by (auto simp: find_Some_iff)
  then show ?thesis
    using assms Some by (simp add: tau_of_def)
qed (simp add: tau_of_def)

lemma example_tau: "tau_of (read_weights ((example_tuned n)\<lparr> t_review := q \<rparr>)) (hc_tau example_config) = Some (1/2)"
proof -
  have "\<forall>w\<in>set (seed_rows example_config). w_layer w = THRESHOLD_KEY \<longrightarrow> w_threshold w = Some (hc_tau example_config)"
    by (simp add: seed_rows_def weight_row_def THRESHOLD_KEY_def BIAS_KEY_def Let_def)
  then have "tau_of (read_weights ((example_tuned n)\<lparr> t_review := q \<rparr>)) (hc_tau example_config) = hc_tau example_config"
    by (intro tau_of_const) (auto simp: read_weights_def example_tuned_def dest: in_set_takeD)
  then show ?thesis
    by (simp add: example_config_def)
qed

lemma example_run_tune:
  "\<exists>q. run_tune example_f64 example_logistic 0 example_config (Some 1) (example_tuned n) =
    (Inr (Adopted (zip LAYERS [Some 0, Some 8, Some 0, Some 0]) (Some (- 4)) 1),
     write_weights 0 [Some 0, Some 8, Some 0, Some 0] (Some (- 4)) 1 ((example_tuned n)\<lparr> t_review := q \<rparr>))"
proof -
  obtain q where q: "populate_review_queue 0 1 100 (example_tuned n) = (example_tuned n)\<lparr> t_review := q \<rparr>"
    using populate_other(5) by blast
  have "fit example_f64 example_logistic [(''a'', True, [Some 0, Some 1, Some 0, Some 0]), (''b'', False, [Some 0, Some 0, Some 0, Some 0])] a m =
      Inr ([Some 0, Some 8, Some 0, Some 0], Some (- 4))" for a m
    by (simp add: fit_def example_logistic_def upt_rec)
  moreover have "f_less example_f64 (Some (1/2)) (Some (5/6))" "\<not> f_less example_f64 (Some (1/2)) (Some (1/6))"
    by (simp_all add: example_f64_def)
  then have "backtest example_f64 [(''a'', True, [Some 0, Some 1, Some 0, Some 0]), (''b'', False, [Some 0, Some 0, Some 0, Some 0])]
      [Some 0, Some 8, Some 0, Some 0] (Some (- 4)) (Some (1/2)) = Inr ()"
    by (simp add: backtest_ok example_combine)
  moreover have "tc_review_sample_size (hc_tune example_config) = 100"
    by (simp add: example_config_def)
  ultimately show ?thesis
    using q example_tau [of q n] by (auto simp: run_tune_def tune_on_def Let_def example_labeled)
qed

text \<open>
  C39: an adoption can be lost: the seeding inserts its rows one by one, so a crash leaves a prefix of
  them, which later runs take for a seeded table; the tuner then reports an adoption whose weights for the
  missing rows no table holds, and the scores of the next run, from the stored weights, do not flag a
  pubkey labelled as spam that the backtest flagged.
\<close>

theorem tune_adoption_lost:
  "\<exists>db ws b db' l. t_weight db = take 1 (seed_rows example_config) \<and> seed_weights_if_empty example_config db = Inr db \<and>
     run_tune example_f64 example_logistic 0 example_config (Some 1) db = (Inr (Adopted ws b 1), db') \<and>
     l \<in> set (t_backpropagation db) \<and> lb_is_spam l \<and>
     \<not> f_less example_f64 (tau_of (read_weights db') (hc_tau example_config))
         (stored_score example_f64 example_config db' (features_of example_f64 db 1 LAYERS (lb_pubkey l)))"
proof -
  obtain q where q: "run_tune example_f64 example_logistic 0 example_config (Some 1) (example_tuned 1) =
    (Inr (Adopted (zip LAYERS [Some 0, Some 8, Some 0, Some 0]) (Some (- 4)) 1),
     write_weights 0 [Some 0, Some 8, Some 0, Some 0] (Some (- 4)) 1 ((example_tuned 1)\<lparr> t_review := q \<rparr>))"
    using example_run_tune by blast
  let ?db' = "write_weights 0 [Some 0, Some 8, Some 0, Some 0] (Some (- 4)) 1 ((example_tuned 1)\<lparr> t_review := q \<rparr>)"
  have rw: "read_weights ?db' = [(weight_row ''L0_whitelist_absence'' (Some 0) None)\<lparr> w_tuned_at := Some 0, w_tuned_from_run := Some 1 \<rparr>]"
    by (simp add: read_weights_def write_weights_def update_weight_def LAYERS_def example_tuned_def seed_rows_def
        weight_row_def BIAS_KEY_def Let_def)
  have "tau_of (read_weights ?db') (hc_tau example_config) = Some (1/2)"
    unfolding rw by (simp add: tau_of_def weight_row_def THRESHOLD_KEY_def example_config_def)
  moreover have "features_of example_f64 (example_tuned 1) 1 LAYERS ''a'' = [Some 0, Some 1, Some 0, Some 0]"
    by (simp add: features_of_def LAYERS_def example_tuned_def example_f64_def)
  moreover have "stored_score example_f64 example_config ?db' [Some 0, Some 1, Some 0, Some 0] = Some (1/4)"
    unfolding stored_score_def rw by (simp add: weight_of_def LAYERS_def weight_row_def layer_default_def BIAS_KEY_def
        example_config_def example_combine)
  moreover have "\<not> f_less example_f64 (Some (1/2)) (Some (1/4))"
    by (simp add: example_f64_def)
  moreover have "seed_weights_if_empty example_config (example_tuned 1) = Inr (example_tuned 1)"
    by (simp add: seed_weights_if_empty_def example_tuned_def seed_rows_def weight_row_def config_layer_keys_def Let_def)
  ultimately show ?thesis
    using q by (intro exI [of _ "example_tuned 1"] exI [of _ ?db'] exI [of _ "hd example_labels"] exI)
      (auto simp: example_tuned_def example_labels_def)
qed


end
