(* ===== verification/Cli.thy ===== *)
theory Cli
  imports BatchRuns Tune
begin

text \<open>
  \<^verbatim>\<open>spamhunter/pubkey_iterator/src/main.rs\<close> and the loading half of \<^verbatim>\<open>config.rs\<close>: the configuration file, which
  is generated when it is missing, and the three commands over one database file.  Files are a map from
  paths to contents; the TOML parser is a parameter.  \<^verbatim>\<open>run\<close> starts the batch of theory \<open>Batch\<close>; \<^verbatim>\<open>export\<close>
  and \<^verbatim>\<open>tune\<close> finish at once.  A failure of SQLite at one of their calls ends the command without an effect
  and is left out.
\<close>

section \<open>The configuration file\<close>

datatype ConfigError = ReadFailed string | ParseFailed string

type_synonym files = "string \<rightharpoonup> string"

definition load :: "(string \<Rightarrow> (string, 'f HunterConfig) result) \<Rightarrow> string \<Rightarrow> files \<Rightarrow> (ConfigError, 'f HunterConfig) result" where
  "load toml path fs =
     (case fs path of
        None \<Rightarrow> Inl (ReadFailed ''No such file or directory'')
      | Some contents \<Rightarrow> map_err ParseFailed (toml contents))"

text \<open>\<^verbatim>\<open>std::fs::write\<close> writes the whole text, or fails after a part of it, or before it creates the file.\<close>

datatype write_outcome = Written | WriteFailed string "nat option"

fun fs_write :: "write_outcome \<Rightarrow> string \<Rightarrow> string \<Rightarrow> files \<Rightarrow> (ConfigError, unit) result \<times> files" where
  "fs_write Written path contents fs = (Inr (), fs(path \<mapsto> contents))"
| "fs_write (WriteFailed e None) path contents fs = (Inl (ReadFailed e), fs)"
| "fs_write (WriteFailed e (Some n)) path contents fs = (Inl (ReadFailed e), fs(path \<mapsto> take n contents))"

definition load_or_generate ::
  "(string \<Rightarrow> (string, 'f HunterConfig) result) \<Rightarrow> string \<Rightarrow> write_outcome \<Rightarrow> string \<Rightarrow> files \<Rightarrow>
   (ConfigError, 'f HunterConfig) result \<times> files" where
  "load_or_generate toml default_config wr path fs =
     (if fs path = None
      then case fs_write wr path default_config fs of
             (Inl e, fs) \<Rightarrow> (Inl e, fs)
           | (Inr _, fs) \<Rightarrow> (load toml path fs, fs)
      else (load toml path fs, fs))"

section \<open>The commands\<close>

datatype Commands = CmdRun bool "nat option" | CmdExport "int option" | CmdTune "int option"

record CliArgs =
  ca_config :: "string option"
  ca_db :: string
  ca_command :: "Commands option"

text \<open>\<^verbatim>\<open>PathBuf::join\<close> with a relative path.\<close>

definition join_path :: "string \<Rightarrow> string \<Rightarrow> string" where
  "join_path base part = (if base = [] \<or> last base = CHR ''/'' then base @ part else base @ ''/'' @ part)"

definition default_config_path :: "string option \<Rightarrow> string" where
  "default_config_path home =
     (case home of
        Some h \<Rightarrow> join_path (join_path h ''deepfry'') ''pubkey_iterator_config.toml''
      | None \<Rightarrow> ''pubkey_iterator_config.toml'')"

definition command_of :: "CliArgs \<Rightarrow> Commands" where
  "command_of cli = (case ca_command cli of Some c \<Rightarrow> c | None \<Rightarrow> CmdRun False None)"

datatype CliError = CliConfig ConfigError | CliStore sqlite_error | CliMessage string

datatype 'f outcome =
  Batching "'f batch"
| Exported nat int
| Tuned "'f TuneReport"
| Stopped CliError

record 'f host =
  h_home :: "string option"
  h_files :: files
  h_dbs :: "string \<rightharpoonup> 'f Database"

text \<open>What the process uses besides its host.\<close>

record 'f tools =
  tl_toml :: "string \<Rightarrow> (string, 'f HunterConfig) result"
  tl_default_config :: string
  tl_write :: write_outcome
  tl_f64 :: "'f f64"
  tl_logistic :: "'f logistic"
  tl_tau_in :: "string \<Rightarrow> 'f option option"
  tl_now :: int

text \<open>\<^verbatim>\<open>Store::open\<close> creates the schema in a new file.\<close>

definition open_db :: "string \<Rightarrow> 'f host \<Rightarrow> 'f Database" where
  "open_db path h = (case h_dbs h path of Some db \<Rightarrow> db | None \<Rightarrow> bootstrap)"

definition cmd_export :: "'f tools \<Rightarrow> int option \<Rightarrow> 'f Database \<Rightarrow> 'f outcome \<times> 'f Database" where
  "cmd_export T run_id_arg db =
     (case (case run_id_arg of Some rid \<Rightarrow> Some rid | None \<Rightarrow> latest_done_run db) of
        None \<Rightarrow> (Stopped (CliMessage ''no completed run to export''), db)
      | Some rid \<Rightarrow>
          (case materialize_suspected (tl_f64 T) (tl_tau_in T) (tl_now T) rid db of
             Inl e \<Rightarrow> (Stopped (CliStore e), db)
           | Inr (n, db) \<Rightarrow> (Exported n rid, db)))"

definition cmd_tune :: "'f tools \<Rightarrow> 'f HunterConfig \<Rightarrow> int option \<Rightarrow> 'f Database \<Rightarrow> 'f outcome \<times> 'f Database" where
  "cmd_tune T config run_id_arg db =
     (case run_tune (tl_f64 T) (tl_logistic T) (tl_now T) config run_id_arg db of
        (Inl e, db) \<Rightarrow> (Stopped (CliMessage e), db)
      | (Inr report, db) \<Rightarrow> (Tuned report, db))"

definition hunter_main :: "'f tools \<Rightarrow> CliArgs \<Rightarrow> 'f host \<Rightarrow> 'f outcome \<times> 'f host" where
  "hunter_main T cli h =
     (let config_path = (case ca_config cli of Some p \<Rightarrow> p | None \<Rightarrow> default_config_path (h_home h));
          with_config = (\<lambda>k.
            case load_or_generate (tl_toml T) (tl_default_config T) (tl_write T) config_path (h_files h) of
              (Inl e, fs) \<Rightarrow> (Stopped (CliConfig e), h\<lparr> h_files := fs \<rparr>)
            | (Inr config, fs) \<Rightarrow>
                (case k config (open_db (ca_db cli) h) of
                   (out, db) \<Rightarrow> (out, h\<lparr> h_files := fs, h_dbs := (h_dbs h)(ca_db cli \<mapsto> db) \<rparr>)))
      in case command_of cli of
           CmdRun resume bound \<Rightarrow> with_config (\<lambda>config db. (Batching (run_batch db config resume bound), db))
         | CmdExport run_id_arg \<Rightarrow>
             (case cmd_export T run_id_arg (open_db (ca_db cli) h) of
                (out, db) \<Rightarrow> (out, h\<lparr> h_dbs := (h_dbs h)(ca_db cli \<mapsto> db) \<rparr>))
         | CmdTune run_id_arg \<Rightarrow> with_config (\<lambda>config. cmd_tune T config run_id_arg))"

section \<open>What the commands leave alone\<close>

lemma same_runs_update [simp]:
  "same_runs db (db\<lparr> t_suspected := x \<rparr>)" "same_runs db (db\<lparr> t_review := y \<rparr>)"
  by (simp_all add: same_runs_def)

lemma same_runs_trans: "same_runs db db' \<Longrightarrow> same_runs db' db'' \<Longrightarrow> same_runs db db''"
  by (cases db; cases db'; cases db''; simp add: same_runs_def)

lemma same_runs_write_weights: "same_runs db (write_weights now ws b rid db)"
  unfolding write_weights_def
  using fold_update_weight_other [of now rid "zip LAYERS ws" db] update_weight_other [of now rid "(BIAS_KEY, b)"]
  by (metis same_runs_refl same_runs_trans same_runs_weight)

lemma same_runs_tune:
  assumes "run_tune F logistic now config arg db = (r, db')"
  shows "same_runs db db'"
proof (cases "case arg of Some rid \<Rightarrow> Some rid | None \<Rightarrow> latest_done_run db")
  case None
  then show ?thesis
    using assms by (simp add: run_tune_def)
next
  case (Some rid)
  let ?db1 = "populate_review_queue now rid (tc_review_sample_size (hc_tune config)) db"
  have first: "same_runs db ?db1"
    using populate_other(5) [of now rid _ db] by (metis same_runs_update(2))
  have "tune_on F logistic now config rid db = (r, db')"
    using assms Some by (simp add: run_tune_def)
  from this refl refl show ?thesis
  proof (cases rule: tune_on_cases)
    case blocked
    show ?thesis
      unfolding blocked(2) by (rule first)
  next
    case (adopted ws b)
    show ?thesis
      unfolding adopted(5) by (rule same_runs_trans [OF first same_runs_write_weights])
  qed
qed

lemma cmds_same_runs:
  "cmd_export T arg db = (out, db') \<Longrightarrow> same_runs db db'"
  "cmd_tune T config arg db = (out, db') \<Longrightarrow> same_runs db db'"
  by (auto simp: cmd_export_def cmd_tune_def materialize_suspected_def bind_r_eq_Inr Let_def
      split: option.splits sum.splits prod.splits dest: same_runs_tune)

lemma load_or_generate_files:
  "load_or_generate toml default_config wr path fs = (r, fs') \<Longrightarrow> fs p = Some contents \<Longrightarrow> fs' p = Some contents"
  by (cases wr; cases "fs path") (auto simp: load_or_generate_def fs_write.simps split: prod.splits sum.splits option.splits
      elim!: fs_write.elims)

lemma open_db_simps [simp]:
  "open_db path (h\<lparr> h_files := fs \<rparr>) = open_db path h"
  "open_db path (h\<lparr> h_dbs := (h_dbs h)(p \<mapsto> db) \<rparr>) = (if path = p then db else open_db path h)"
  "open_db path (h\<lparr> h_files := fs, h_dbs := (h_dbs h)(p \<mapsto> db) \<rparr>) = (if path = p then db else open_db path h)"
  by (simp_all add: open_db_def)

lemma hunter_main_db:
  assumes "hunter_main T cli h = (out, h')"
  shows "same_runs (open_db path h) (open_db path h')"
  using assms
  by (auto simp: hunter_main_def Let_def split: Commands.splits prod.splits sum.splits dest: cmds_same_runs)

lemma hunter_main_files:
  assumes "hunter_main T cli h = (out, h')" "h_files h p = Some contents"
  shows "h_files h' p = Some contents"
  using assms
  by (auto simp: hunter_main_def Let_def split: Commands.splits prod.splits sum.splits
      dest: load_or_generate_files)

section \<open>What an export lists\<close>

lemma materialize_keys:
  assumes "db_inv db" "materialize_suspected F tau_in now rid db = Inr (n, db')"
  shows "(rid, pk) \<in> fst ` set (t_suspected db') \<longleftrightarrow> (\<exists>s w. map_of (t_score db) (rid, pk) = Some (s, w, True))"
proof -
  let ?rows = "order_ranked F (suspected_rows rid db)"
  obtain tau where "read_tau_from_run_snapshot tau_in rid db = Inr tau"
    using assms(2) by (auto simp: materialize_suspected_def bind_r_eq_Inr)
  then have t: "t_suspected db' = filter (\<lambda>((r, _), _). r \<noteq> rid) (t_suspected db) @
      map (\<lambda>(i, pk, s). ((rid, pk), (s, tau, i + 1, now))) (enumerate 0 ?rows)"
    using assms(2) by (auto simp: materialize_suspected_def Let_def)
  have "map fst (map (\<lambda>(i, pk, s). ((rid, pk), (s, tau, i + 1, now))) (enumerate 0 ?rows)) =
      map (\<lambda>row. (rid, fst row)) (map snd (enumerate 0 ?rows))"
    by (simp add: comp_def case_prod_beta del: map_snd_enumerate)
  then have "fst ` set (t_suspected db') =
      fst ` set (filter (\<lambda>((r, _), _). r \<noteq> rid) (t_suspected db)) \<union> (\<lambda>row. (rid, fst row)) ` set ?rows"
    unfolding t set_append image_Un map_snd_enumerate by (metis set_map)
  moreover have "(rid, pk) \<notin> fst ` set (filter (\<lambda>((r, _), _). r \<noteq> rid) (t_suspected db))"
    by auto
  ultimately have "(rid, pk) \<in> fst ` set (t_suspected db') \<longleftrightarrow> (\<exists>s. (pk, s) \<in> set ?rows)"
    by (simp add: image_iff) (metis fst_conv prod.collapse)
  then show ?thesis
    using suspected_iff [of db pk _ rid] assms(1) by (simp add: set_order_ranked db_inv_def)
qed

lemma stage_score_row:
  "stage_score R (from_config R config ws) rid pk evs w = Some p \<Longrightarrow>
   p_run_id p = rid \<and> p_pubkey p = pk \<and> (p_suspected p \<longleftrightarrow> f_less (rt_f64 R) (tau_of ws (hc_tau config)) (p_score p))"
  by (auto simp: stage_score_def from_config_def Let_def bind_eq_Some_conv)

section \<open>Properties\<close>

text \<open>
  C8: the tools keep their hands off the runs.  Whatever the command, the arguments and the outcome, every
  database keeps its runs, pubkeys, scores, signals and fingerprints, and every file that existed keeps
  its contents, the configuration included.
\<close>

theorem commands_keep_runs:
  assumes "hunter_main T cli h = (out, h')"
  shows "same_runs (open_db path h) (open_db path h') \<and> (h_files h p = Some contents \<longrightarrow> h_files h' p = Some contents)"
  using hunter_main_db [OF assms] hunter_main_files [OF assms] by blast


section \<open>An example\<close>

definition example_tools :: "rat option tools" where
  "example_tools = \<lparr> tl_toml = (\<lambda>_. Inr example_config), tl_default_config = ''tau = 0.5'', tl_write = Written, tl_f64 = example_f64,
     tl_logistic = (\<lambda>_ _ _ _. Inl ''unused''), tl_tau_in = (\<lambda>_. Some (Some (Some (1/2)))), tl_now = 0 \<rparr>"

definition example_cli :: CliArgs where
  "example_cli = \<lparr> ca_config = None, ca_db = ''spamhunter.sqlite'', ca_command = Some (CmdExport None) \<rparr>"

definition example_host :: "rat option host" where
  "example_host = \<lparr> h_home = Some ''/root'', h_files = [''/etc/hosts'' \<mapsto> ''localhost''], h_dbs = [''spamhunter.sqlite'' \<mapsto> example_suspects] \<rparr>"

theorem commands_keep_runs_witness:
  "same_runs example_suspects (open_db ''spamhunter.sqlite'' (snd (hunter_main example_tools example_cli example_host))) \<and>
   h_files (snd (hunter_main example_tools example_cli example_host)) ''/etc/hosts'' = Some ''localhost''"
  using commands_keep_runs [OF surjective_pairing [of "hunter_main example_tools example_cli example_host"],
      of "''spamhunter.sqlite''" "''/etc/hosts''" "''localhost''"]
  by (simp add: example_host_def open_db_def)


end
